(* ===== verification/Prelude.thy ===== *)
theory Prelude
  imports Main "HOL-Library.Word" "HOL-Library.Monad_Syntax" "HOL-Library.Signed_Division"
begin

text \<open>
  The vocabulary every component shares: the machine word of \<^verbatim>\<open>config.h\<close>, the memory, the
  shifts the AArch64 target performs, loops over word indices, and the facts about pointer tags
  (the two low bits of an AVL node's \<^verbatim>\<open>prev\<close> field hold its balance factor).

  Memory is a total function from byte addresses to 64-bit words. All data of the program is
  made of aligned 64-bit words, so the word at address \<open>p\<close> is \<open>m p\<close> and C's \<open>p[i]\<close> is
  \<open>m (p + 8 * i)\<close>. The code runs on bare metal with the MMU off: address 0 is ordinary memory
  and no access traps, which is why reads are total. Functions that allocate or loop over
  pointer structures return an option; \<open>None\<close> means that the C code does not return.
\<close>

unbundle bit_operations_syntax

named_theorems mem_simps "reading memory after a write to a field"

subsection \<open>Words and memory\<close>

type_synonym u64 = "64 word"
type_synonym mem = "u64 \<Rightarrow> u64"

text \<open>
  \<^verbatim>\<open>x << n\<close> and \<^verbatim>\<open>x >> n\<close> with a variable amount: the AArch64 instructions LSLV and LSRV use
  the amount modulo 64. C leaves amounts of 64 and more undefined.
\<close>

definition shl :: "u64 \<Rightarrow> u64 \<Rightarrow> u64" where
  "shl x n = push_bit (unat n mod 64) x"

definition shr :: "u64 \<Rightarrow> u64 \<Rightarrow> u64" where
  "shr x n = drop_bit (unat n mod 64) x"

text \<open>The signed division of AArch64 (SDIV): truncating, and 0 for a zero divisor.\<close>

definition sdiv64 :: "u64 \<Rightarrow> u64 \<Rightarrow> u64" where
  "sdiv64 a b = word_of_int (sint a sdiv sint b)"

definition smod64 :: "u64 \<Rightarrow> u64 \<Rightarrow> u64" where
  "smod64 a b = word_of_int (sint a smod sint b)"

subsection \<open>Counting loops\<close>

lemma unat_less_2p64: "unat (x :: u64) < 2 ^ 64"
  using unsigned_less [where w = x and 'a = nat] by simp

text \<open>A small word has no high bits.\<close>

lemma bit_small:
  assumes "unat (x :: u64) < 2 ^ k" "bit x n"
  shows "n < k"
proof -
  have "unat (take_bit k x) = unat x" using assms(1) by (simp add: unsigned_take_bit_eq take_bit_nat_eq_self)
  then have "take_bit k x = x" by (simp add: word_unat_eq_iff)
  then show "n < k" using assms(2) by (metis bit_take_bit_iff)
qed

text \<open>A word counter below its bound gets closer to it: the measure of every counting loop.\<close>

lemma unat_suc: "i < n \<Longrightarrow> unat (i + 1 :: u64) = Suc (unat i)"
  using unat_less_2p64 [of n] by (simp add: unat_word_ariths word_less_nat_alt)

lemma word_loop_measure [simp]: "i < n \<Longrightarrow> unat (n - (i + 1)) < unat (n - i :: u64)"
proof -
  assume h: "i < n"
  then have s: "unat (i + 1) = Suc (unat i)" by (rule unat_suc)
  then have "i + 1 \<le> n" using h by (simp add: word_le_nat_alt word_less_nat_alt)
  with s h show ?thesis by (simp add: unat_sub order_less_imp_le word_less_nat_alt)
qed

lemma word_pos_measure [simp]: "(i :: u64) \<noteq> 0 \<Longrightarrow> unat (i - 1) < unat i"
  by (simp add: unat_minus_one unat_gt_0)

subsection \<open>Blocks of words\<close>

text \<open>\<open>words_at m p n\<close> is the list of the \<open>n\<close> words from address \<open>p\<close> on.\<close>

fun words_at :: "mem \<Rightarrow> u64 \<Rightarrow> nat \<Rightarrow> u64 list" where
  "words_at m p 0 = []"
| "words_at m p (Suc n) = m p # words_at m (p + 8) n"

fun store_words :: "mem \<Rightarrow> u64 \<Rightarrow> u64 list \<Rightarrow> mem" where
  "store_words m p [] = m"
| "store_words m p (v # vs) = store_words (m(p := v)) (p + 8) vs"

text \<open>
  \<^verbatim>\<open>for (word i = i0; i < n; ++i) dst[i] = src[i];\<close> Each iteration reads the memory the previous
  ones wrote, as the code does when the ranges overlap.
\<close>

function copy_words :: "mem \<Rightarrow> u64 \<Rightarrow> u64 \<Rightarrow> u64 \<Rightarrow> u64 \<Rightarrow> mem" where
  "copy_words m dst src i n =
     (if i < n then copy_words (m(dst + 8 * i := m (src + 8 * i))) dst src (i + 1) n else m)"
  by pat_completeness auto
termination
  by (relation "measure (\<lambda>(m, dst, src, i, n). unat (n - i))") auto

declare copy_words.simps [simp del]

subsection \<open>Loops\<close>

text \<open>
  \<^verbatim>\<open>for (word i = i0; i < n; ++i) s = f i s;\<close> with a bound that does not change, and the same with
  a body that may not return.
\<close>

function for_up :: "u64 \<Rightarrow> u64 \<Rightarrow> (u64 \<Rightarrow> 's \<Rightarrow> 's) \<Rightarrow> 's \<Rightarrow> 's" where
  "for_up i n f s = (if i < n then for_up (i + 1) n f (f i s) else s)"
  by pat_completeness auto
termination
  by (relation "measure (\<lambda>(i, n, f, s). unat (n - i))") auto

declare for_up.simps [simp del]

function for_up_o :: "u64 \<Rightarrow> u64 \<Rightarrow> (u64 \<Rightarrow> 's \<Rightarrow> 's option) \<Rightarrow> 's \<Rightarrow> 's option" where
  "for_up_o i n f s =
     (if i < n then (case f i s of None \<Rightarrow> None | Some s \<Rightarrow> for_up_o (i + 1) n f s) else Some s)"
  by pat_completeness auto
termination
  by (relation "measure (\<lambda>(i, n, f, s). unat (n - i))") auto

declare for_up_o.simps [simp del]

text \<open>\<^verbatim>\<open>for (word i = i0; i > k && b; --i) s = f i s;\<close>\<close>

function for_down :: "u64 \<Rightarrow> u64 \<Rightarrow> (u64 \<Rightarrow> 's \<Rightarrow> bool) \<Rightarrow> (u64 \<Rightarrow> 's \<Rightarrow> 's) \<Rightarrow> 's \<Rightarrow> 's" where
  "for_down i k b f s = (if k < i \<and> b i s then for_down (i - 1) k b f (f i s) else s)"
  by pat_completeness auto
termination
proof (relation "measure (\<lambda>(i, k, b, f, s). unat i)")
  fix i k :: u64 and b f and s :: 's
  assume "k < i \<and> b i s"
  then have "i \<noteq> 0" by auto
  then show "((i - 1, k, b, f, f i s), i, k, b, f, s) \<in> measure (\<lambda>(i, k, b, f, s). unat i)"
    by simp
qed simp

declare for_down.simps [simp del]

text \<open>
  \<^verbatim>\<open>for (word i = i0; i < n; ++i) s = f i s;\<close> where the code computes the bound again, from memory,
  in every iteration.
\<close>

partial_function (option) for_lim :: "u64 \<Rightarrow> ('s \<Rightarrow> u64) \<Rightarrow> (u64 \<Rightarrow> 's \<Rightarrow> 's) \<Rightarrow> 's \<Rightarrow> 's option" where
  "for_lim i lim f s = (if i < lim s then for_lim (i + 1) lim f (f i s) else Some s)"

text \<open>A loop that may run for ever.\<close>

partial_function (option) while_o :: "('s \<Rightarrow> bool) \<Rightarrow> ('s \<Rightarrow> 's option) \<Rightarrow> 's \<Rightarrow> 's option" where
  "while_o b c s = (if b s then do { s \<leftarrow> c s; while_o b c s } else Some s)"

text \<open>
  Functions of the C code that call one another. A call is an element of a datatype; \<open>step\<close> runs it
  up to the first call it makes and returns the calls that are to be made, in order, the rest of
  the function's own body among them. The list is the C stack.
\<close>

partial_function (option) run_calls ::
    "('c \<Rightarrow> 's \<Rightarrow> ('s \<times> 'c list) option) \<Rightarrow> 'c list \<Rightarrow> 's \<Rightarrow> 's option" where
  "run_calls step cs s = (case cs of
     [] \<Rightarrow> Some s
   | c # cs \<Rightarrow> do { (s, new) \<leftarrow> step c s; run_calls step (new @ cs) s })"

end
