(* ===== verification/Util.thy ===== *)
theory Util
  imports Prelude
begin

text \<open>
  The helpers of \<^verbatim>\<open>util.c\<close>: access to bytes and half words of memory, the serial port, the
  conversion of words to digits, minima and maxima, memory and string helpers, arithmetic.

  The serial port is write only here: a function that prints returns the list of the characters
  it sends, in order. The wait for the transmit FIFO (\<^verbatim>\<open>UART0_FR\<close>) is device behaviour and has
  no effect on what is sent.
\<close>

subsection \<open>Bytes and half words of memory\<close>

text \<open>Memory is little endian: byte \<open>k\<close> of a word is bits \<open>8 * k\<close> to \<open>8 * k + 7\<close>.\<close>

definition load8 :: "mem \<Rightarrow> u64 \<Rightarrow> u64" where
  "load8 m p = take_bit 8 (drop_bit (8 * unat (take_bit 3 p)) (m (p AND NOT 7)))"

definition store8 :: "mem \<Rightarrow> u64 \<Rightarrow> u64 \<Rightarrow> mem" where
  "store8 m p v = (let a = p AND NOT 7; k = 8 * unat (take_bit 3 p) in
     m(a := (m a AND NOT (push_bit k 255)) OR push_bit k (take_bit 8 v)))"

definition load32 :: "mem \<Rightarrow> u64 \<Rightarrow> u64" where
  "load32 m p = take_bit 32 (drop_bit (if bit p 2 then 32 else 0) (m (p AND NOT 7)))"

definition store32 :: "mem \<Rightarrow> u64 \<Rightarrow> u64 \<Rightarrow> mem" where
  "store32 m p v = (let a = p AND NOT 7; k = (if bit p 2 then 32 else 0) in
     m(a := (m a AND NOT (push_bit k 0xffffffff)) OR push_bit k (take_bit 32 v)))"

subsection \<open>The serial port\<close>

type_synonym uart = "u64 list"

text \<open>A C string literal, as the list of its bytes before the final NUL.\<close>

definition lit :: "string \<Rightarrow> u64 list" where
  "lit s = map of_char s"

text \<open>The bytes of the NUL-terminated string at an address.\<close>

partial_function (option) cstr_at :: "mem \<Rightarrow> u64 \<Rightarrow> u64 list option" where
  "cstr_at m p = (if load8 m p = 0 then Some []
     else do { s \<leftarrow> cstr_at m (p + 1); Some (load8 m p # s) })"

declare cstr_at.simps [code]

definition uart_send :: "u64 \<Rightarrow> uart" where
  "uart_send c = [take_bit 32 c]"

definition uart_puts :: "u64 list \<Rightarrow> uart" where
  "uart_puts s = concat (map (\<lambda>c. (if c = 10 then uart_send 13 else []) @ uart_send c) s)"

text \<open>
  \<open>uintn_to_str\<close> works on a buffer of \<open>buf_sz\<close> words, here the list \<open>buf\<close>: first the digits from
  the lowest one up (\<open>None\<close> for the count when the buffer is too small), then the reversal in place. The
  reversal goes through a 16-bit temporary.
\<close>

definition digit_char :: "u64 \<Rightarrow> u64" where
  "digit_char d = (let d = d + 48 in
     if 58 \<le> d then (let d = d + 7 in if 91 \<le> d then d + 6 else d) else d)"

function digits_loop :: "u64 list \<Rightarrow> u64 \<Rightarrow> u64 \<Rightarrow> u64 \<Rightarrow> u64 \<Rightarrow> u64 list \<times> u64 option" where
  "digits_loop buf buf_sz num base i =
     (if num = 0 then (buf, Some i)
      else if i < buf_sz - 1
      then digits_loop (buf[unat i := digit_char (num mod base)]) buf_sz (num div base) base (i + 1)
      else (buf, None))"
  by pat_completeness auto
termination
  by (relation "measure (\<lambda>(buf, buf_sz, num, base, i). unat (buf_sz - 1 - i))")
    (simp_all only: in_measure case_prod_conv word_loop_measure wf_measure)

declare digits_loop.simps [simp del]

function reverse_loop :: "u64 list \<Rightarrow> u64 \<Rightarrow> u64 \<Rightarrow> u64 list" where
  "reverse_loop buf j i =
     (if j < i then
        (let tmp = take_bit 16 (buf ! unat j); buf = buf[unat j := buf ! unat i];
             buf = buf[unat i := tmp] in reverse_loop buf (j + 1) (i - 1))
      else buf)"
  by pat_completeness auto
termination
proof (relation "measure (\<lambda>(buf, j, i). unat i)")
  fix buf tmp buf1 buf2 and j i :: u64
  assume "j < i"
  then have "i \<noteq> 0" by auto
  then show "((buf2, j + 1, i - 1), buf :: u64 list, j, i) \<in> measure (\<lambda>(buf, j, i). unat i)"
    by simp
qed simp

declare reverse_loop.simps [simp del]

definition uintn_to_str :: "u64 list \<Rightarrow> u64 \<Rightarrow> u64 \<Rightarrow> u64 \<Rightarrow> u64 \<times> u64 list" where
  "uintn_to_str buf buf_sz num base =
     (if buf_sz < 2 then (-1, buf)
      else if num = 0 then (1, buf[0 := 48, 1 := 0])
      else (case digits_loop buf buf_sz num base 0 of
              (buf, None) \<Rightarrow> (-1, buf)
            | (buf, Some i) \<Rightarrow> (i, reverse_loop (buf[unat i := 0]) 0 (i - 1))))"

definition uart_print_uint :: "u64 \<Rightarrow> u64 \<Rightarrow> uart" where
  "uart_print_uint val base =
     (let (_, buf) = uintn_to_str (replicate 65 0) 65 val base
      in concat (map uart_send (takeWhile (\<lambda>c. c \<noteq> 0) buf)))"

definition uart_padded_uint :: "u64 \<Rightarrow> u64 \<Rightarrow> u64 \<Rightarrow> uart" where
  "uart_padded_uint val base padding =
     (let (len, buf) = uintn_to_str (replicate 65 0) 65 val base
      in concat (replicate (unat padding - unat len) (uart_puts (lit ''0'')))
         @ concat (map uart_send (takeWhile (\<lambda>c. c \<noteq> 0) buf)))"

subsection \<open>Minima and maxima\<close>

definition max_s :: "u64 \<Rightarrow> u64 \<Rightarrow> u64" where
  "max_s x y = (if sint x < sint y then y else x)"

definition umax :: "u64 \<Rightarrow> u64 \<Rightarrow> u64" where
  "umax x y = (if x < y then y else x)"

definition min_s :: "u64 \<Rightarrow> u64 \<Rightarrow> u64" where
  "min_s x y = (if sint x < sint y then x else y)"

definition umin :: "u64 \<Rightarrow> u64 \<Rightarrow> u64" where
  "umin x y = (if x < y then x else y)"

subsection \<open>Memory and strings\<close>

text \<open>\<open>strlen\<close> walks words to the first zero word; the C pointer difference counts words.\<close>

partial_function (option) strlen_end :: "mem \<Rightarrow> u64 \<Rightarrow> u64 option" where
  "strlen_end m str = (if m str = 0 then Some str else strlen_end m (str + 8))"

definition strlen :: "mem \<Rightarrow> u64 \<Rightarrow> u64 option" where
  "strlen m str = do { e \<leftarrow> strlen_end m str; Some (((e - str) div 8) div 8) }"

function strncmp_from :: "mem \<Rightarrow> u64 \<Rightarrow> u64 \<Rightarrow> u64 \<Rightarrow> u64 \<Rightarrow> u64" where
  "strncmp_from m s1 s2 len i =
     (if i < len then
        if load8 m (s1 + i) > load8 m (s2 + i) then -1
        else if load8 m (s1 + i) > load8 m (s2 + i) then 1
        else strncmp_from m s1 s2 len (i + 1)
      else 0)"
  by pat_completeness auto
termination
  by (relation "measure (\<lambda>(m, s1, s2, len, i). unat (len - i))") auto

declare strncmp_from.simps [simp del]

definition strncmp :: "mem \<Rightarrow> u64 \<Rightarrow> u64 \<Rightarrow> u64 \<Rightarrow> u64" where
  "strncmp m s1 s2 len = strncmp_from m s1 s2 len 0"

text \<open>Both loops of \<open>memcpy\<close> store to \<open>dest\<close> and read from \<open>src\<close> without advancing either.\<close>

definition memcpy :: "mem \<Rightarrow> u64 \<Rightarrow> u64 \<Rightarrow> u64 \<Rightarrow> mem" where
  "memcpy m dest src n =
     (let lim = n div 8; rem = n mod 8;
          m = ((\<lambda>m. m(dest := m src)) ^^ unat lim) m
      in ((\<lambda>m. store8 m dest (load8 m src)) ^^ unat rem) m)"

function memset_from :: "mem \<Rightarrow> u64 \<Rightarrow> u64 \<Rightarrow> u64 \<Rightarrow> u64 \<Rightarrow> mem" where
  "memset_from m str c n i =
     (if i < n then memset_from (store8 m (str + i) c) str c n (i + 1) else m)"
  by pat_completeness auto
termination
  by (relation "measure (\<lambda>(m, str, c, n, i). unat (n - i))") auto

declare memset_from.simps [simp del]

definition memset :: "mem \<Rightarrow> u64 \<Rightarrow> u64 \<Rightarrow> u64 \<Rightarrow> mem" where
  "memset m str c n = memset_from m str c n 0"

function memcmp_from :: "mem \<Rightarrow> u64 \<Rightarrow> u64 \<Rightarrow> u64 \<Rightarrow> u64 \<Rightarrow> u64" where
  "memcmp_from m m1 m2 len i =
     (if i < len then
        if m (m1 + 8 * i) > m (m2 + 8 * i) then -1
        else if m (m1 + 8 * i) < m (m2 + 8 * i) then 1
        else memcmp_from m m1 m2 len (i + 1)
      else 0)"
  by pat_completeness auto
termination
  by (relation "measure (\<lambda>(m, m1, m2, len, i). unat (len - i))") auto

declare memcmp_from.simps [simp del]

definition memcmp :: "mem \<Rightarrow> u64 \<Rightarrow> u64 \<Rightarrow> u64 \<Rightarrow> u64" where
  "memcmp m m1 m2 len = memcmp_from m m1 m2 len 0"

definition atomic_cas :: "mem \<Rightarrow> u64 \<Rightarrow> u64 \<Rightarrow> u64 \<Rightarrow> mem \<times> u64" where
  "atomic_cas m ptr cmp new = ((if m ptr = cmp then m(ptr := new) else m), m ptr)"

subsection \<open>Arithmetic\<close>

function nat_pow_loop :: "u64 \<Rightarrow> u64 \<Rightarrow> u64 \<Rightarrow> u64" where
  "nat_pow_loop base e res = (if e \<noteq> 0 then nat_pow_loop base (e - 1) (res * base) else res)"
  by pat_completeness auto
termination
  by (relation "measure (\<lambda>(base, e, res). unat e)") auto

declare nat_pow_loop.simps [simp del]

definition nat_pow :: "u64 \<Rightarrow> u64 \<Rightarrow> u64" where
  "nat_pow base e = nat_pow_loop base e 1"

definition abs_w :: "u64 \<Rightarrow> u64" where
  "abs_w x = (if drop_bit 63 x AND 1 \<noteq> 0 then - x else x)"

definition arithmetic_shift_right :: "u64 \<Rightarrow> u64 \<Rightarrow> u64" where
  "arithmetic_shift_right val n =
     (if val AND push_bit 7 1 = 0 then shr val n else shr val n OR shl (-1) (64 - n))"

end
