(* ===== verification/Avl_Model.thy ===== *)
theory Avl_Model
  imports Util
begin

text \<open>
  The intrusive AVL tree of \<^verbatim>\<open>datastructures.c\<close> (lines 348 to 914), on memory.

  A node is four words: \<open>prev\<close> (the parent's address with the balance factor in its two low bits),
  \<open>left\<close>, \<open>right\<close> and \<open>data\<close>. A tree is the address \<open>tr\<close> of a cell that holds the root's address,
  the C type \<^verbatim>\<open>word **\<close>. The comparison functions take the addresses of two nodes and may read
  memory; they return -1 (go left), 0 or 1 (go right).
\<close>

subsection \<open>Nodes\<close>

definition nd_prev :: "mem \<Rightarrow> u64 \<Rightarrow> u64" where "nd_prev m p = m p"
definition nd_left :: "mem \<Rightarrow> u64 \<Rightarrow> u64" where "nd_left m p = m (p + 8)"
definition nd_right :: "mem \<Rightarrow> u64 \<Rightarrow> u64" where "nd_right m p = m (p + 16)"
definition nd_data :: "mem \<Rightarrow> u64 \<Rightarrow> u64" where "nd_data m p = m (p + 24)"

definition set_nd_prev :: "mem \<Rightarrow> u64 \<Rightarrow> u64 \<Rightarrow> mem" where "set_nd_prev m p v = m(p := v)"
definition set_nd_left :: "mem \<Rightarrow> u64 \<Rightarrow> u64 \<Rightarrow> mem" where "set_nd_left m p v = m(p + 8 := v)"
definition set_nd_right :: "mem \<Rightarrow> u64 \<Rightarrow> u64 \<Rightarrow> mem" where "set_nd_right m p v = m(p + 16 := v)"
definition set_nd_data :: "mem \<Rightarrow> u64 \<Rightarrow> u64 \<Rightarrow> mem" where "set_nd_data m p v = m(p + 24 := v)"

type_synonym cmp = "mem \<Rightarrow> u64 \<Rightarrow> u64 \<Rightarrow> u64"

text \<open>The mask \<^verbatim>\<open>(word)-1 << 2\<close> that clears the balance factor.\<close>

definition ptr_mask :: u64 where "ptr_mask = push_bit 2 (- 1)"

definition get_parent :: "mem \<Rightarrow> u64 \<Rightarrow> u64" where
  "get_parent m nd = (if nd = 0 then 0 else nd_prev m nd AND ptr_mask)"

definition get_balance_factor :: "mem \<Rightarrow> u64 \<Rightarrow> u64" where
  "get_balance_factor m nd = (if nd = 0 then 3 else nd_prev m nd AND 3)"

definition balance_factor :: "mem \<Rightarrow> u64 \<Rightarrow> u64" where
  "balance_factor m nd =
     (if nd = 0 then 0
      else let bf = get_balance_factor m nd in if bf = 1 then bf else bf - 3)"

definition rev_balance_factor :: "u64 \<Rightarrow> u64" where
  "rev_balance_factor bf = (if bf \<noteq> 0 then (if bf + 1 \<noteq> 0 then 1 else 2) else 3)"

definition set_balance_factor :: "mem \<Rightarrow> u64 \<Rightarrow> u64 \<Rightarrow> mem \<times> u64" where
  "set_balance_factor m nd bf =
     (if nd = 0 then (m, 1)
      else let m = set_nd_prev m nd (nd_prev m nd AND ptr_mask);
               m = set_nd_prev m nd (nd_prev m nd OR rev_balance_factor bf)
           in (m, 0))"

subsection \<open>Moving a node\<close>

definition avl_move :: "mem \<Rightarrow> u64 \<Rightarrow> u64 \<Rightarrow> u64 \<Rightarrow> mem" where
  "avl_move m tr dest src =
     (if dest = src then m
      else let parent = get_parent m src;
               m = (if parent \<noteq> 0 then
                      (if nd_left m parent = src then set_nd_left m parent dest
                       else set_nd_right m parent dest)
                    else m);
               left = nd_left m src;
               m = (if left \<noteq> 0 then set_nd_prev m left (dest OR get_balance_factor m left) else m);
               right = nd_right m src;
               m = (if right \<noteq> 0 then set_nd_prev m right (dest OR get_balance_factor m right)
                    else m);
               m = set_nd_prev m dest (nd_prev m src);
               m = set_nd_left m dest left;
               m = set_nd_right m dest right;
               m = set_nd_data m dest (nd_data m src);
               m = (if m tr = src then m(tr := dest) else m)
           in m)"

subsection \<open>Rotations\<close>

definition avl_rotate_left :: "mem \<Rightarrow> u64 \<Rightarrow> u64 \<Rightarrow> mem \<times> u64" where
  "avl_rotate_left m tr node =
     (if node = 0 then (m, 0)
      else let root = nd_right m node in
      if root = 0 then (m, 0)
      else let rl_child = nd_left m root;
               m = (if rl_child \<noteq> 0
                    then set_nd_prev m rl_child (node OR get_balance_factor m rl_child) else m);
               parent = get_parent m node;
               m = (if parent \<noteq> 0 then
                      (if nd_left m parent = node then set_nd_left m parent root
                       else set_nd_right m parent root)
                    else m(tr := root));
               old_rootbf = balance_factor m root;
               m = set_nd_right m node (nd_left m root);
               m = set_nd_left m root node;
               m = (if old_rootbf \<noteq> 0 then
                      (let m = set_nd_prev m node (root OR rev_balance_factor 0)
                       in set_nd_prev m root (parent OR rev_balance_factor 0))
                    else
                      (let m = set_nd_prev m node (root OR rev_balance_factor 1)
                       in set_nd_prev m root (parent OR rev_balance_factor (-1))))
           in (m, root))"

definition avl_rotate_right :: "mem \<Rightarrow> u64 \<Rightarrow> u64 \<Rightarrow> mem \<times> u64" where
  "avl_rotate_right m tr node =
     (if node = 0 then (m, 0)
      else let root = nd_left m node in
      if root = 0 then (m, 0)
      else let lr_child = nd_right m root;
               m = (if lr_child \<noteq> 0
                    then set_nd_prev m lr_child (node OR get_balance_factor m lr_child) else m);
               parent = get_parent m node;
               m = (if parent \<noteq> 0 then
                      (if nd_left m parent = node then set_nd_left m parent root
                       else set_nd_right m parent root)
                    else m(tr := root));
               old_rootbf = balance_factor m root;
               m = set_nd_left m node (nd_right m root);
               m = set_nd_right m root node;
               m = (if old_rootbf \<noteq> 0 then
                      (let m = set_nd_prev m node (root OR rev_balance_factor 0)
                       in set_nd_prev m root (parent OR rev_balance_factor 0))
                    else
                      (let m = set_nd_prev m node (root OR rev_balance_factor (-1))
                       in set_nd_prev m root (parent OR rev_balance_factor 1)))
           in (m, root))"

definition avl_rotate_lr :: "mem \<Rightarrow> u64 \<Rightarrow> u64 \<Rightarrow> mem \<times> u64" where
  "avl_rotate_lr m tr node =
     (let child = nd_left m node;
          lr_child = nd_right m child;
          bf = balance_factor m lr_child;
          (m, _) = avl_rotate_left m tr child;
          (m, ret) = avl_rotate_right m tr node;
          m = (if bf = 1 then
                 (let m = fst (set_balance_factor m child (-1)) in fst (set_balance_factor m node 0))
               else if bf = -1 then
                 (let m = fst (set_balance_factor m node 1) in fst (set_balance_factor m child 0))
               else
                 (let m = fst (set_balance_factor m child 0) in fst (set_balance_factor m node 0)));
          pp = get_parent m node;
          m = fst (set_balance_factor m pp 0)
      in (m, ret))"

definition avl_rotate_rl :: "mem \<Rightarrow> u64 \<Rightarrow> u64 \<Rightarrow> mem \<times> u64" where
  "avl_rotate_rl m tr node =
     (let child = nd_right m node;
          rl_child = nd_left m child;
          bf = balance_factor m rl_child;
          (m, _) = avl_rotate_right m tr child;
          (m, ret) = avl_rotate_left m tr node;
          m = (if bf = 1 then
                 (let m = fst (set_balance_factor m node (-1)) in fst (set_balance_factor m child 0))
               else if bf = -1 then
                 (let m = fst (set_balance_factor m child 1) in fst (set_balance_factor m node 0))
               else
                 (let m = fst (set_balance_factor m child 0) in fst (set_balance_factor m node 0)));
          pp = get_parent m node;
          m = fst (set_balance_factor m pp 0)
      in (m, ret))"

subsection \<open>Searching\<close>

text \<open>
  \<^verbatim>\<open>avl_find\<close> compares with a node it builds on the C stack. The boot code sets the stack pointer
  to \<^verbatim>\<open>_start\<close> (0x80000) and the stack grows down, below the kernel image and the heap; the node
  stands at this address there. The stack frame is gone when the function returns.
\<close>

definition find_node :: u64 where "find_node = 0x7ff00"

partial_function (option) avl_find_loop :: "cmp \<Rightarrow> mem \<Rightarrow> u64 \<Rightarrow> u64 \<Rightarrow> u64 option" where
  "avl_find_loop cmp m tree node =
     (let b = cmp m tree node in
      if b = 0 then Some tree
      else let tree = (if b = -1 then nd_left m tree else if b = 1 then nd_right m tree else tree)
           in if tree = 0 then Some 0 else avl_find_loop cmp m tree node)"

definition avl_find :: "mem \<Rightarrow> u64 \<Rightarrow> u64 \<Rightarrow> cmp \<Rightarrow> u64 option" where
  "avl_find m tr data cmp =
     (let tree = m tr in
      if tree = 0 then Some 0
      else let m = set_nd_data (set_nd_right (set_nd_left (set_nd_prev m find_node 0)
                     find_node 0) find_node 0) find_node data
           in avl_find_loop cmp m tree find_node)"

partial_function (option) avl_min_ge :: "mem \<Rightarrow> u64 \<Rightarrow> u64 \<Rightarrow> u64 option" where
  "avl_min_ge m tree data =
     (if tree = 0 then Some 0
      else do {
        o1 \<leftarrow> avl_min_ge m (nd_left m tree) data;
        if o1 \<noteq> 0 then Some o1
        else do {
          o2 \<leftarrow> avl_min_ge m (nd_right m tree) data;
          if o2 \<noteq> 0 then Some o2
          else if data \<le> nd_data m tree then Some tree
          else Some 0 } })"

partial_function (option) avl_tree_height :: "mem \<Rightarrow> u64 \<Rightarrow> u64 option" where
  "avl_tree_height m nd =
     (if nd = 0 then Some (-1)
      else do {
        lh \<leftarrow> avl_tree_height m (nd_left m nd);
        rh \<leftarrow> avl_tree_height m (nd_right m nd);
        Some (1 + max_s lh rh) })"

partial_function (option) check_balance_factors :: "mem \<Rightarrow> u64 \<Rightarrow> u64 option" where
  "check_balance_factors m tree =
     (if tree = 0 then Some 0
      else if nd_left m tree = 0 \<and> nd_right m tree = 0 then Some 0
      else do {
        lh \<leftarrow> avl_tree_height m (nd_left m tree);
        rh \<leftarrow> avl_tree_height m (nd_right m tree);
        let bf = balance_factor m tree;
        lerr \<leftarrow> check_balance_factors m (nd_left m tree);
        if lerr \<noteq> 0 then Some lerr
        else do {
          rerr \<leftarrow> check_balance_factors m (nd_right m tree);
          if rerr \<noteq> 0 then Some rerr
          else if bf = -1 then Some (if lh \<noteq> rh + 1 then tree else 0)
          else if bf = 0 then Some (if lh \<noteq> rh then tree else 0)
          else if bf = 1 then Some (if lh + 1 \<noteq> rh then tree else 0)
          else Some 0 } })"

subsection \<open>Inserting a node\<close>

text \<open>
  The descent of \<^verbatim>\<open>_avl_insert\<close>: the node under which to insert and the side, or side 0 when the
  tree already holds an equal element. A comparison result other than -1, 0 and 1 matches no case
  of the switch, and the loop goes round for ever.
\<close>

partial_function (option) avl_descend ::
    "cmp \<Rightarrow> mem \<Rightarrow> u64 \<Rightarrow> u64 \<Rightarrow> u64 \<Rightarrow> u64 \<Rightarrow> (u64 \<times> u64) option" where
  "avl_descend cmp m tree node ins_p b =
     (if tree = 0 then Some (ins_p, b)
      else let b = cmp m tree node in
           if b = -1 then avl_descend cmp m (nd_left m tree) node tree b
           else if b = 0 then Some (tree, 0)
           else if b = 1 then avl_descend cmp m (nd_right m tree) node tree b
           else avl_descend cmp m tree node ins_p b)"

text \<open>The retracing loop of \<^verbatim>\<open>_avl_insert\<close>, from the parent of \<open>child\<close> upwards.\<close>

partial_function (option) avl_insert_fix :: "mem \<Rightarrow> u64 \<Rightarrow> u64 \<Rightarrow> u64 \<Rightarrow> mem option" where
  "avl_insert_fix m tr child node =
     (if node = 0 then Some m
      else let bf = (if child = nd_left m node then -1 + balance_factor m node
                     else 1 + balance_factor m node) in
      if bf = -2 then
        (if balance_factor m (nd_left m node) = -1 then Some (fst (avl_rotate_right m tr node))
         else Some (fst (avl_rotate_lr m tr node)))
      else if bf = 2 then
        (if balance_factor m (nd_right m node) = 1 then Some (fst (avl_rotate_left m tr node))
         else Some (fst (avl_rotate_rl m tr node)))
      else if bf = 0 then Some (fst (set_balance_factor m node bf))
      else let m = fst (set_balance_factor m node bf)
           in avl_insert_fix m tr node (get_parent m node))"

text \<open>\<^verbatim>\<open>_avl_insert\<close>: 0 when the node was inserted, 1 when not.\<close>

definition avl_insert_node :: "mem \<Rightarrow> u64 \<Rightarrow> u64 \<Rightarrow> u64 \<Rightarrow> cmp \<Rightarrow> (mem \<times> u64) option" where
  "avl_insert_node m tr node data cmp =
     (let tree = m tr in
      if node = 0 then Some (m, 1)
      else let m = set_nd_prev m node 3;
               m = set_nd_left m node 0;
               m = set_nd_right m node 0;
               m = set_nd_data m node data in
      if tree = 0 then Some (m(tr := node), 0)
      else do {
        (ins_p, b) \<leftarrow> avl_descend cmp m tree node 0 0;
        if b = 0 then Some (m, 1)
        else do {
          let m = set_nd_prev m node (ins_p OR 3);
          let m = (if b = -1 then set_nd_left m ins_p node
                   else if b = 1 then set_nd_right m ins_p node else m);
          let node_par = get_parent m node;
          if nd_left m node_par \<noteq> 0 \<and> nd_right m node_par \<noteq> 0
          then Some (set_nd_prev m node_par (nd_prev m node_par OR 3), 0)
          else do {
            m \<leftarrow> avl_insert_fix m tr node (get_parent m node);
            Some (m, 0) } } })"

subsection \<open>Deleting a node\<close>

partial_function (option) avl_leftmost :: "mem \<Rightarrow> u64 \<Rightarrow> u64 option" where
  "avl_leftmost m nd = (if nd_left m nd \<noteq> 0 then avl_leftmost m (nd_left m nd) else Some nd)"

text \<open>
  The retracing loop of \<^verbatim>\<open>_avl_delete\<close>. The subtree of \<open>parent\<close> on the side \<open>direction\<close> has become
  one lower. The loop stops where a balance factor becomes -1 or 1, and after a rotation whose
  child was balanced (\<open>child_bf = 0\<close>): there the height of the subtree has not changed.
\<close>

partial_function (option) avl_delete_fix :: "mem \<Rightarrow> u64 \<Rightarrow> u64 \<Rightarrow> u64 \<Rightarrow> mem option" where
  "avl_delete_fix m tr parent direction =
     (if parent = 0 then Some m
      else let pp = get_parent m parent;
               bf = balance_factor m parent - direction;
               direction = (if pp \<noteq> 0 then (if nd_left m pp = parent then -1 else 1)
                            else direction) in
      if bf = -2 then
        (let child_bf = balance_factor m (nd_left m parent);
             m = (if child_bf = 1 then fst (avl_rotate_lr m tr parent)
                  else fst (avl_rotate_right m tr parent))
         in if child_bf = 0 then Some m else avl_delete_fix m tr pp direction)
      else if bf = -1 then Some (fst (set_balance_factor m parent bf))
      else if bf = 0 then avl_delete_fix (fst (set_balance_factor m parent bf)) tr pp direction
      else if bf = 1 then Some (fst (set_balance_factor m parent bf))
      else if bf = 2 then
        (let child_bf = balance_factor m (nd_right m parent);
             m = (if child_bf = -1 then fst (avl_rotate_rl m tr parent)
                  else fst (avl_rotate_left m tr parent))
         in if child_bf = 0 then Some m else avl_delete_fix m tr pp direction)
      else avl_delete_fix m tr pp direction)"

text \<open>
  \<^verbatim>\<open>_avl_delete\<close> copies the successor's data into the node and unlinks the successor's block,
  whose address it returns; a leaf is unlinked itself. The code never calls its parameter
  \<^verbatim>\<open>cmp\<close>, which is left out.
\<close>

definition avl_delete_node :: "mem \<Rightarrow> u64 \<Rightarrow> u64 \<Rightarrow> (mem \<times> u64) option" where
  "avl_delete_node m tr tree =
     (if m tr = 0 \<or> tree = 0 then Some (m, 0)
      else do {
        successor \<leftarrow> (if nd_right m tree \<noteq> 0 then avl_leftmost m (nd_right m tree)
                      else Some (nd_left m tree));
        if successor \<noteq> 0 then do {
          let parent = get_parent m successor;
          let m = set_nd_data m tree (nd_data m successor);
          let child = nd_right m successor;
          let cbf = get_balance_factor m child;
          let m = (if child \<noteq> 0 then set_nd_prev m child (parent OR cbf) else m);
          let (m, direction) =
            (if nd_left m parent = successor then (set_nd_left m parent child, -1)
             else (set_nd_right m parent child, 1));
          m \<leftarrow> avl_delete_fix m tr parent direction;
          Some (m, successor)
        }
        else do {
          let parent = get_parent m tree;
          if parent = 0 then Some (m(tr := 0), tree)
          else do {
            let (m, direction) =
              (if nd_left m parent = tree then (set_nd_left m parent 0, -1)
               else if nd_right m parent = tree then (set_nd_right m parent 0, 1)
               else (m, 0));
            m \<leftarrow> avl_delete_fix m tr parent direction;
            Some (m, tree) } } })"

subsection \<open>Comparison functions\<close>

definition avl_basic_cmp :: cmp where
  "avl_basic_cmp m n1 n2 =
     (if nd_data m n1 < nd_data m n2 then 1
      else if nd_data m n1 = nd_data m n2 then 0 else -1)"

definition avl_mem_cmp :: cmp where
  "avl_mem_cmp m n1 n2 = (if n1 < n2 then 1 else if n1 = n2 then 0 else -1)"

subsection \<open>Printing\<close>

partial_function (option) print_avl_node :: "mem \<Rightarrow> u64 \<Rightarrow> u64 \<Rightarrow> uart option" where
  "print_avl_node m tree space =
     (if tree = 0 then Some []
      else do {
        r \<leftarrow> print_avl_node m (nd_right m tree) (space + 2);
        l \<leftarrow> print_avl_node m (nd_left m tree) space;
        Some (concat (replicate (unat space) (uart_puts (lit '' '')))
              @ uart_print_uint (m tree AND 3) 16 @ uart_puts (lit '' '')
              @ uart_print_uint (m (tree + 24)) 16 @ uart_puts [10] @ r @ l) })"

definition print_avl :: "mem \<Rightarrow> u64 \<Rightarrow> uart option" where
  "print_avl m tree = do {
     s \<leftarrow> print_avl_node m tree 0;
     Some ((if tree = 0 then uart_print_uint 0 16 @ uart_puts [10] else []) @ s) }"

end
