(* ===== verification/Heap_Model.thy ===== *)
theory Heap_Model
  imports Avl_Model
begin

text \<open>
  The memory allocator: the heap of \<^verbatim>\<open>alloc.c\<close> (without the garbage collector) and the functions
  of \<^verbatim>\<open>datastructures.c\<close> that allocate and free AVL nodes.

  The heap starts with eight words (\<^verbatim>\<open>hds\<close>). The rest is cut into blocks. A block in use starts
  with one word that holds its size in words; a free block is a node of the AVL tree whose root
  cell is the field \<^verbatim>\<open>fmds_ptr\<close>, ordered by address, with its size as data.
\<close>

subsection \<open>The heap structure\<close>

definition umds_sz :: u64 where "umds_sz = 1"
definition hds_sz :: u64 where "hds_sz = 8"
definition min_alloc_sz :: u64 where "min_alloc_sz = 4"

text \<open>The fields of \<^verbatim>\<open>hds\<close>, as addresses.\<close>

definition heap_end :: "u64 \<Rightarrow> u64" where "heap_end h = h"
definition heap_prev :: "u64 \<Rightarrow> u64" where "heap_prev h = h + 8"
definition heap_next :: "u64 \<Rightarrow> u64" where "heap_next h = h + 16"
definition fmds_ptr :: "u64 \<Rightarrow> u64" where "fmds_ptr h = h + 24"
definition gc_set :: "u64 \<Rightarrow> u64" where "gc_set h = h + 32"
definition true_num_alloced :: "u64 \<Rightarrow> u64" where "true_num_alloced h = h + 40"
definition gc_num_alloced :: "u64 \<Rightarrow> u64" where "gc_num_alloced h = h + 48"
definition words_used :: "u64 \<Rightarrow> u64" where "words_used h = h + 56"

definition get_mem_sz :: "mem \<Rightarrow> u64 \<Rightarrow> u64" where
  "get_mem_sz m addr = m (addr - 8 * umds_sz) - umds_sz"

subsection \<open>Allocation\<close>

definition alloc :: "mem \<Rightarrow> u64 \<Rightarrow> u64 \<Rightarrow> (mem \<times> u64) option" where
  "alloc m heap mem_sz =
     (let mem_sz = mem_sz + umds_sz;
          mem_sz = (if mem_sz < min_alloc_sz then min_alloc_sz else mem_sz);
          tr = fmds_ptr heap;
          mem_ptr = m tr
      in do {
        min_ge \<leftarrow> avl_min_ge m mem_ptr mem_sz;
        if min_ge = 0 then Some (m, 0)
        else do {
          let old_sz = nd_data m min_ge;
          (m, deleted) \<leftarrow> avl_delete_node m tr min_ge;
          let m = (if deleted \<noteq> min_ge then avl_move m tr deleted min_ge else m);
          (m, mem_sz) \<leftarrow>
            (if mem_sz + min_alloc_sz \<le> old_sz then do {
               let new_sz = old_sz - mem_sz;
               let new_ptr = min_ge + 8 * mem_sz;
               (m, _) \<leftarrow> avl_insert_node m tr new_ptr new_sz avl_mem_cmp;
               Some (m, mem_sz) }
             else Some (m, old_sz));
          let m = m(min_ge := mem_sz);
          let m = m(true_num_alloced heap := m (true_num_alloced heap) + 1);
          let m = m(words_used heap := m (words_used heap) + mem_sz);
          Some (m, min_ge + 8) } })"

subsection \<open>Freeing\<close>

text \<open>The loop of \<^verbatim>\<open>avl_merge\<close>: the free blocks that end at \<open>addr\<close> and start at \<open>amax\<close>.\<close>

partial_function (option) avl_merge_search ::
    "mem \<Rightarrow> u64 \<Rightarrow> u64 \<Rightarrow> u64 \<Rightarrow> u64 \<Rightarrow> u64 \<Rightarrow> (u64 \<times> u64) option" where
  "avl_merge_search m addr amax tree left right =
     (if tree \<noteq> 0 \<and> (left = 0 \<or> right = 0) then
        let (tree, left, right) =
              (if tree = amax then (nd_left m tree, left, tree)
               else if tree + 8 * nd_data m tree = addr then (nd_right m tree, tree, right)
               else (tree, left, right));
            tree =
              (if tree \<noteq> 0 then
                 (if amax < tree then nd_left m tree
                  else if tree + 8 * nd_data m tree < addr then nd_right m tree
                  else tree)
               else tree)
        in avl_merge_search m addr amax tree left right
      else Some (left, right))"

definition avl_merge :: "mem \<Rightarrow> u64 \<Rightarrow> u64 \<Rightarrow> u64 \<Rightarrow> mem option" where
  "avl_merge m tr addr sz = do {
     let amax = addr + 8 * sz;
     (left, right) \<leftarrow> avl_merge_search m addr amax (m tr) 0 0;
     (m, sz) \<leftarrow>
       (if right \<noteq> 0 then do {
          let sz = sz + nd_data m right;
          (m, dest) \<leftarrow> avl_delete_node m tr right;
          Some (avl_move m tr dest right, sz) }
        else Some (m, sz));
     (m, addr, sz) \<leftarrow>
       (if left \<noteq> 0 then do {
          let addr = addr - 8 * nd_data m left;
          let sz = sz + nd_data m left;
          (m, dest) \<leftarrow> avl_delete_node m tr left;
          Some (avl_move m tr dest left, addr, sz) }
        else Some (m, addr, sz));
     (m, _) \<leftarrow> avl_insert_node m tr addr sz avl_mem_cmp;
     Some m }"

text \<open>
  The upper limit of the guard adds the byte address \<^verbatim>\<open>heap_end\<close> to a pointer to words, so it is
  \<open>heap + 8 * heap_end\<close>.
\<close>

definition free :: "mem \<Rightarrow> u64 \<Rightarrow> u64 \<Rightarrow> mem option" where
  "free m heap addr =
     (if addr < heap + 8 * hds_sz \<or> heap + 8 * m (heap_end heap) \<le> addr then Some m
      else do {
        let tr = fmds_ptr heap;
        let freed_mem = addr - 8 * umds_sz;
        let fm_sz = m freed_mem;
        m \<leftarrow> avl_merge m tr freed_mem fm_sz;
        let m = m(true_num_alloced heap := m (true_num_alloced heap) - 1);
        let m = m(words_used heap := m (words_used heap) - fm_sz);
        Some m })"

subsection \<open>Reallocation\<close>

text \<open>The copying loop reads the size of the old block in every iteration.\<close>

function realloc_copy :: "mem \<Rightarrow> u64 \<Rightarrow> u64 \<Rightarrow> u64 \<Rightarrow> u64 \<Rightarrow> mem" where
  "realloc_copy m new_addr addr mem_sz i =
     (if i < umin (m (addr - 8 * umds_sz) - 1) mem_sz
      then realloc_copy (m(new_addr + 8 * i := m (addr + 8 * i))) new_addr addr mem_sz (i + 1)
      else m)"
  by pat_completeness auto
termination
  by (relation "measure (\<lambda>(m, new_addr, addr, mem_sz, i). unat (mem_sz - i))")
    (auto simp: umin_def split: if_splits)

declare realloc_copy.simps [simp del]

definition realloc :: "mem \<Rightarrow> u64 \<Rightarrow> u64 \<Rightarrow> u64 \<Rightarrow> (mem \<times> u64) option" where
  "realloc m heap addr mem_sz = do {
     (m, new_addr) \<leftarrow> alloc m heap mem_sz;
     if new_addr = 0 then Some (m, 0)
     else do {
       let m = realloc_copy m new_addr addr mem_sz 0;
       m \<leftarrow> free m heap addr;
       Some (m, new_addr) } }"

subsection \<open>AVL trees with allocated nodes\<close>

text \<open>\<^verbatim>\<open>avl_insert\<close>: 0 when the data was inserted, 1 when not.\<close>

definition avl_insert :: "mem \<Rightarrow> u64 \<Rightarrow> u64 \<Rightarrow> u64 \<Rightarrow> cmp \<Rightarrow> (mem \<times> u64) option" where
  "avl_insert m heap tr data cmp = do {
     (m, node) \<leftarrow> alloc m heap 4;
     if node = 0 then Some (m, 1)
     else do {
       (m, ret) \<leftarrow> avl_insert_node m tr node data cmp;
       m \<leftarrow> (if ret \<noteq> 0 then free m heap node else Some m);
       Some (m, ret) } }"

definition avl_delete :: "mem \<Rightarrow> u64 \<Rightarrow> u64 \<Rightarrow> u64 \<Rightarrow> cmp \<Rightarrow> (mem \<times> u64) option" where
  "avl_delete m heap tr data cmp = do {
     node \<leftarrow> avl_find m tr data cmp;
     if node = 0 then Some (m, 1)
     else do {
       (m, x) \<leftarrow> avl_delete_node m tr node;
       if x \<noteq> 0 then do {
         m \<leftarrow> free m heap x;
         Some (m, 0) }
       else Some (m, 1) } }"

end
