(* ===== verification/Objects.thy ===== *)
theory Objects
  imports Heap_Model
begin

text \<open>
  The objects of the interpreter (\<^verbatim>\<open>datastructures.c\<close>, lines 1 to 258 and 1196 to 1360): allocation,
  growth, comparison, pairs, sets and arrays of objects, and the deletion by reference count.

  An object is a heap block: its first word, which the allocator writes, is its size in words;
  then come the reference count, the type (the address of a string object), the number of words
  in use and these words. The type objects are globals of the C program; here they are the
  fields of a record, the argument \<open>T\<close> of the functions that read them.

  The buffers of the C stack stand at fixed addresses below \<^verbatim>\<open>_start\<close>, one per function.
\<close>

record types =
  num_type :: u64
  string_type :: u64
  array_type :: u64
  subarray_type :: u64
  set_type :: u64
  function_type :: u64
  cell_type :: u64
  bcode_type :: u64

definition obj_sz :: u64 where "obj_sz = 4"

text \<open>The fields of an object, as addresses.\<close>

definition max_sz :: "u64 \<Rightarrow> u64" where "max_sz o1 = o1"
definition refcount :: "u64 \<Rightarrow> u64" where "refcount o1 = o1 + 8"
definition otype :: "u64 \<Rightarrow> u64" where "otype o1 = o1 + 16"
definition osize :: "u64 \<Rightarrow> u64" where "osize o1 = o1 + 24"
definition contents :: "u64 \<Rightarrow> u64 \<Rightarrow> u64" where "contents o1 i = o1 + 32 + 8 * i"

lemmas object_fields = max_sz_def refcount_def otype_def osize_def contents_def

subsection \<open>Allocation and growth\<close>

definition object :: "mem \<Rightarrow> u64 \<Rightarrow> u64 \<Rightarrow> u64 \<Rightarrow> u64 \<Rightarrow> u64 \<Rightarrow> (mem \<times> u64) option" where
  "object m heap type sz cont n_words =
     (if sz < n_words then Some (m, 0)
      else do {
        (m, p) \<leftarrow> alloc m heap (sz + obj_sz - 1);
        if p = 0 then Some (m, 0)
        else do {
          let obj = p - 8;
          let m = m(refcount obj := 0);
          let m = m(otype obj := type);
          let m = (if type \<noteq> 0 then m(refcount type := m (refcount type) + 1) else m);
          let m = m(osize obj := n_words);
          let m = (if cont \<noteq> 0 then copy_words m (contents obj 0) cont 0 n_words else m);
          Some (m, obj) } })"

definition object_append_word :: "mem \<Rightarrow> u64 \<Rightarrow> u64 \<Rightarrow> u64 \<Rightarrow> (mem \<times> u64) option" where
  "object_append_word m heap obj data =
     (if obj = 0 then Some (m, 0)
      else do {
        let max = m (max_sz obj) - obj_sz;
        let store = (\<lambda>m p.
          let m = m(contents p (m (osize p)) := data) in (m(osize p := m (osize p) + 1), p));
        if max \<le> m (osize obj) then do {
          (m, p) \<leftarrow> realloc m heap (obj + 8) (obj_sz + m (osize obj) + m (osize obj) div 2 + 1);
          if p = 0 then Some (m, 0) else Some (store m (p - 8)) }
        else Some (store m obj) })"

definition object_append :: "mem \<Rightarrow> u64 \<Rightarrow> u64 \<Rightarrow> u64 \<Rightarrow> (mem \<times> u64) option" where
  "object_append m heap obj data =
     (if obj = 0 \<or> data = 0 then Some (m, 0)
      else object_append_word (m(refcount data := m (refcount data) + 1)) heap obj data)"

text \<open>
  The result of \<^verbatim>\<open>realloc\<close> minus one word is never the null pointer, not even when \<^verbatim>\<open>realloc\<close> fails.
\<close>

definition object_expand :: "mem \<Rightarrow> u64 \<Rightarrow> u64 \<Rightarrow> u64 \<Rightarrow> (mem \<times> u64) option" where
  "object_expand m heap obj new_sz = do {
     let old_sz = m (osize obj);
     (m, p) \<leftarrow> realloc m heap (obj + 8) (obj_sz + new_sz);
     let new = p - 8;
     let m = (if new \<noteq> 0 \<and> new_sz < old_sz then m(osize new := new_sz) else m);
     Some (m, new) }"

subsection \<open>Comparison\<close>

text \<open>\<^verbatim>\<open>obj_cmp\<close> orders objects by size, then by the words of their contents.\<close>

function obj_cmp_from :: "mem \<Rightarrow> u64 \<Rightarrow> u64 \<Rightarrow> u64 \<Rightarrow> u64" where
  "obj_cmp_from m p1 p2 i =
     (if i < m (osize p1) then
        if m (contents p1 i) < m (contents p2 i) then 1
        else if m (contents p2 i) < m (contents p1 i) then -1
        else obj_cmp_from m p1 p2 (i + 1)
      else 0)"
  by pat_completeness auto
termination
  by (relation "measure (\<lambda>(m, p1, p2, i). unat (m (osize p1) - i))") auto

declare obj_cmp_from.simps [simp del]

definition obj_cmp :: "mem \<Rightarrow> u64 \<Rightarrow> u64 \<Rightarrow> u64" where
  "obj_cmp m p1 p2 =
     (if m (osize p1) < m (osize p2) then 1
      else if m (osize p2) < m (osize p1) then -1
      else obj_cmp_from m p1 p2 0)"

definition set_cmp :: cmp where
  "set_cmp m node1 node2 = obj_cmp m (nd_data m node1) (nd_data m node2)"

definition set_keycmp :: cmp where
  "set_keycmp m pair1 pair2 =
     (let p1 = nd_data m pair1; p2 = nd_data m pair2
      in obj_cmp m (m (contents p1 0)) (m (contents p2 0)))"

definition set_keyfind_cmp :: cmp where
  "set_keyfind_cmp m kvp key =
     (let pair = nd_data m kvp in obj_cmp m (m (contents pair 0)) (nd_data m key))"

subsection \<open>Pairs and sets\<close>

definition pair :: "types \<Rightarrow> mem \<Rightarrow> u64 \<Rightarrow> u64 \<Rightarrow> u64 \<Rightarrow> (mem \<times> u64) option" where
  "pair T m heap obj1 obj2 = do {
     (m, obj) \<leftarrow> object m heap (cell_type T) 2 0 0;
     if obj = 0 then Some (m, 0)
     else do {
       let m = m(osize obj := 2);
       let m = m(contents obj 0 := obj1);
       let m = m(contents obj 1 := obj2);
       let m = m(refcount obj1 := m (refcount obj1) + 1);
       let m = m(refcount obj2 := m (refcount obj2) + 1);
       Some (m, obj) } }"

definition set_buf :: u64 where "set_buf = 0x7fe00"

text \<open>A set is an object whose only word is the root cell of an AVL tree.\<close>

definition set_new :: "types \<Rightarrow> mem \<Rightarrow> u64 \<Rightarrow> (mem \<times> u64) option" where
  "set_new T m heap = object (m(set_buf := 0)) heap (set_type T) 1 set_buf 1"

definition set_add :: "mem \<Rightarrow> u64 \<Rightarrow> u64 \<Rightarrow> u64 \<Rightarrow> cmp \<Rightarrow> (mem \<times> u64) option" where
  "set_add m heap s data cmp =
     (let m = (if data \<noteq> 0 then m(refcount data := m (refcount data) + 1) else m)
      in avl_insert m heap (contents s 0) data cmp)"

definition set_remove :: "mem \<Rightarrow> u64 \<Rightarrow> u64 \<Rightarrow> u64 \<Rightarrow> cmp \<Rightarrow> (mem \<times> u64) option" where
  "set_remove m heap s data cmp = do {
     let tr = contents s 0;
     node \<leftarrow> avl_find m tr data cmp;
     if node = 0 then Some (m, 0)
     else do {
       let res = nd_data m node;
       (m, x) \<leftarrow> avl_delete_node m tr node;
       if x \<noteq> 0 then do { m \<leftarrow> free m heap x; Some (m, res) }
       else Some (m, 0) } }"

definition set_add_str_key :: "types \<Rightarrow> mem \<Rightarrow> u64 \<Rightarrow> u64 \<Rightarrow> u64 \<Rightarrow> u64 \<Rightarrow> (mem \<times> u64) option" where
  "set_add_str_key T m heap s key val = do {
     (m, data) \<leftarrow> pair T m heap key val;
     set_add m heap s data set_keycmp }"

definition set_set_key :: "mem \<Rightarrow> u64 \<Rightarrow> u64 \<Rightarrow> u64 \<Rightarrow> (mem \<times> u64) option" where
  "set_set_key m s key val = do {
     node \<leftarrow> avl_find m (contents s 0) key set_keyfind_cmp;
     if node = 0 then Some (m, 0)
     else do {
       let pear = nd_data m node;
       let old_val = m (contents pear 1);
       Some (m(contents pear 1 := val), old_val) } }"

definition set_remove_str_key :: "mem \<Rightarrow> u64 \<Rightarrow> u64 \<Rightarrow> u64 \<Rightarrow> (mem \<times> u64) option" where
  "set_remove_str_key m heap s key = do {
     let tr = contents s 0;
     node \<leftarrow> avl_find m tr key set_keyfind_cmp;
     if node = 0 then Some (m, 0)
     else do {
       let res = nd_data m node;
       (m, x) \<leftarrow> avl_delete_node m tr node;
       if x \<noteq> 0 then do { m \<leftarrow> free m heap x; Some (m, res) }
       else Some (m, 0) } }"

definition in_set :: "mem \<Rightarrow> u64 \<Rightarrow> u64 \<Rightarrow> u64 option" where
  "in_set m s obj = do {
     node \<leftarrow> avl_find m (contents s 0) obj set_cmp;
     Some (if node = 0 then 0 else nd_data m node) }"

definition set_get_value :: "mem \<Rightarrow> u64 \<Rightarrow> u64 \<Rightarrow> u64 option" where
  "set_get_value m s obj = do {
     node \<leftarrow> avl_find m (contents s 0) obj set_keyfind_cmp;
     Some (if node = 0 then 0 else m (contents (nd_data m node) 1)) }"

subsection \<open>Deletion\<close>

text \<open>\<^verbatim>\<open>_object_delete\<close> returns the block of an object to the heap.\<close>

definition object_free :: "mem \<Rightarrow> u64 \<Rightarrow> u64 \<Rightarrow> mem option" where
  "object_free m heap obj = free m heap (obj + 8)"

text \<open>
  \<^verbatim>\<open>object_delete\<close>, \<^verbatim>\<open>set_delete\<close> and \<^verbatim>\<open>obj_array_delete\<close> call one another: the calls of \<open>deleting\<close>.
  \<open>Delete_Contents\<close> is the loop over the contents of an object from an index on, \<open>Delete_Root\<close> the
  second half of the loop body of \<^verbatim>\<open>set_delete\<close>, \<open>Drop_Array\<close> the rest of \<^verbatim>\<open>obj_array_delete\<close>.
\<close>

text \<open>
  The tests of \<^verbatim>\<open>object_delete\<close> on the type of an object, in the order of the code: what the object
  holds.
\<close>

datatype kind = Leaf_kind | Set_kind | Cells_kind | Array_kind | Function_kind | Other_kind

definition type_kind :: "types \<Rightarrow> mem \<Rightarrow> u64 \<Rightarrow> kind" where
  "type_kind T m type =
     (if obj_cmp m type (num_type T) = 0 \<or> obj_cmp m type (string_type T) = 0
         \<or> obj_cmp m type (bcode_type T) = 0 then Leaf_kind
      else if obj_cmp m type (set_type T) = 0 then Set_kind
      else if obj_cmp m type (cell_type T) = 0 \<or> obj_cmp m type (subarray_type T) = 0 then Cells_kind
      else if obj_cmp m type (array_type T) = 0 then Array_kind
      else if obj_cmp m type (function_type T) = 0 then Function_kind
      else Other_kind)"

datatype delete_call =
    Delete_Object u64
  | Delete_Contents u64 u64
  | Free_Object u64
  | Delete_Set u64
  | Delete_Root u64 u64
  | Delete_Array u64
  | Drop_Array u64 u64

definition object_delete_step ::
    "types \<Rightarrow> u64 \<Rightarrow> u64 \<Rightarrow> mem \<Rightarrow> (mem \<times> delete_call list) option" where
  "object_delete_step T heap obj m =
     (if obj = 0 then Some (m, [])
      else let type = m (otype obj); m = m(refcount obj := m (refcount obj) - 1) in
      if m (refcount obj) \<noteq> 0 then Some (m, [])
      else (case type_kind T m type of
          Leaf_kind \<Rightarrow> do { m \<leftarrow> object_free m heap obj; Some (m, [Delete_Object type]) }
        | Set_kind \<Rightarrow> Some (m, [Delete_Set obj, Delete_Object type])
        | Cells_kind \<Rightarrow> Some (m, [Delete_Contents obj 0, Free_Object obj, Delete_Object type])
        | Array_kind \<Rightarrow> Some (m, [Delete_Array obj, Delete_Object type])
        | Function_kind \<Rightarrow> Some (m, [])
        | Other_kind \<Rightarrow> Some (m, [Delete_Object type])))"

definition set_delete_step :: "u64 \<Rightarrow> u64 \<Rightarrow> mem \<Rightarrow> (mem \<times> delete_call list) option" where
  "set_delete_step heap s m =
     (let tr = contents s 0 in
      if m tr \<noteq> 0 then
        let root = m tr
        in Some (m, [Delete_Object (nd_data m root), Delete_Root s root, Delete_Set s])
      else do { m \<leftarrow> object_free m heap s; Some (m, []) })"

definition obj_array_delete_step :: "u64 \<Rightarrow> mem \<Rightarrow> (mem \<times> delete_call list) option" where
  "obj_array_delete_step obj m =
     (let arr = m (contents obj 0)
      in Some (m, [Delete_Object (m (otype arr)), Drop_Array obj arr]))"

definition drop_array_step :: "u64 \<Rightarrow> u64 \<Rightarrow> u64 \<Rightarrow> mem \<Rightarrow> (mem \<times> delete_call list) option" where
  "drop_array_step heap obj arr m = do {
     m \<leftarrow> object_free m heap obj;
     let m = m(refcount arr := m (refcount arr) - 1);
     Some (m, if m (refcount arr) \<noteq> 0 then [] else [Delete_Contents arr 0, Free_Object arr]) }"

fun delete_step :: "types \<Rightarrow> u64 \<Rightarrow> delete_call \<Rightarrow> mem \<Rightarrow> (mem \<times> delete_call list) option" where
  "delete_step T heap (Delete_Object obj) m = object_delete_step T heap obj m"
| "delete_step T heap (Delete_Contents obj i) m =
     Some (m, if i < m (osize obj)
       then [Delete_Object (m (contents obj i)), Delete_Contents obj (i + 1)] else [])"
| "delete_step T heap (Free_Object obj) m = do { m \<leftarrow> object_free m heap obj; Some (m, []) }"
| "delete_step T heap (Delete_Set s) m = set_delete_step heap s m"
| "delete_step T heap (Delete_Root s root) m = do {
     (m, _) \<leftarrow> avl_delete m heap (contents s 0) (nd_data m root) avl_basic_cmp;
     Some (m, []) }"
| "delete_step T heap (Delete_Array obj) m = obj_array_delete_step obj m"
| "delete_step T heap (Drop_Array obj arr) m = drop_array_step heap obj arr m"

definition deleting :: "types \<Rightarrow> u64 \<Rightarrow> delete_call \<Rightarrow> mem \<Rightarrow> mem option" where
  "deleting T heap c m = run_calls (delete_step T heap) [c] m"

definition object_delete :: "types \<Rightarrow> mem \<Rightarrow> u64 \<Rightarrow> u64 \<Rightarrow> mem option" where
  "object_delete T m heap obj = deleting T heap (Delete_Object obj) m"

definition set_delete :: "types \<Rightarrow> mem \<Rightarrow> u64 \<Rightarrow> u64 \<Rightarrow> mem option" where
  "set_delete T m heap s = deleting T heap (Delete_Set s) m"

definition obj_array_delete :: "types \<Rightarrow> mem \<Rightarrow> u64 \<Rightarrow> u64 \<Rightarrow> mem option" where
  "obj_array_delete T m heap obj = deleting T heap (Delete_Array obj) m"

definition o_del :: "types \<Rightarrow> mem \<Rightarrow> u64 \<Rightarrow> u64 \<Rightarrow> mem option" where
  "o_del T m heap obj = object_delete T (m(refcount obj := m (refcount obj) + 1)) heap obj"

subsection \<open>Arrays of objects\<close>

definition obj_array :: "types \<Rightarrow> mem \<Rightarrow> u64 \<Rightarrow> u64 \<Rightarrow> (mem \<times> u64) option" where
  "obj_array T m heap sz = do {
     (m, arr) \<leftarrow> object m heap (subarray_type T) sz 0 0;
     if arr = 0 then Some (m, 0)
     else do {
       let m = m(refcount arr := m (refcount arr) + 1);
       (m, ret) \<leftarrow> object m heap (array_type T) 1 0 0;
       if ret = 0 then do { m \<leftarrow> object_delete T m heap arr; Some (m, 0) }
       else Some (m(contents ret 0 := arr), ret) } }"

definition obj_array_size :: "mem \<Rightarrow> u64 \<Rightarrow> u64" where
  "obj_array_size m arr = m (osize (m (contents arr 0)))"

definition obj_array_append :: "mem \<Rightarrow> u64 \<Rightarrow> u64 \<Rightarrow> u64 \<Rightarrow> mem option" where
  "obj_array_append m heap arr data = do {
     (m, p) \<leftarrow> object_append m heap (m (contents arr 0)) data;
     Some (m(contents arr 0 := p)) }"

definition obj_array_idx :: "mem \<Rightarrow> u64 \<Rightarrow> u64 \<Rightarrow> u64" where
  "obj_array_idx m arr idx = m (contents (m (contents arr 0)) idx)"

definition set_obj_array_idx :: "mem \<Rightarrow> u64 \<Rightarrow> u64 \<Rightarrow> u64 \<Rightarrow> mem" where
  "set_obj_array_idx m arr idx val = m(contents (m (contents arr 0)) idx := val)"

text \<open>\<^verbatim>\<open>_obj_array_flatten\<close>: the loop over \<open>obj\<close> from index \<open>i\<close> on; nested arrays are flattened too.\<close>

partial_function (option) obj_array_flatten_from ::
    "types \<Rightarrow> u64 \<Rightarrow> mem \<Rightarrow> u64 \<Rightarrow> u64 \<Rightarrow> u64 \<Rightarrow> u64 \<Rightarrow> mem option" where
  "obj_array_flatten_from T heap m ret obj sz i =
     (if i < sz then do {
        let exp_i = obj_array_idx m obj i;
        m \<leftarrow> (if obj_cmp m (m (otype exp_i)) (array_type T) = 0
              then obj_array_flatten_from T heap m ret exp_i (obj_array_size m exp_i) 0
              else obj_array_append m heap ret exp_i);
        obj_array_flatten_from T heap m ret obj sz (i + 1) }
      else Some m)"

definition obj_array_flatten :: "types \<Rightarrow> mem \<Rightarrow> u64 \<Rightarrow> u64 \<Rightarrow> (mem \<times> u64) option" where
  "obj_array_flatten T m heap obj = do {
     (m, ret) \<leftarrow> obj_array T m heap 16;
     m \<leftarrow> obj_array_flatten_from T heap m ret obj (obj_array_size m obj) 0;
     Some (m, ret) }"

subsection \<open>Strings\<close>

text \<open>
  \<^verbatim>\<open>cstr_to_string\<close>: one word per character. The argument is the list of the bytes of the C string.
\<close>

fun append_chars :: "u64 \<Rightarrow> mem \<Rightarrow> u64 \<Rightarrow> u64 list \<Rightarrow> (mem \<times> u64) option" where
  "append_chars heap m obj [] = Some (m, obj)"
| "append_chars heap m obj (c # cs) = do {
     (m, obj) \<leftarrow> object_append_word m heap obj c;
     append_chars heap m obj cs }"

definition cstr_to_string :: "types \<Rightarrow> mem \<Rightarrow> u64 \<Rightarrow> u64 list \<Rightarrow> (mem \<times> u64) option" where
  "cstr_to_string T m heap str = do {
     (m, obj) \<leftarrow> object m heap (string_type T) 8 0 0;
     append_chars heap m obj str }"

end
