(* ===== verification/Containers.thy ===== *)
theory Containers
  imports Heap_Model
begin

text \<open>
  The containers that do not hold objects (\<^verbatim>\<open>datastructures.c\<close>, lines 259 to 346 and 917 to 1159):
  growing arrays, the queue (a doubly linked list, used as a stack and as a queue), ring buffers
  and the FIFO made of two ring buffers. Items are blocks of \<open>item_sz\<close> words at an address.
\<close>

subsection \<open>Arrays\<close>

text \<open>
  \<^verbatim>\<open>Array_bsz\<close>: an array pointer points to the first item; the size of its block (written by the
  allocator), the number of words in use and the item size stand in the three words before it.
\<close>

definition Array_bsz :: u64 where "Array_bsz = 2"

definition a_mem_sz :: "u64 \<Rightarrow> u64" where "a_mem_sz arr = arr - 24"
definition a_used_sz :: "u64 \<Rightarrow> u64" where "a_used_sz arr = arr - 16"
definition a_item_sz :: "u64 \<Rightarrow> u64" where "a_item_sz arr = arr - 8"

lemmas array_fields = a_mem_sz_def a_used_sz_def a_item_sz_def Array_bsz_def

definition array :: "mem \<Rightarrow> u64 \<Rightarrow> u64 \<Rightarrow> u64 \<Rightarrow> (mem \<times> u64) option" where
  "array m heap sz item_sz = do {
     (m, p) \<leftarrow> alloc m heap (sz * item_sz + Array_bsz);
     if p = 0 then Some (m, 0)
     else do {
       let arr = p + 8 * Array_bsz;
       let m = m(a_used_sz arr := 0);
       let m = m(a_item_sz arr := item_sz);
       Some (m, arr) } }"

definition array_resize :: "mem \<Rightarrow> u64 \<Rightarrow> u64 \<Rightarrow> u64 \<Rightarrow> (mem \<times> u64) option" where
  "array_resize m heap arr new_size = do {
     (m, p) \<leftarrow> realloc m heap (arr - 8 * Array_bsz) (Array_bsz + new_size * m (a_item_sz arr));
     Some (m, if p = 0 then 0 else p + 8 * Array_bsz) }"

definition array_capacity :: "mem \<Rightarrow> u64 \<Rightarrow> u64" where
  "array_capacity m arr = (m (a_mem_sz arr) - Array_bsz - 1) div m (a_item_sz arr)"

definition array_len :: "mem \<Rightarrow> u64 \<Rightarrow> u64" where
  "array_len m arr = m (a_used_sz arr) div m (a_item_sz arr)"

text \<open>
  \<^verbatim>\<open>array_find\<close>: the first item from \<open>ptr\<close> on for which the test is not 0. The caller's test with its
  extra parameters is \<open>eq_fn\<close>.
\<close>

partial_function (option) array_find ::
    "mem \<Rightarrow> u64 \<Rightarrow> u64 \<Rightarrow> u64 \<Rightarrow> (mem \<Rightarrow> u64 \<Rightarrow> u64 \<Rightarrow> u64 option) \<Rightarrow> u64 option" where
  "array_find m arr ptr item eq_fn =
     (let item_sz = m (a_item_sz arr) in
      if ptr < arr + 8 * (array_len m arr * item_sz) then do {
        r \<leftarrow> eq_fn m item ptr;
        if r \<noteq> 0 then Some ptr else array_find m arr (ptr + 8 * item_sz) item eq_fn }
      else Some 0)"

definition array_append :: "mem \<Rightarrow> u64 \<Rightarrow> u64 \<Rightarrow> u64 \<Rightarrow> (mem \<times> u64) option" where
  "array_append m heap arr item = do {
     let mem_addr = arr - 8 * Array_bsz;
     let true_mem_sz = get_mem_sz m mem_addr;
     let mem_sz = true_mem_sz - Array_bsz;
     let used_sz = m (a_used_sz arr);
     let item_sz = m (a_item_sz arr);
     let store = (\<lambda>m arr.
       let m = copy_words m (arr + 8 * used_sz) item 0 item_sz
       in (m(a_used_sz arr := m (a_used_sz arr) + item_sz), arr));
     if mem_sz < used_sz + item_sz then do {
       (m, p) \<leftarrow> realloc m heap mem_addr (true_mem_sz + mem_sz div 2 + item_sz);
       if p = 0 then Some (m, 0) else Some (store m (p + 8 * Array_bsz)) }
     else Some (store m arr) }"

text \<open>The local variable \<^verbatim>\<open>x\<close> of \<^verbatim>\<open>array_append_str\<close>.\<close>

definition str_item :: u64 where "str_item = 0x7fd00"

partial_function (option) array_append_str_from ::
    "mem \<Rightarrow> u64 \<Rightarrow> u64 \<Rightarrow> u64 \<Rightarrow> (mem \<times> u64) option" where
  "array_append_str_from m heap arr str =
     (if load8 m str = 0 then Some (m, arr)
      else do {
        (m, arr) \<leftarrow> array_append (m(str_item := load8 m str)) heap arr str_item;
        if arr = 0 then Some (m, 0) else array_append_str_from m heap arr (str + 1) })"

definition array_append_str :: "mem \<Rightarrow> u64 \<Rightarrow> u64 \<Rightarrow> u64 \<Rightarrow> (mem \<times> u64) option" where
  "array_append_str m heap arr str = array_append_str_from m heap arr str"

definition array_delete :: "mem \<Rightarrow> u64 \<Rightarrow> u64 \<Rightarrow> mem option" where
  "array_delete m heap arr = free m heap (arr - 8 * Array_bsz)"

subsection \<open>The queue\<close>

definition q_first :: "u64 \<Rightarrow> u64" where "q_first q = q"
definition q_last :: "u64 \<Rightarrow> u64" where "q_last q = q + 8"
definition l_data :: "u64 \<Rightarrow> u64" where "l_data l = l"
definition l_next :: "u64 \<Rightarrow> u64" where "l_next l = l + 8"
definition l_prev :: "u64 \<Rightarrow> u64" where "l_prev l = l + 16"

lemmas queue_fields = q_first_def q_last_def l_data_def l_next_def l_prev_def

definition queue :: "mem \<Rightarrow> u64 \<Rightarrow> (mem \<times> u64) option" where
  "queue m heap = do {
     (m, q) \<leftarrow> alloc m heap 2;
     if q = 0 then Some (m, 0)
     else Some (m(q_first q := 0, q_last q := 0), q) }"

text \<open>The links of a queue, without the allocation and the freeing of the link.\<close>

definition link_front :: "mem \<Rightarrow> u64 \<Rightarrow> u64 \<Rightarrow> u64 \<Rightarrow> mem" where
  "link_front m q link data =
     (let m = m(l_data link := data);
          m = m(l_next link := m (q_first q));
          m = m(l_prev link := 0);
          m = (if m (q_first q) = 0 then m(q_last q := link)
               else m(l_prev (m (q_first q)) := link))
      in m(q_first q := link))"

definition unlink_first :: "mem \<Rightarrow> u64 \<Rightarrow> u64 \<Rightarrow> mem" where
  "unlink_first m q first =
     (let m = m(q_first q := m (l_next first))
      in if m (q_first q) = 0 then m(q_last q := 0) else m(l_prev (m (l_next first)) := 0))"

definition unlink_last :: "mem \<Rightarrow> u64 \<Rightarrow> u64 \<Rightarrow> mem" where
  "unlink_last m q lst =
     (let m = m(q_last q := m (l_prev lst))
      in if m (q_last q) = 0 then m(q_first q := 0) else m(l_next (m (l_prev lst)) := 0))"

definition queue_push :: "mem \<Rightarrow> u64 \<Rightarrow> u64 \<Rightarrow> u64 \<Rightarrow> (mem \<times> u64) option" where
  "queue_push m heap q data = do {
     (m, link) \<leftarrow> alloc m heap 3;
     if link = 0 then Some (m, 0)
     else Some (link_front m q link data, link) }"

definition queue_last :: "mem \<Rightarrow> u64 \<Rightarrow> u64 \<Rightarrow> (mem \<times> u64) option" where
  "queue_last m heap q = do {
     let lst = m (q_last q);
     if lst = 0 then Some (m, 0)
     else do {
       let m = unlink_last m q lst;
       let data = m (l_data lst);
       m \<leftarrow> free m heap lst;
       Some (m, data) } }"

definition queue_pop :: "mem \<Rightarrow> u64 \<Rightarrow> u64 \<Rightarrow> (mem \<times> u64) option" where
  "queue_pop m heap q = do {
     let first = m (q_first q);
     if first = 0 then Some (m, 0)
     else do {
       let m = unlink_first m q first;
       let data = m (l_data first);
       m \<leftarrow> free m heap first;
       Some (m, data) } }"

subsection \<open>Ring buffers\<close>

definition rb_buf :: "u64 \<Rightarrow> u64" where "rb_buf rb = rb"
definition rb_head :: "u64 \<Rightarrow> u64" where "rb_head rb = rb + 8"
definition rb_tail :: "u64 \<Rightarrow> u64" where "rb_tail rb = rb + 16"

lemmas ring_fields = rb_buf_def rb_head_def rb_tail_def

definition ring_buf :: "mem \<Rightarrow> u64 \<Rightarrow> u64 \<Rightarrow> u64 \<Rightarrow> (mem \<times> u64) option" where
  "ring_buf m heap sz item_sz =
     (if sz \<le> 1 then Some (m, 0)
      else do {
        (m, rb) \<leftarrow> alloc m heap 3;
        if rb = 0 then Some (m, 0)
        else do {
          (m, arr) \<leftarrow> array m heap sz item_sz;
          if arr = 0 then do { m \<leftarrow> free m heap rb; Some (m, 0) }
          else Some (m(rb_buf rb := arr, rb_head rb := 0, rb_tail rb := 0), rb) } })"

definition ring_buf_isempty :: "mem \<Rightarrow> u64 \<Rightarrow> bool" where
  "ring_buf_isempty m rb = (m (rb_head rb) = m (rb_tail rb))"

definition ring_buf_isfull :: "mem \<Rightarrow> u64 \<Rightarrow> bool" where
  "ring_buf_isfull m rb =
     (let sz = array_capacity m (m (rb_buf rb))
      in (m (rb_tail rb) + (sz - 1)) mod sz = m (rb_head rb))"

definition ring_buf_item_sz :: "mem \<Rightarrow> u64 \<Rightarrow> u64" where
  "ring_buf_item_sz m rb = m (a_item_sz (m (rb_buf rb)))"

definition ring_buf_add :: "mem \<Rightarrow> u64 \<Rightarrow> u64 \<Rightarrow> mem" where
  "ring_buf_add m rb item =
     (let sz = array_capacity m (m (rb_buf rb));
          item_sz = ring_buf_item_sz m rb;
          ptr = m (rb_buf rb) + 8 * (item_sz * m (rb_head rb));
          m = copy_words m ptr item 0 item_sz;
          m = m(rb_head rb := m (rb_head rb) + 1)
      in if sz \<le> m (rb_head rb) then m(rb_head rb := 0) else m)"

definition ring_buf_pop :: "mem \<Rightarrow> u64 \<Rightarrow> u64 \<Rightarrow> mem" where
  "ring_buf_pop m rb item =
     (let sz = array_capacity m (m (rb_buf rb));
          item_sz = ring_buf_item_sz m rb;
          ptr = m (rb_buf rb) + 8 * (item_sz * m (rb_tail rb));
          m = (if item \<noteq> 0 then copy_words m item ptr 0 item_sz else m);
          m = m(rb_tail rb := m (rb_tail rb) + 1)
      in if sz \<le> m (rb_tail rb) then m(rb_tail rb := 0) else m)"

definition ring_buf_delete :: "mem \<Rightarrow> u64 \<Rightarrow> u64 \<Rightarrow> mem option" where
  "ring_buf_delete m heap rb = do {
     m \<leftarrow> array_delete m heap (m (rb_buf rb));
     free m heap rb }"

text \<open>
  \<^verbatim>\<open>for (word i = rb->tail; i != rb->head; ++i, i %= sz)\<close>. The buffer is only read, and the loop does
  not end when \<open>head\<close> is not below \<open>sz\<close>.
\<close>

partial_function (option) ring_buf_print_from :: "mem \<Rightarrow> u64 \<Rightarrow> u64 \<Rightarrow> u64 \<Rightarrow> u64 \<Rightarrow> uart option" where
  "ring_buf_print_from m rb sz item_sz i =
     (if i = m (rb_head rb) then Some []
      else do {
        s \<leftarrow> ring_buf_print_from m rb sz item_sz ((i + 1) mod sz);
        Some (for_up 0 item_sz (\<lambda>j out. out
                @ uart_print_uint (m (m (rb_buf rb) + 8 * (i * item_sz + j))) 16
                @ uart_puts (lit '' '')) [] @ s) })"

definition ring_buf_print :: "mem \<Rightarrow> u64 \<Rightarrow> uart option" where
  "ring_buf_print m rb = do {
     let sz = array_capacity m (m (rb_buf rb));
     let item_sz = ring_buf_item_sz m rb;
     s \<leftarrow> ring_buf_print_from m rb sz item_sz (m (rb_tail rb));
     Some (uart_print_uint (of_bool (ring_buf_isfull m rb)) 16 @ uart_puts (lit '' '')
           @ uart_print_uint (m (rb_head rb)) 16 @ uart_puts (lit '' '')
           @ uart_print_uint (m (rb_tail rb)) 16 @ uart_puts [10]
           @ s @ uart_puts [10]) }"

subsection \<open>The FIFO of two ring buffers\<close>

text \<open>
  Every item is stored behind a tag that counts the items added. A producer that finds the first
  buffer locked (an interrupt during a pop) or full uses the second; the consumer takes the item
  with the next tag from whichever buffer holds it.
\<close>

definition cf_A :: "u64 \<Rightarrow> u64" where "cf_A cf = cf"
definition cf_B :: "u64 \<Rightarrow> u64" where "cf_B cf = cf + 8"
definition cf_a_lck :: "u64 \<Rightarrow> u64" where "cf_a_lck cf = cf + 16"
definition cf_b_lck :: "u64 \<Rightarrow> u64" where "cf_b_lck cf = cf + 24"
definition cf_tag :: "u64 \<Rightarrow> u64" where "cf_tag cf = cf + 32"
definition cf_curr_tag :: "u64 \<Rightarrow> u64" where "cf_curr_tag cf = cf + 40"

lemmas fifo_fields = cf_A_def cf_B_def cf_a_lck_def cf_b_lck_def cf_tag_def cf_curr_tag_def

definition concurrent_fifo :: "mem \<Rightarrow> u64 \<Rightarrow> u64 \<Rightarrow> u64 \<Rightarrow> u64 \<Rightarrow> (mem \<times> u64) option" where
  "concurrent_fifo m heap primary_capacity secondary_capacity item_sz = do {
     (m, cf) \<leftarrow> alloc m heap 6;
     if cf = 0 then Some (m, 0)
     else do {
       (m, a) \<leftarrow> ring_buf m heap primary_capacity (item_sz + 1);
       let m = m(cf_A cf := a);
       if m (cf_A cf) = 0 then do { m \<leftarrow> free m heap cf; Some (m, 0) }
       else do {
         (m, b) \<leftarrow> ring_buf m heap secondary_capacity (item_sz + 1);
         let m = m(cf_B cf := b);
         if m (cf_B cf) = 0 then do {
           m \<leftarrow> free m heap (m (cf_A cf));
           m \<leftarrow> free m heap cf;
           Some (m, 0) }
         else Some (m(cf_a_lck cf := 0, cf_b_lck cf := 0, cf_tag cf := 0, cf_curr_tag cf := 0), cf) } } }"

definition concurrent_fifo_isempty :: "mem \<Rightarrow> u64 \<Rightarrow> bool" where
  "concurrent_fifo_isempty m cf = (ring_buf_isempty m (m (cf_A cf)) \<and> ring_buf_isempty m (m (cf_B cf)))"

definition concurrent_fifo_isfull :: "mem \<Rightarrow> u64 \<Rightarrow> bool" where
  "concurrent_fifo_isfull m cf = (ring_buf_isfull m (m (cf_A cf)) \<and> ring_buf_isfull m (m (cf_B cf)))"

definition concurrent_fifo_item_sz :: "mem \<Rightarrow> u64 \<Rightarrow> u64" where
  "concurrent_fifo_item_sz m cf = ring_buf_item_sz m (m (cf_A cf))"

text \<open>The array \<^verbatim>\<open>tagged_item\<close> on the stack.\<close>

definition tagged_item :: u64 where "tagged_item = 0x7e000"

definition concurrent_fifo_add :: "mem \<Rightarrow> u64 \<Rightarrow> u64 \<Rightarrow> mem \<times> u64" where
  "concurrent_fifo_add m cf item =
     (let item_sz = ring_buf_item_sz m (m (cf_A cf));
          m = m(tagged_item := m (cf_tag cf));
          m = m(cf_tag cf := m (cf_tag cf) + 1);
          m = copy_words m tagged_item (item - 8) 1 item_sz
      in if m (cf_a_lck cf) = 0 \<and> \<not> ring_buf_isfull m (m (cf_A cf))
         then (ring_buf_add m (m (cf_A cf)) tagged_item, 0)
         else if m (cf_b_lck cf) = 0 \<and> \<not> ring_buf_isfull m (m (cf_B cf))
         then (ring_buf_add m (m (cf_B cf)) tagged_item, 0)
         else (m(cf_tag cf := m (cf_tag cf) - 1), 1))"

definition concurrent_fifo_pop :: "mem \<Rightarrow> u64 \<Rightarrow> u64 \<Rightarrow> mem \<times> u64" where
  "concurrent_fifo_pop m cf item =
     (let item_sz = ring_buf_item_sz m (m (cf_A cf));
          A = m (cf_A cf);
          B = m (cf_B cf);
          A_ptr = m (rb_buf A) + 8 * (item_sz * m (rb_tail A));
          B_ptr = m (rb_buf B) + 8 * (item_sz * m (rb_tail B));
          c_tag = m (cf_curr_tag cf);
          finish = (\<lambda>m. let m = copy_words m (item - 8) tagged_item 1 item_sz
                        in (m(cf_curr_tag cf := m (cf_curr_tag cf) + 1), 0))
      in if \<not> ring_buf_isempty m A \<and> c_tag = m A_ptr then
           let m = m(cf_a_lck cf := 1);
               m = ring_buf_pop m A tagged_item
           in finish (m(cf_a_lck cf := 0))
         else if \<not> ring_buf_isempty m B \<and> c_tag = m B_ptr then
           let m = m(cf_b_lck cf := 1);
               m = ring_buf_pop m B tagged_item
           in finish (m(cf_b_lck cf := 0))
         else (m, 1))"

definition concurrent_fifo_delete :: "mem \<Rightarrow> u64 \<Rightarrow> u64 \<Rightarrow> mem option" where
  "concurrent_fifo_delete m heap cf = do {
     m \<leftarrow> ring_buf_delete m heap (m (cf_A cf));
     m \<leftarrow> ring_buf_delete m heap (m (cf_B cf));
     free m heap cf }"

definition concurrent_fifo_print :: "mem \<Rightarrow> u64 \<Rightarrow> uart option" where
  "concurrent_fifo_print m cf = do {
     a \<leftarrow> ring_buf_print m (m (cf_A cf));
     b \<leftarrow> ring_buf_print m (m (cf_B cf));
     Some (uart_puts [10]
           @ uart_print_uint (m (cf_a_lck cf)) 16 @ uart_puts (lit ''  '')
           @ uart_print_uint (m (cf_b_lck cf)) 16 @ uart_puts (lit ''  '')
           @ uart_print_uint (m (cf_curr_tag cf)) 16 @ uart_puts (lit ''  '')
           @ uart_print_uint (m (cf_tag cf)) 16 @ uart_puts (lit ''  '' @ [10])
           @ a @ b) }"

end
