(* ===== verification/Gc.thy ===== *)
theory Gc
  imports Objects Containers
begin

text \<open>
  The garbage collector of \<^verbatim>\<open>alloc.c\<close> and the initialisation of the heap. The addresses behind the
  size word of the objects it looks after are the data of the set \<^verbatim>\<open>gc_set\<close>, a field of the heap.

  The collector counts, for an object it suspects, the references that come from the objects
  that are reachable from it (the temporary count); an object with more references than that is in
  use, and so is all that it reaches. What stays marked is swept.
\<close>

subsection \<open>The reference count word\<close>

text \<open>The low half holds the count, bits 32 to 62 the temporary count, bit 63 the mark.\<close>

definition refcount_mask :: u64 where "refcount_mask = drop_bit 32 (-1)"
definition visited_mask :: u64 where "visited_mask = push_bit 63 1"

definition get_rc :: "mem \<Rightarrow> u64 \<Rightarrow> u64" where
  "get_rc m obj = m (refcount obj) AND refcount_mask"

definition get_tmp_rc :: "mem \<Rightarrow> u64 \<Rightarrow> u64" where
  "get_tmp_rc m obj = drop_bit 32 (m (refcount obj) AND NOT visited_mask)"

definition set_tmp_rc_all :: "mem \<Rightarrow> u64 \<Rightarrow> u64 \<Rightarrow> mem" where
  "set_tmp_rc_all m obj val =
     (let m = m(refcount obj := m (refcount obj) AND refcount_mask)
      in m(refcount obj := m (refcount obj) OR push_bit 32 val))"

definition set_tmp_rc :: "mem \<Rightarrow> u64 \<Rightarrow> u64 \<Rightarrow> mem" where
  "set_tmp_rc m obj val =
     (let m = m(refcount obj := m (refcount obj) AND (refcount_mask OR visited_mask))
      in m(refcount obj := m (refcount obj) OR push_bit 32 val))"

definition visited :: "mem \<Rightarrow> u64 \<Rightarrow> u64" where
  "visited m obj = m (refcount obj) AND visited_mask"

definition set_visited :: "mem \<Rightarrow> u64 \<Rightarrow> u64 \<Rightarrow> mem" where
  "set_visited m obj val =
     (let m = m(refcount obj := m (refcount obj) AND drop_bit 1 (-1))
      in m(refcount obj := m (refcount obj) OR push_bit 63 val))"

subsection \<open>Allocation of collected blocks\<close>

definition gc_tree :: "mem \<Rightarrow> u64 \<Rightarrow> u64" where
  "gc_tree m heap = contents (m (gc_set heap)) 0"

definition gc_alloc :: "mem \<Rightarrow> u64 \<Rightarrow> u64 \<Rightarrow> (mem \<times> u64) option" where
  "gc_alloc m heap n = do {
     (m, addr) \<leftarrow> alloc m heap n;
     if addr = 0 then Some (m, 0)
     else do {
       (m, cond) \<leftarrow> avl_insert m heap (gc_tree m heap) addr avl_basic_cmp;
       if cond \<noteq> 0 then do { m \<leftarrow> free m heap addr; Some (m, 0) }
       else Some (m(gc_num_alloced heap := m (gc_num_alloced heap) + 1), addr) } }"

definition gc_add :: "mem \<Rightarrow> u64 \<Rightarrow> u64 \<Rightarrow> (mem \<times> u64) option" where
  "gc_add m heap obj = do {
     (m, cond) \<leftarrow> avl_insert m heap (gc_tree m heap) (obj + 8) avl_basic_cmp;
     let m = (if cond = 0 then m(gc_num_alloced heap := m (gc_num_alloced heap) + 1) else m);
     Some (m, cond) }"

definition gc_free :: "mem \<Rightarrow> u64 \<Rightarrow> u64 \<Rightarrow> mem option" where
  "gc_free m heap addr = do {
     let gcs = m (gc_set heap);
     (m, a) \<leftarrow> set_remove m heap gcs addr avl_basic_cmp;
     m \<leftarrow> (if a \<noteq> 0 then free m heap addr else Some m);
     Some (m(gc_num_alloced heap := m (gc_num_alloced heap) - 1)) }"

definition gc_realloc :: "mem \<Rightarrow> u64 \<Rightarrow> u64 \<Rightarrow> u64 \<Rightarrow> (mem \<times> u64) option" where
  "gc_realloc m heap addr mem_sz = do {
     (m, new_addr) \<leftarrow> gc_alloc m heap mem_sz;
     let m = realloc_copy m new_addr addr mem_sz 0;
     m \<leftarrow> gc_free m heap addr;
     Some (m, new_addr) }"

subsection \<open>Marking\<close>

text \<open>
  What the collector follows in an object, by the order of its tests on the type: the elements of
  a set, all words, or the first word only.
\<close>

datatype content = Nothing_in | Tree_in | Words_in | First_in

definition gc_content :: "types \<Rightarrow> mem \<Rightarrow> u64 \<Rightarrow> content" where
  "gc_content T m type =
     (if obj_cmp m type (string_type T) = 0 \<or> obj_cmp m type (num_type T) = 0
         \<or> obj_cmp m type (bcode_type T) = 0 then Nothing_in
      else if obj_cmp m type (set_type T) = 0 then Tree_in
      else if obj_cmp m type (cell_type T) = 0 \<or> obj_cmp m type (function_type T) = 0
         \<or> obj_cmp m type (subarray_type T) = 0 then Words_in
      else if obj_cmp m type (array_type T) = 0 then First_in
      else Nothing_in)"

text \<open>
  \<^verbatim>\<open>_mark_tc\<close> (\<open>Mark\<close>) and \<^verbatim>\<open>mark_tc_tr\<close> (\<open>Mark_Tree\<close>) call each other; \<open>Mark_Words\<close> is the loop over
  the contents of an object from an index on. With \<open>cond\<close> they mark and count, without they take the
  marks away.
\<close>

datatype mark_call = Mark u64 | Mark_Tree u64 | Mark_Words u64 u64

definition mark_children :: "types \<Rightarrow> u64 \<Rightarrow> mem \<Rightarrow> mark_call list" where
  "mark_children T obj m = (case gc_content T m (m (otype obj)) of
       Nothing_in \<Rightarrow> []
     | Tree_in \<Rightarrow> [Mark_Tree (m (contents obj 0))]
     | Words_in \<Rightarrow> [Mark_Words obj 0]
     | First_in \<Rightarrow> [Mark (m (contents obj 0))])"

definition mark_obj_step ::
    "types \<Rightarrow> u64 \<Rightarrow> u64 \<Rightarrow> u64 \<Rightarrow> u64 \<Rightarrow> mem \<Rightarrow> (mem \<times> mark_call list) option" where
  "mark_obj_step T heap q cond obj m =
     (if obj = 0 then Some (m, [])
      else let tmp_rc = get_tmp_rc m obj in
      if cond \<noteq> 0 then
        (if visited m obj \<noteq> 0 then Some (set_tmp_rc m obj (tmp_rc + 1), [])
         else do {
           (m, _) \<leftarrow> queue_push m heap q obj;
           let m = set_visited m obj 1;
           let m = set_tmp_rc m obj cond;
           Some (m, mark_children T obj m) })
      else if visited m obj = 0 then Some (m, [])
      else let m = set_visited m obj 0;
               m = set_tmp_rc m obj cond
           in Some (m, mark_children T obj m))"

fun mark_step ::
    "types \<Rightarrow> u64 \<Rightarrow> u64 \<Rightarrow> u64 \<Rightarrow> mark_call \<Rightarrow> mem \<Rightarrow> (mem \<times> mark_call list) option" where
  "mark_step T heap q cond (Mark obj) m = mark_obj_step T heap q cond obj m"
| "mark_step T heap q cond (Mark_Tree tree) m =
     Some (m, if tree = 0 then []
       else [Mark (nd_data m tree), Mark_Tree (nd_left m tree), Mark_Tree (nd_right m tree)])"
| "mark_step T heap q cond (Mark_Words obj i) m =
     Some (m, if i < m (osize obj) then [Mark (m (contents obj i)), Mark_Words obj (i + 1)] else [])"

definition mark_tc :: "types \<Rightarrow> mem \<Rightarrow> u64 \<Rightarrow> u64 \<Rightarrow> u64 \<Rightarrow> u64 \<Rightarrow> mem option" where
  "mark_tc T m heap q obj cond = do {
     m \<leftarrow> run_calls (mark_step T heap q cond) [Mark obj] m;
     Some (if cond \<noteq> 0 then set_tmp_rc m obj (get_tmp_rc m obj - 1) else m) }"

subsection \<open>Sweeping\<close>

definition decrease_refcs :: "mem \<Rightarrow> u64 \<Rightarrow> mem" where
  "decrease_refcs m obj = (if obj = 0 then m else m(refcount obj := m (refcount obj) - 1))"

text \<open>
  \<^verbatim>\<open>sweep\<close> and \<^verbatim>\<open>sweep_tr\<close>; their results, which the callers only add up, are summed in the state.
\<close>

datatype sweep_call = Sweep u64 | Sweep_Tree u64 | Sweep_Words u64 u64 | Free_Node u64

definition sweep_obj_step ::
    "types \<Rightarrow> u64 \<Rightarrow> u64 \<Rightarrow> u64 \<Rightarrow> mem \<times> u64 \<Rightarrow> ((mem \<times> u64) \<times> sweep_call list) option" where
  "sweep_obj_step T heap tr obj s =
     (let (m, ret) = s in
      if obj = 0 \<or> visited m obj = 0 then Some (s, [])
      else do {
        (m, cond) \<leftarrow> avl_insert m heap tr obj avl_basic_cmp;
        if cond \<noteq> 0 then Some ((m, ret), [])
        else let type = m (otype obj) in
          (if obj_cmp m type (string_type T) = 0 \<or> obj_cmp m type (num_type T) = 0
              \<or> obj_cmp m type (bcode_type T) = 0 then Some ((m, ret + 1 + 1), [])
           else (case gc_content T m type of
               Tree_in \<Rightarrow> Some ((m, ret + 1), [Sweep_Tree (m (contents obj 0))])
             | Words_in \<Rightarrow> Some ((m, ret + 1), [Sweep_Words obj 0])
             | First_in \<Rightarrow>
                 let m = decrease_refcs m (m (contents obj 0))
                 in Some ((m, ret + 1), [Sweep (m (contents obj 0))])
             | Nothing_in \<Rightarrow> Some ((m, ret + 1), []))) })"

fun sweep_step ::
    "types \<Rightarrow> u64 \<Rightarrow> u64 \<Rightarrow> sweep_call \<Rightarrow> mem \<times> u64 \<Rightarrow> ((mem \<times> u64) \<times> sweep_call list) option" where
  "sweep_step T heap tr (Sweep obj) s = sweep_obj_step T heap tr obj s"
| "sweep_step T heap tr (Sweep_Tree tree) (m, ret) =
     (if tree = 0 then Some ((m, ret), [])
      else let left = nd_left m tree; right = nd_right m tree;
               m = decrease_refcs m (nd_data m tree)
           in Some ((m, ret), [Sweep (nd_data m tree), Free_Node tree, Sweep_Tree left, Sweep_Tree right]))"
| "sweep_step T heap tr (Sweep_Words obj i) (m, ret) =
     (if i < m (osize obj) then
        let m = decrease_refcs m (m (contents obj i))
        in Some ((m, ret), [Sweep (m (contents obj i)), Sweep_Words obj (i + 1)])
      else Some ((m, ret), []))"
| "sweep_step T heap tr (Free_Node node) (m, ret) = do {
     m \<leftarrow> free m heap node;
     Some ((m, ret), []) }"

definition sweep :: "types \<Rightarrow> mem \<Rightarrow> u64 \<Rightarrow> u64 \<Rightarrow> u64 \<Rightarrow> (mem \<times> u64) option" where
  "sweep T m heap obj tr = run_calls (sweep_step T heap tr) [Sweep obj] (m, 0)"

subsection \<open>Collection\<close>

text \<open>\<^verbatim>\<open>_gc_collect\<close> queues the objects of the collector's set that have a type.\<close>

partial_function (option) gc_enqueue :: "u64 \<Rightarrow> u64 \<Rightarrow> mem \<Rightarrow> u64 \<Rightarrow> mem option" where
  "gc_enqueue heap q m tree =
     (if tree = 0 then Some m
      else do {
        let left = nd_left m tree;
        let right = nd_right m tree;
        m \<leftarrow> gc_enqueue heap q m left;
        m \<leftarrow> gc_enqueue heap q m right;
        let data = nd_data m tree - 8;
        if m (otype data) \<noteq> 0 then do { (m, _) \<leftarrow> queue_push m heap q data; Some m } else Some m })"

text \<open>The marks go from all that is referenced from outside.\<close>

partial_function (option) gc_unmark :: "types \<Rightarrow> u64 \<Rightarrow> u64 \<Rightarrow> mem \<Rightarrow> mem option" where
  "gc_unmark T heap q m = do {
     (m, obj) \<leftarrow> queue_pop m heap q;
     if obj = 0 then Some m
     else do {
       m \<leftarrow> (if get_tmp_rc m obj < get_rc m obj then mark_tc T m heap q obj 0 else Some m);
       gc_unmark T heap q m } }"

text \<open>The local variable \<^verbatim>\<open>refuse\<close>, the root of the tree of the objects to free.\<close>

definition refuse :: u64 where "refuse = 0x7fb00"

partial_function (option) gc_examine :: "types \<Rightarrow> u64 \<Rightarrow> u64 \<Rightarrow> u64 \<Rightarrow> u64 \<Rightarrow> mem \<Rightarrow> mem option" where
  "gc_examine T heap gcs q q0 m = do {
     (m, data) \<leftarrow> queue_pop m heap q0;
     if data = 0 then Some m
     else do {
       node \<leftarrow> avl_find m (contents gcs 0) (data + 8) avl_basic_cmp;
       if node = 0 then gc_examine T heap gcs q q0 m
       else do {
         m \<leftarrow> mark_tc T m heap q data 1;
         m \<leftarrow> gc_unmark T heap q m;
         (m, _) \<leftarrow> sweep T m heap data refuse;
         gc_examine T heap gcs q q0 m } } }"

partial_function (option) gc_dispose :: "types \<Rightarrow> u64 \<Rightarrow> u64 \<Rightarrow> mem \<Rightarrow> mem option" where
  "gc_dispose T heap tr m =
     (if m refuse \<noteq> 0 then do {
        let obj = nd_data m (m refuse);
        (m, _) \<leftarrow> avl_delete m heap refuse obj avl_basic_cmp;
        (m, cond) \<leftarrow> avl_delete m heap tr (obj + 8) avl_basic_cmp;
        let m = (if cond = 0 then m(gc_num_alloced heap := m (gc_num_alloced heap) - 1) else m);
        m \<leftarrow> object_delete T m heap (m (otype obj));
        m \<leftarrow> free m heap (obj + 8);
        gc_dispose T heap tr m }
      else Some m)"

definition gc_collect :: "types \<Rightarrow> mem \<Rightarrow> u64 \<Rightarrow> mem option" where
  "gc_collect T m heap = do {
     let gcs = m (gc_set heap);
     let tr = contents gcs 0;
     let m = m(refuse := 0);
     (m, q0) \<leftarrow> queue m heap;
     (m, q) \<leftarrow> queue m heap;
     m \<leftarrow> gc_enqueue heap q0 m (m tr);
     m \<leftarrow> gc_examine T heap gcs q q0 m;
     m \<leftarrow> gc_dispose T heap tr m;
     m \<leftarrow> free m heap q;
     free m heap q0 }"

text \<open>The object is freed, with all that it alone keeps alive, unless it is still referenced.\<close>

definition gc_del_obj :: "types \<Rightarrow> mem \<Rightarrow> u64 \<Rightarrow> u64 \<Rightarrow> (mem \<times> u64) option" where
  "gc_del_obj T m heap data = do {
     let gcs = m (gc_set heap);
     let tr = contents gcs 0;
     let m = m(refuse := 0);
     node \<leftarrow> avl_find m tr (data + 8) avl_basic_cmp;
     if node = 0 then Some (m, 0)
     else do {
       (m, q) \<leftarrow> queue m heap;
       m \<leftarrow> mark_tc T m heap q data 1;
       m \<leftarrow> gc_unmark T heap q m;
       (m, dead_count) \<leftarrow> sweep T m heap data refuse;
       m \<leftarrow> gc_dispose T heap tr m;
       m \<leftarrow> free m heap q;
       Some (m, dead_count) } }"

text \<open>The static variable \<^verbatim>\<open>gc_lim\<close> of \<^verbatim>\<open>check_heap_capacity\<close>.\<close>

definition gc_lim :: u64 where "gc_lim = 0x7fa00"

definition check_heap_capacity :: "types \<Rightarrow> mem \<Rightarrow> u64 \<Rightarrow> mem option" where
  "check_heap_capacity T m heap = do {
     let total_mem = sdiv64 (m (heap_end heap) - heap) 8;
     let n = 8;
     let ll = total_mem div n;
     let ul = ((n - 1) * ll) div 2;
     if m gc_lim \<le> m (words_used heap) then do {
       m \<leftarrow> gc_collect T m heap;
       Some (m(gc_lim := min_s (3 * max_s ll (m (words_used heap)) div 2) ul)) }
     else Some m }"

subsection \<open>Initialisation\<close>

definition no_types :: types where
  "no_types = \<lparr>num_type = 0, string_type = 0, array_type = 0, subarray_type = 0, set_type = 0,
     function_type = 0, cell_type = 0, bcode_type = 0\<rparr>"

definition count_type :: "mem \<Rightarrow> u64 \<Rightarrow> mem" where
  "count_type m t = m(refcount t := m (refcount t) + 1)"

definition init_types :: "mem \<Rightarrow> u64 \<Rightarrow> (mem \<times> types) option" where
  "init_types m heap = do {
     let T = no_types;
     (m, t) \<leftarrow> cstr_to_string T m heap (lit ''str'');
     let T = T\<lparr>string_type := t\<rparr>;
     let m = m(otype t := t);
     let m = m(refcount t := m (refcount t) + 2);
     (m, t) \<leftarrow> cstr_to_string T m heap (lit ''num'');
     let T = T\<lparr>num_type := t\<rparr>;
     let m = count_type m t;
     (m, t) \<leftarrow> cstr_to_string T m heap (lit ''arr'');
     let T = T\<lparr>array_type := t\<rparr>;
     let m = count_type m t;
     (m, t) \<leftarrow> cstr_to_string T m heap (lit ''sar'');
     let T = T\<lparr>subarray_type := t\<rparr>;
     let m = count_type m t;
     (m, t) \<leftarrow> cstr_to_string T m heap (lit ''set'');
     let T = T\<lparr>set_type := t\<rparr>;
     let m = count_type m t;
     (m, t) \<leftarrow> cstr_to_string T m heap (lit ''fun'');
     let T = T\<lparr>function_type := t\<rparr>;
     let m = count_type m t;
     (m, t) \<leftarrow> cstr_to_string T m heap (lit ''cel'');
     let T = T\<lparr>cell_type := t\<rparr>;
     let m = count_type m t;
     (m, t) \<leftarrow> cstr_to_string T m heap (lit ''bco'');
     let T = T\<lparr>bcode_type := t\<rparr>;
     Some (count_type m t, T) }"

text \<open>
  The first part of \<^verbatim>\<open>init_heap\<close>: the fields of the heap, and one free block with all the rest. The
  block is made the root before it is inserted, so the insertion finds it in the tree already;
  what remains of it is the initialisation of the node.
\<close>

definition heap_setup :: "mem \<Rightarrow> u64 \<Rightarrow> u64 \<Rightarrow> mem option" where
  "heap_setup m heap_start heap_sz = do {
     let m = m(heap_end heap_start := heap_start + 8 * heap_sz);
     let m = m(heap_prev heap_start := 0);
     let m = m(heap_next heap_start := 0);
     let m = m(fmds_ptr heap_start := heap_start + 8 * hds_sz);
     let m = m(true_num_alloced heap_start := 0);
     let m = m(gc_num_alloced heap_start := 0);
     let m = m(words_used heap_start := 0);
     (m, _) \<leftarrow> avl_insert_node m (fmds_ptr heap_start) (m (fmds_ptr heap_start)) (heap_sz - hds_sz)
        avl_basic_cmp;
     Some m }"

definition init_heap :: "mem \<Rightarrow> u64 \<Rightarrow> u64 \<Rightarrow> (mem \<times> u64 \<times> types) option" where
  "init_heap m heap_start heap_sz =
     (if heap_start mod 8 \<noteq> 0 then Some (m, 0, no_types)
      else if heap_sz < min_alloc_sz + hds_sz then Some (m, 0, no_types)
      else do {
        m \<leftarrow> heap_setup m heap_start heap_sz;
        let mem = heap_start + 8 * hds_sz;
        let sz = 1;
        (m, o1) \<leftarrow> alloc m heap_start (sz + obj_sz - 1);
        if mem = 0 then Some (m, 0, no_types)
        else do {
          let obj = o1 - 8;
          let m = m(refcount obj := 1);
          let m = m(osize obj := sz);
          let m = m(contents obj 0 := 0);
          let m = m(gc_set heap_start := obj);
          (m, T) \<leftarrow> init_types m heap_start;
          let m = m(otype (m (gc_set heap_start)) := set_type T);
          let m = m(refcount (set_type T) := m (refcount (set_type T)) + 1);
          Some (m, heap_start, T) } })"

end
