(* ===== verification/Avl_Tree.thy ===== *)
theory Avl_Tree
  imports Prelude "HOL-Library.Multiset"
begin

text \<open>
  The abstract counterpart of the AVL tree: trees whose nodes carry their address, balance and
  data, contexts (the path from the root to a place in the tree, innermost frame first), and the
  rebalancing of the code as functions on contexts. The theorems say that insertion and deletion
  keep the AVL invariant and change the inorder sequence of (address, data) pairs at one place.
\<close>

subsection \<open>Trees\<close>

datatype bal = Lh | Bal | Rh

datatype tree = Lf | Nd tree u64 bal u64 tree

fun root :: "tree \<Rightarrow> u64" where
  "root Lf = 0"
| "root (Nd l a b d r) = a"

fun rbal :: "tree \<Rightarrow> bal" where
  "rbal Lf = Bal"
| "rbal (Nd l a b d r) = b"

fun ht :: "tree \<Rightarrow> nat" where
  "ht Lf = 0"
| "ht (Nd l a b d r) = Suc (max (ht l) (ht r))"

fun inorder :: "tree \<Rightarrow> (u64 \<times> u64) list" where
  "inorder Lf = []"
| "inorder (Nd l a b d r) = inorder l @ (a, d) # inorder r"

fun addrs :: "tree \<Rightarrow> u64 list" where
  "addrs Lf = []"
| "addrs (Nd l a b d r) = a # addrs l @ addrs r"

definition balanced :: "bal \<Rightarrow> nat \<Rightarrow> nat \<Rightarrow> bool" where
  "balanced b hl hr = (case b of Lh \<Rightarrow> hl = Suc hr | Bal \<Rightarrow> hl = hr | Rh \<Rightarrow> hr = Suc hl)"

fun avl :: "tree \<Rightarrow> bool" where
  "avl Lf = True"
| "avl (Nd l a b d r) = (avl l \<and> avl r \<and> balanced b (ht l) (ht r))"

lemma set_addrs: "set (addrs t) = fst ` set (inorder t)"
  by (induction t) auto

lemma mset_addrs: "mset (addrs t) = mset (map fst (inorder t))"
  by (induction t) auto

lemma ht_0 [simp]: "ht t = 0 \<longleftrightarrow> t = Lf"
  by (cases t) auto

lemma ht_0' [simp]: "0 = ht t \<longleftrightarrow> t = Lf"
  by (cases t) auto

subsection \<open>Contexts\<close>

text \<open>\<open>FL a b d r\<close>: the hole is the left child of node \<open>a\<close>; \<open>FR l a b d\<close>: the right child.\<close>

datatype frame = FL u64 bal u64 tree | FR tree u64 bal u64

type_synonym ctx = "frame list"

fun cpar :: "ctx \<Rightarrow> u64" where
  "cpar [] = 0"
| "cpar (FL a b d r # C) = a"
| "cpar (FR l a b d # C) = a"

fun plug :: "ctx \<Rightarrow> tree \<Rightarrow> tree" where
  "plug [] t = t"
| "plug (FL a b d r # C) t = plug C (Nd t a b d r)"
| "plug (FR l a b d # C) t = plug C (Nd l a b d t)"

fun caddrs :: "ctx \<Rightarrow> u64 list" where
  "caddrs [] = []"
| "caddrs (FL a b d r # C) = a # addrs r @ caddrs C"
| "caddrs (FR l a b d # C) = a # addrs l @ caddrs C"

text \<open>The pairs before and after the hole.\<close>

fun before :: "ctx \<Rightarrow> (u64 \<times> u64) list" where
  "before [] = []"
| "before (FL a b d r # C) = before C"
| "before (FR l a b d # C) = before C @ inorder l @ [(a, d)]"

fun after :: "ctx \<Rightarrow> (u64 \<times> u64) list" where
  "after [] = []"
| "after (FL a b d r # C) = (a, d) # inorder r @ after C"
| "after (FR l a b d # C) = after C"

text \<open>The AVL invariant of a context whose hole stands for a tree of height \<open>h\<close>.\<close>

fun avlc :: "ctx \<Rightarrow> nat \<Rightarrow> bool" where
  "avlc [] h = True"
| "avlc (FL a b d r # C) h = (avl r \<and> balanced b h (ht r) \<and> avlc C (Suc (max h (ht r))))"
| "avlc (FR l a b d # C) h = (avl l \<and> balanced b (ht l) h \<and> avlc C (Suc (max (ht l) h)))"

lemma inorder_plug: "inorder (plug C t) = before C @ inorder t @ after C"
  by (induction C t rule: plug.induct) auto

lemma avl_plug: "avl (plug C t) \<longleftrightarrow> avl t \<and> avlc C (ht t)"
  by (induction C t rule: plug.induct) auto

lemma plug_eq_Lf [simp]: "plug C t = Lf \<longleftrightarrow> C = [] \<and> t = Lf"
  by (induction C t rule: plug.induct) auto

lemma plug_append: "plug (C @ D) t = plug D (plug C t)"
  by (induction C t rule: plug.induct) auto

lemma set_addrs_plug: "set (addrs (plug C t)) = set (caddrs C) \<union> set (addrs t)"
  by (induction C t rule: plug.induct) auto


subsection \<open>Rotations\<close>

text \<open>The rotations with the balances the code writes.\<close>

fun rotl :: "tree \<Rightarrow> tree" where
  "rotl (Nd A a ba da (Nd B c bc dc D)) =
     (if bc \<noteq> Bal then Nd (Nd A a Bal da B) c Bal dc D
      else Nd (Nd A a Rh da B) c Lh dc D)"
| "rotl t = t"

fun rotr :: "tree \<Rightarrow> tree" where
  "rotr (Nd (Nd A c bc dc B) a ba da D) =
     (if bc \<noteq> Bal then Nd A c Bal dc (Nd B a Bal da D)
      else Nd A c Rh dc (Nd B a Lh da D))"
| "rotr t = t"

fun rotlr :: "tree \<Rightarrow> tree" where
  "rotlr (Nd (Nd A c bc dc (Nd B e be de E)) a ba da D) =
     Nd (Nd A c (if be = Rh then Lh else Bal) dc B) e Bal de
        (Nd E a (if be = Lh then Rh else Bal) da D)"
| "rotlr t = t"

fun rotrl :: "tree \<Rightarrow> tree" where
  "rotrl (Nd A a ba da (Nd (Nd B e be de E) c bc dc D)) =
     Nd (Nd A a (if be = Rh then Lh else Bal) da B) e Bal de
        (Nd E c (if be = Lh then Rh else Bal) dc D)"
| "rotrl t = t"

lemma inorder_rotl [simp]: "inorder (rotl t) = inorder t"
  by (cases t rule: rotl.cases) auto

lemma inorder_rotr [simp]: "inorder (rotr t) = inorder t"
  by (cases t rule: rotr.cases) auto

lemma inorder_rotlr [simp]: "inorder (rotlr t) = inorder t"
  by (cases t rule: rotlr.cases) auto

lemma inorder_rotrl [simp]: "inorder (rotrl t) = inorder t"
  by (cases t rule: rotrl.cases) auto

subsection \<open>Rebalancing after an insertion\<close>

text \<open>\<open>ins_fix C t\<close>: the tree \<open>t\<close> in the hole of \<open>C\<close> has become one higher.\<close>

fun ins_fix :: "ctx \<Rightarrow> tree \<Rightarrow> tree" where
  "ins_fix [] t = t"
| "ins_fix (FL a b d r # C) t =
     (case b of
        Bal \<Rightarrow> ins_fix C (Nd t a Lh d r)
      | Rh \<Rightarrow> plug C (Nd t a Bal d r)
      | Lh \<Rightarrow> plug C (if rbal t = Lh then rotr (Nd t a b d r) else rotlr (Nd t a b d r)))"
| "ins_fix (FR l a b d # C) t =
     (case b of
        Bal \<Rightarrow> ins_fix C (Nd l a Rh d t)
      | Lh \<Rightarrow> plug C (Nd l a Bal d t)
      | Rh \<Rightarrow> plug C (if rbal t = Rh then rotl (Nd l a b d t) else rotrl (Nd l a b d t)))"

text \<open>
  The loop needs a child that is not balanced wherever a rotation may follow. It holds of the new
  leaf, whose parent was balanced, and of every subtree the loop passes.
\<close>

definition fix_ready :: "ctx \<Rightarrow> tree \<Rightarrow> bool" where
  "fix_ready C t \<longleftrightarrow> avl t \<and> t \<noteq> Lf \<and> (rbal t \<noteq> Bal \<or>
     (case C of FL a b d r # _ \<Rightarrow> b = Bal | FR l a b d # _ \<Rightarrow> b = Bal | [] \<Rightarrow> True))"

lemma inorder_ins_fix: "inorder (ins_fix C t) = before C @ inorder t @ after C"
  by (induction C t rule: ins_fix.induct) (auto simp: inorder_plug split: bal.splits)

lemma avl_ins_fix:
  "fix_ready C t \<Longrightarrow> ht t = Suc h \<Longrightarrow> avlc C h \<Longrightarrow> avl (ins_fix C t)"
proof (induction C t arbitrary: h rule: ins_fix.induct)
  case (1 t)
  then show ?case by (simp add: fix_ready_def)
next
  case (2 a b d r C t)
  show ?case
  proof (cases b)
    case Bal
    then show ?thesis using 2 
      by (auto simp: fix_ready_def balanced_def max_def split: if_splits)
  next
    case Rh
    then show ?thesis using 2 
      by (auto simp: fix_ready_def balanced_def max_def avl_plug split: if_splits)
  next
    case Lh
    then obtain tl ta tb td tr where t: "t = Nd tl ta tb td tr"
      using 2 by (cases t) (auto simp: fix_ready_def)
    show ?thesis using 2 t Lh
      by (cases tb; cases tr) 
        (auto simp: fix_ready_def balanced_def max_def avl_plug split: if_splits bal.splits)
  qed
next
  case (3 l a b d C t)
  show ?case
  proof (cases b)
    case Bal
    then show ?thesis using 3 
      by (auto simp: fix_ready_def balanced_def max_def split: if_splits)
  next
    case Lh
    then show ?thesis using 3 
      by (auto simp: fix_ready_def balanced_def max_def avl_plug split: if_splits)
  next
    case Rh
    then obtain tl ta tb td tr where t: "t = Nd tl ta tb td tr"
      using 3 by (cases t) (auto simp: fix_ready_def)
    show ?thesis using 3 t Rh
      by (cases tb; cases tl) 
        (auto simp: fix_ready_def balanced_def max_def avl_plug split: if_splits bal.splits)
  qed
qed

text \<open>
  The new leaf goes into the hole of \<open>C\<close>. Where its parent has another child the parent becomes
  balanced and the height does not change.
\<close>

fun ins_at :: "ctx \<Rightarrow> tree \<Rightarrow> tree" where
  "ins_at [] t = t"
| "ins_at (FL a b d r # C) t =
     (if r \<noteq> Lf then plug C (Nd t a Bal d r) else ins_fix (FL a b d r # C) t)"
| "ins_at (FR l a b d # C) t =
     (if l \<noteq> Lf then plug C (Nd l a Bal d t) else ins_fix (FR l a b d # C) t)"

lemma inorder_ins_at: "inorder (ins_at C t) = before C @ inorder t @ after C"
  by (cases "(C, t)" rule: ins_at.cases)
    (auto simp: inorder_plug inorder_ins_fix simp del: ins_fix.simps)

lemma fix_ready_leaf:
  "avlc (f # C) 0 \<Longrightarrow> (case f of FL a b e r \<Rightarrow> r | FR r a b e \<Rightarrow> r) = Lf \<Longrightarrow>
   fix_ready (f # C) (Nd Lf x Bal d Lf)"
  by (cases f) (auto simp: fix_ready_def balanced_def split: bal.splits)

lemma avl_ins_at: "avlc C 0 \<Longrightarrow> avl (ins_at C (Nd Lf x Bal d Lf))"
proof (cases C)
  case (Cons f D)
  assume c: "avlc C 0"
  have fix_step: "(case f of FL a b e r \<Rightarrow> r | FR r a b e \<Rightarrow> r) = Lf \<Longrightarrow>
      avl (ins_fix C (Nd Lf x Bal d Lf))"
    using c Cons fix_ready_leaf by (auto intro!: avl_ins_fix [where h = 0])
  show ?thesis
  proof (cases f)
    case (FL a b e r)
    then show ?thesis using c Cons fix_step
      by (cases b) (auto simp: avl_plug balanced_def max_def)
  next
    case (FR r a b e)
    then show ?thesis using c Cons fix_step
      by (cases b) (auto simp: avl_plug balanced_def max_def)
  qed
qed (simp add: balanced_def)

subsection \<open>Rebalancing after a deletion\<close>

text \<open>\<open>del_fix C t\<close>: the tree in the hole of \<open>C\<close> has become one lower and is now \<open>t\<close>.\<close>

fun del_fix :: "ctx \<Rightarrow> tree \<Rightarrow> tree" where
  "del_fix [] t = t"
| "del_fix (FL a b d r # C) t =
     (case b of
        Lh \<Rightarrow> del_fix C (Nd t a Bal d r)
      | Bal \<Rightarrow> plug C (Nd t a Rh d r)
      | Rh \<Rightarrow> (case rbal r of
          Lh \<Rightarrow> del_fix C (rotrl (Nd t a b d r))
        | Bal \<Rightarrow> plug C (rotl (Nd t a b d r))
        | Rh \<Rightarrow> del_fix C (rotl (Nd t a b d r))))"
| "del_fix (FR l a b d # C) t =
     (case b of
        Rh \<Rightarrow> del_fix C (Nd l a Bal d t)
      | Bal \<Rightarrow> plug C (Nd l a Lh d t)
      | Lh \<Rightarrow> (case rbal l of
          Rh \<Rightarrow> del_fix C (rotlr (Nd l a b d t))
        | Bal \<Rightarrow> plug C (rotr (Nd l a b d t))
        | Lh \<Rightarrow> del_fix C (rotr (Nd l a b d t))))"

lemma inorder_del_fix: "inorder (del_fix C t) = before C @ inorder t @ after C"
  by (induction C t rule: del_fix.induct) (auto simp: inorder_plug split: bal.splits)

lemma rot_left_heavy:
  assumes "avl l" "avl t" "ht l = Suc (Suc (ht t))"
  shows "rbal l = Rh \<Longrightarrow> avl (rotlr (Nd l a b d t)) \<and> ht (rotlr (Nd l a b d t)) = ht l"
    and "rbal l = Lh \<Longrightarrow> avl (rotr (Nd l a b d t)) \<and> ht (rotr (Nd l a b d t)) = ht l"
    and "rbal l = Bal \<Longrightarrow> avl (rotr (Nd l a b d t)) \<and> ht (rotr (Nd l a b d t)) = Suc (ht l)"
  using assms
  by (cases "(Nd l a b d t)" rule: rotlr.cases;
      auto simp: balanced_def max_def split: bal.splits if_splits)+

lemma rot_right_heavy:
  assumes "avl r" "avl t" "ht r = Suc (Suc (ht t))"
  shows "rbal r = Lh \<Longrightarrow> avl (rotrl (Nd t a b d r)) \<and> ht (rotrl (Nd t a b d r)) = ht r"
    and "rbal r = Rh \<Longrightarrow> avl (rotl (Nd t a b d r)) \<and> ht (rotl (Nd t a b d r)) = ht r"
    and "rbal r = Bal \<Longrightarrow> avl (rotl (Nd t a b d r)) \<and> ht (rotl (Nd t a b d r)) = Suc (ht r)"
  using assms
  by (cases "(Nd t a b d r)" rule: rotrl.cases;
      auto simp: balanced_def max_def split: bal.splits if_splits)+

lemma avl_del_fix: "avl t \<Longrightarrow> ht t = h \<Longrightarrow> avlc C (Suc h) \<Longrightarrow> avl (del_fix C t)"
proof (induction C t arbitrary: h rule: del_fix.induct)
  case (2 a b d r C t)
  show ?case
  proof (cases b)
    case Rh
    then have "avl r" "ht r = Suc (Suc (ht t))" using 2 by (auto simp: balanced_def)
    then show ?thesis using 2 Rh rot_right_heavy [of r t a Rh d]
      by (cases "rbal r") (auto simp: avl_plug max_def split: if_splits)
  next
    case Bal
    then show ?thesis using 2 by (auto simp: avl_plug balanced_def max_def)
  next
    case Lh
    then show ?thesis using 2 by (auto simp: avl_plug balanced_def max_def)
  qed
next
  case (3 l a b d C t)
  show ?case
  proof (cases b)
    case Lh
    then have "avl l" "ht l = Suc (Suc (ht t))" using 3 by (auto simp: balanced_def)
    then show ?thesis using 3 Lh rot_left_heavy [of l t a Lh d]
      by (cases "rbal l") (auto simp: avl_plug max_def split: if_splits)
  next
    case Bal
    then show ?thesis using 3 by (auto simp: avl_plug balanced_def max_def)
  next
    case Rh
    then show ?thesis using 3 by (auto simp: avl_plug balanced_def max_def)
  qed
qed simp

subsection \<open>Deletion\<close>

text \<open>
  The deleted node's place in the tree is \<open>C\<close>. As in the code the data of the successor moves into
  the node, and the successor's own node leaves the tree; its address is the second component.
\<close>

fun leftmost :: "tree \<Rightarrow> ctx \<Rightarrow> ctx \<times> tree" where
  "leftmost (Nd (Nd l' a' b' d' r') a b d r) C = leftmost (Nd l' a' b' d' r') (FL a b d r # C)"
| "leftmost t C = (C, t)"

fun del_at :: "ctx \<Rightarrow> tree \<Rightarrow> tree \<times> u64" where
  "del_at C Lf = (plug C Lf, 0)"
| "del_at C (Nd l a b d r) =
     (if r \<noteq> Lf then
        (case leftmost r [] of
           (D, Nd _ s bs ds sr) \<Rightarrow> (del_fix (D @ FR l a b ds # C) sr, s)
         | (D, Lf) \<Rightarrow> (plug C (Nd l a b d r), 0))
      else (case l of
           Nd _ s bs ds sr \<Rightarrow> (del_fix (FL a b ds Lf # C) sr, s)
         | Lf \<Rightarrow> (del_fix C Lf, a)))"

lemma leftmost_plug: "leftmost t C = (D, u) \<Longrightarrow> plug D u = plug C t"
  by (induction t C rule: leftmost.induct) auto

lemma leftmost_shape:
  "leftmost t C = (D, u) \<Longrightarrow> t \<noteq> Lf \<Longrightarrow> \<exists>s bs ds sr. u = Nd Lf s bs ds sr"
  by (induction t C rule: leftmost.induct) auto

lemma leftmost_before: "leftmost t C = (D, u) \<Longrightarrow> before D = before C"
  by (induction t C rule: leftmost.induct) auto

lemma before_append: "before (C @ D) = before D @ before C"
  by (induction C rule: before.induct) auto

lemma after_append: "after (C @ D) = after C @ after D"
  by (induction C rule: after.induct) auto

lemma leftmost_cases:
  assumes "r \<noteq> Lf"
  obtains D s bs ds sr where "leftmost r [] = (D, Nd Lf s bs ds sr)"
    and "plug D (Nd Lf s bs ds sr) = r" and "inorder r = (s, ds) # inorder sr @ after D"
    and "before D = []"
proof -
  obtain D u where lm: "leftmost r [] = (D, u)" by (cases "leftmost r []")
  with assms obtain s bs ds sr where u: "u = Nd Lf s bs ds sr"
    using leftmost_shape by blast
  have pl: "plug D u = r" using leftmost_plug [OF lm] by simp
  have bf: "before D = []" using leftmost_before [OF lm] by simp
  have "inorder r = (s, ds) # inorder sr @ after D"
    using inorder_plug [of D u] pl bf u by simp
  with lm u pl bf show thesis using that by simp
qed

text \<open>The pair of the deleted node and its neighbour are replaced by one pair.\<close>

lemma inorder_del_at_right:
  "r \<noteq> Lf \<Longrightarrow> inorder r = (s, ds) # ys \<Longrightarrow>
   inorder (fst (del_at C (Nd l a b d r))) = before C @ inorder l @ (a, ds) # ys @ after C
   \<and> snd (del_at C (Nd l a b d r)) = s"
  by (erule leftmost_cases) (auto simp: inorder_del_fix before_append after_append)

lemma inorder_del_at_left:
  "inorder (fst (del_at C (Nd (Nd Lf s bs ds sr) a b d Lf))) =
     before C @ inorder sr @ (a, ds) # after C"
  by (simp add: inorder_del_fix del: del_fix.simps)

lemma avl_left_leaf:
  "avl (Nd l a b d Lf) \<Longrightarrow> l = Lf \<or> (\<exists>s ds. l = Nd Lf s Bal ds Lf)"
  by (cases l) (auto simp: balanced_def split: bal.splits)

lemma avl_del_at:
  assumes "avl (plug C (Nd l a b d r))"
  shows "avl (fst (del_at C (Nd l a b d r)))"
proof (cases "r = Lf")
  case True
  then have "l = Lf \<or> (\<exists>s ds. l = Nd Lf s Bal ds Lf)"
    using assms avl_left_leaf by (auto simp: avl_plug)
  then show ?thesis using True assms
    by (auto simp: avl_plug balanced_def simp del: del_fix.simps split: bal.splits
        intro!: avl_del_fix)
next
  case False
  then obtain D s bs ds sr where lm: "leftmost r [] = (D, Nd Lf s bs ds sr)"
    and pl: "plug D (Nd Lf s bs ds sr) = r" by (rule leftmost_cases)
  have "avl (plug (D @ FR l a b ds # C) (Nd Lf s bs ds sr))"
    using assms pl by (simp add: plug_append avl_plug)
  then show ?thesis using False lm
    by (auto simp: avl_plug intro!: avl_del_fix)
qed

subsection \<open>Renaming a node\<close>

fun ren :: "u64 \<Rightarrow> u64 \<Rightarrow> tree \<Rightarrow> tree" where
  "ren x y Lf = Lf"
| "ren x y (Nd l a b d r) = Nd (ren x y l) (if a = x then y else a) b d (ren x y r)"

lemma ren_id: "x \<notin> set (addrs t) \<Longrightarrow> ren x y t = t"
  by (induction t) auto

lemma ht_ren [simp]: "ht (ren x y t) = ht t"
  by (induction t) auto

lemma avl_ren [simp]: "avl (ren x y t) = avl t"
  by (induction t) auto

lemma inorder_ren: "inorder (ren x y t) = map (\<lambda>(a, d). (if a = x then y else a, d)) (inorder t)"
  by (induction t) auto

lemma ren_plug:
  "x \<notin> set (caddrs C) \<Longrightarrow> ren x y (plug C t) = plug C (ren x y t)"
  by (induction C t rule: plug.induct) (auto simp: ren_id)

lemma in_addrs_plug:
  "a \<in> set (addrs t) \<Longrightarrow> \<exists>C l b d r. t = plug C (Nd l a b d r)"
proof (induction t)
  case (Nd l x b d r)
  have "a = x \<or> a \<in> set (addrs l) \<or> a \<in> set (addrs r)" using Nd.prems by auto
  then show ?case
  proof (elim disjE)
    assume "a = x"
    then have "Nd l x b d r = plug [] (Nd l a b d r)" by simp
    then show ?thesis by blast
  next
    assume "a \<in> set (addrs l)"
    then obtain C l' b' d' r' where "l = plug C (Nd l' a b' d' r')" using Nd.IH by blast
    then have "Nd l x b d r = plug (C @ [FL x b d r]) (Nd l' a b' d' r')"
      by (simp add: plug_append)
    then show ?thesis by blast
  next
    assume "a \<in> set (addrs r)"
    then obtain C l' b' d' r' where "r = plug C (Nd l' a b' d' r')" using Nd.IH by blast
    then have "Nd l x b d r = plug (C @ [FR l x b d]) (Nd l' a b' d' r')"
      by (simp add: plug_append)
    then show ?thesis by blast
  qed
qed simp

subsection \<open>Searching\<close>

text \<open>
  The path a comparison takes: \<open>c a d\<close> is the comparison's result for the node at \<open>a\<close> with data
  \<open>d\<close>. The result is the place where the descent ends, with an empty subtree or a node for which
  the comparison is 0.
\<close>

fun locate :: "(u64 \<Rightarrow> u64 \<Rightarrow> u64) \<Rightarrow> tree \<Rightarrow> ctx \<Rightarrow> ctx \<times> tree" where
  "locate c Lf C = (C, Lf)"
| "locate c (Nd l a b d r) C =
     (if c a d = -1 then locate c l (FL a b d r # C)
      else if c a d = 1 then locate c r (FR l a b d # C)
      else (C, Nd l a b d r))"

text \<open>
  A comparison is consistent with the inorder sequence when its values fall along it: first the
  elements to the right of which the search continues (1), then at most one equal element (0),
  then the elements to the left of which it continues (-1).
\<close>

definition cmp_ok :: "(u64 \<Rightarrow> u64 \<Rightarrow> u64) \<Rightarrow> (u64 \<times> u64) list \<Rightarrow> bool" where
  "cmp_ok c xs \<longleftrightarrow> (\<forall>(a, d) \<in> set xs. c a d = -1 \<or> c a d = 0 \<or> c a d = 1) \<and>
     sorted_wrt (\<lambda>(a, d) (a', d'). c a d = 1 \<or> c a' d' = -1) xs"

lemma locate_plug: "locate c t C = (D, u) \<Longrightarrow> plug D u = plug C t"
  by (induction c t C rule: locate.induct) (auto split: if_splits)

lemma locate_node: "locate c t C = (D, Nd l a b d r) \<Longrightarrow> c a d \<noteq> -1 \<and> c a d \<noteq> 1"
  by (induction c t C rule: locate.induct) (auto split: if_splits)

lemma cmp_ok_before:
  assumes "cmp_ok c (xs @ (a, d) # ys)" and "c a d \<noteq> -1"
  shows "\<forall>(a', d') \<in> set xs. c a' d' = 1"
  using assms by (auto simp: cmp_ok_def sorted_wrt_append)

lemma cmp_ok_after:
  assumes "cmp_ok c (xs @ (a, d) # ys)" and "c a d \<noteq> 1"
  shows "\<forall>(a', d') \<in> set ys. c a' d' = -1"
  using assms by (auto simp: cmp_ok_def sorted_wrt_append)

lemma one_neq_minus_one [simp]: "(1 :: u64) \<noteq> -1" "(-1 :: u64) \<noteq> 1"
  by simp_all

lemma locate_sides:
  assumes "locate c t C = (D, u)" "cmp_ok c (inorder (plug C t))"
    and "\<forall>(a, d) \<in> set (before C). c a d = 1" "\<forall>(a, d) \<in> set (after C). c a d = -1"
  shows "(\<forall>(a, d) \<in> set (before D). c a d = 1) \<and> (\<forall>(a, d) \<in> set (after D). c a d = -1)"
  using assms
proof (induction c t C arbitrary: D u rule: locate.induct)
  case (2 c l a b d r C)
  have ok: "cmp_ok c ((before C @ inorder l) @ (a, d) # (inorder r @ after C))"
    using 2 by (simp add: inorder_plug)
  show ?case
  proof (cases "c a d = -1")
    case True
    then have "\<forall>(a', d') \<in> set (inorder r @ after C). c a' d' = -1"
      using cmp_ok_after [OF ok] by simp
    with True 2 show ?thesis by (auto simp: inorder_plug)
  next
    case F1: False
    show ?thesis
    proof (cases "c a d = 1")
      case True
      then have "\<forall>(a', d') \<in> set (before C @ inorder l). c a' d' = 1"
        using cmp_ok_before [OF ok] by simp
      with True 2 show ?thesis by (auto simp: inorder_plug)
    next
      case False
      with F1 2 show ?thesis by simp
    qed
  qed
qed simp

text \<open>The search finds the element with comparison 0 exactly when there is one.\<close>

lemma locate_finds:
  assumes ok: "cmp_ok c (inorder t)" and l: "locate c t [] = (D, u)"
  shows "(\<exists>(a, d) \<in> set (inorder t). c a d = 0) \<longleftrightarrow> u \<noteq> Lf"
    and "u = Nd l a b d r \<Longrightarrow> c a d = 0"
proof -
  have sides: "(\<forall>(a, d) \<in> set (before D). c a d = 1) \<and> (\<forall>(a, d) \<in> set (after D). c a d = -1)"
    using locate_sides [OF l] ok by simp
  have pl: "inorder t = before D @ inorder u @ after D"
    using locate_plug [OF l] inorder_plug [of D u] by simp
  show z: "u = Nd l a b d r \<Longrightarrow> c a d = 0" for l a b d r
    using locate_node [of c t "[]" D l a b d r] l pl ok by (auto simp: cmp_ok_def)
  show "(\<exists>(a, d) \<in> set (inorder t). c a d = 0) \<longleftrightarrow> u \<noteq> Lf"
  proof (cases u)
    case Lf
    with pl sides show ?thesis by force
  next
    case (Nd l a b d r)
    with z pl show ?thesis by force
  qed
qed

end
