(* ===== verification/Avl_Mem.thy ===== *)
theory Avl_Mem
  imports Avl_Model Avl_Tree
begin

text \<open>
  When memory holds an abstract tree: the representation predicates for trees and contexts, and
  the automation for them. Two nodes are separate when their four words do not overlap; reading
  a field after a write to another field, or to a separate node, is a rewrite rule, and so is the
  fact that a tree survives writes to nodes separate from all of its own.
\<close>

subsection \<open>Tagged pointers\<close>

definition al :: "u64 \<Rightarrow> bool" where "al p \<longleftrightarrow> p AND 3 = 0"

definition okp :: "u64 \<Rightarrow> bool" where "okp p \<longleftrightarrow> p \<noteq> 0 \<and> al p"

fun bcode :: "bal \<Rightarrow> u64" where
  "bcode Lh = 2" | "bcode Bal = 3" | "bcode Rh = 1"

fun bval :: "bal \<Rightarrow> u64" where
  "bval Lh = -1" | "bval Bal = 0" | "bval Rh = 1"

lemma bcode_mask [simp]: "bcode b AND 3 = bcode b"
  by (cases b) simp_all

lemma ptr_mask_not: "ptr_mask = NOT 3"
  by code_simp

lemma bcode_ptr_mask [simp]: "bcode b AND ptr_mask = 0"
  by (cases b) (simp_all add: ptr_mask_not)

lemma al_0 [simp]: "al 0"
  by (simp add: al_def)

lemma not_okp_0 [simp]: "\<not> okp 0"
  by (simp add: okp_def)

lemma okp_neq0 [simp]: "okp p \<Longrightarrow> p \<noteq> 0"
  by (simp add: okp_def)

lemma okp_al [simp]: "okp p \<Longrightarrow> al p"
  by (simp add: okp_def)

lemma mask3_or_ptr_mask: "(3 :: u64) OR ptr_mask = -1"
  by (simp add: ptr_mask_not)

lemma al_ptr_mask: "al p \<Longrightarrow> p AND ptr_mask = p"
proof -
  assume "al p"
  have "p = p AND (3 OR ptr_mask)" by (simp add: mask3_or_ptr_mask)
  also have "\<dots> = (p AND 3) OR (p AND ptr_mask)"
    by (rule bit.conj_disj_distrib)
  finally show ?thesis using \<open>al p\<close> by (simp add: al_def)
qed

lemma tag_mask [simp]: "al p \<Longrightarrow> (p OR bcode b) AND 3 = bcode b"
  by (simp add: bit.conj_disj_distrib2 al_def)

lemma tag_ptr [simp]: "al p \<Longrightarrow> (p OR bcode b) AND ptr_mask = p"
  by (simp add: bit.conj_disj_distrib2 al_ptr_mask)

lemma rev_balance_factor_bval [simp]: "rev_balance_factor (bval b) = bcode b"
  by (cases b) (simp_all add: rev_balance_factor_def)

lemma rev_balance_factor_lits [simp]:
  "rev_balance_factor 0 = bcode Bal" "rev_balance_factor 1 = bcode Rh"
  "rev_balance_factor (-1) = bcode Lh"
  by (simp_all add: rev_balance_factor_def)

lemma bval_decode: "(if bcode b = 1 then bcode b else bcode b - 3) = bval b"
  by (cases b) simp_all

lemma bval_eq [simp]:
  "bval b = 0 \<longleftrightarrow> b = Bal" "bval b = 1 \<longleftrightarrow> b = Rh" "bval b = -1 \<longleftrightarrow> b = Lh"
  by (cases b; simp)+

subsection \<open>Footprints and separation\<close>

definition foot :: "u64 \<Rightarrow> u64 set" where "foot a = {a, a + 8, a + 16, a + 24}"

definition sep :: "u64 \<Rightarrow> u64 \<Rightarrow> bool" where "sep a b \<longleftrightarrow> foot a \<inter> foot b = {}"

definition sepl :: "u64 \<Rightarrow> u64 list \<Rightarrow> bool" where "sepl x xs \<longleftrightarrow> (\<forall>y \<in> set xs. sep x y)"

definition seps :: "u64 list \<Rightarrow> u64 list \<Rightarrow> bool" where
  "seps xs ys \<longleftrightarrow> (\<forall>x \<in> set xs. sepl x ys)"

definition outl :: "u64 \<Rightarrow> u64 list \<Rightarrow> bool" where "outl t xs \<longleftrightarrow> (\<forall>a \<in> set xs. t \<notin> foot a)"

text \<open>A list of nodes is well formed for the root cell \<open>tr\<close>.\<close>

fun wfl :: "u64 \<Rightarrow> u64 list \<Rightarrow> bool" where
  "wfl tr [] = True"
| "wfl tr (x # xs) = (okp x \<and> tr \<notin> foot x \<and> sepl x xs \<and> wfl tr xs)"

lemma sep_commute: "sep a b = sep b a"
  by (auto simp: sep_def)

lemma sep_irrefl [simp]: "\<not> sep a a"
  by (auto simp: sep_def foot_def)

lemma sep_neq: "sep a b \<Longrightarrow> a \<noteq> b"
  by auto

lemma sepl_simps [simp]:
  "sepl x []" "sepl x (y # ys) \<longleftrightarrow> sep x y \<and> sepl x ys"
  "sepl x (xs @ ys) \<longleftrightarrow> sepl x xs \<and> sepl x ys"
  by (auto simp: sepl_def)

lemma seps_simps [simp]:
  "seps [] ys" "seps (x # xs) ys \<longleftrightarrow> sepl x ys \<and> seps xs ys"
  "seps (xs @ zs) ys \<longleftrightarrow> seps xs ys \<and> seps zs ys"
  "seps ys []" "seps ys (x # xs) \<longleftrightarrow> sepl x ys \<and> seps ys xs"
  "seps ys (xs @ zs) \<longleftrightarrow> seps ys xs \<and> seps ys zs"
  by (auto simp: seps_def sepl_def sep_commute)

lemma seps_commute: "seps xs ys = seps ys xs"
  unfolding seps_def sepl_def using sep_commute by blast

lemma outl_simps [simp]:
  "outl t []" "outl t (x # xs) \<longleftrightarrow> t \<notin> foot x \<and> outl t xs"
  "outl t (xs @ ys) \<longleftrightarrow> outl t xs \<and> outl t ys"
  by (auto simp: outl_def)

lemma wfl_append [simp]: "wfl tr (xs @ ys) \<longleftrightarrow> wfl tr xs \<and> wfl tr ys \<and> seps xs ys"
  by (induction xs) auto

lemma wfl_outl [simp]: "wfl tr xs \<Longrightarrow> outl tr xs"
  by (induction xs) auto

lemma sepl_notin: "sepl x xs \<Longrightarrow> x \<notin> set xs"
  by (auto simp: sepl_def)

lemma wfl_okp: "wfl tr xs \<Longrightarrow> x \<in> set xs \<Longrightarrow> okp x"
  by (induction xs) auto

lemma wfl_distinct: "wfl tr xs \<Longrightarrow> distinct xs"
  by (induction xs) (auto dest: sepl_notin)

lemma wfl_set:
  "wfl tr xs \<longleftrightarrow> distinct xs \<and> (\<forall>x \<in> set xs. okp x \<and> tr \<notin> foot x) \<and>
     (\<forall>x \<in> set xs. \<forall>y \<in> set xs. x \<noteq> y \<longrightarrow> sep x y)"
  by (induction xs) (auto simp: sepl_def sep_commute)

lemma wfl_perm: "set xs = set ys \<Longrightarrow> distinct ys \<Longrightarrow> wfl tr xs \<Longrightarrow> wfl tr ys"
  by (simp add: wfl_set)

lemma wfl_mset:
  assumes "mset xs = mset ys"
  shows "wfl tr xs = wfl tr ys"
  using mset_eq_setD [OF assms] mset_eq_imp_distinct_iff [OF assms] by (simp add: wfl_set)

lemma wfl_inorder: "inorder t = inorder u \<Longrightarrow> wfl tr (addrs t @ xs) = wfl tr (addrs u @ xs)"
  by (intro wfl_mset) (simp add: mset_addrs)

lemma set_addrs_inorder: "inorder t = inorder u \<Longrightarrow> set (addrs t) = set (addrs u)"
  by (simp add: set_addrs)

subsection \<open>Reading after writing\<close>

lemmas nd_defs = nd_prev_def nd_left_def nd_right_def nd_data_def
  set_nd_prev_def set_nd_left_def set_nd_right_def set_nd_data_def

lemma nd_same [mem_simps, simp]:
  "nd_prev (set_nd_prev m p v) p = v" "nd_left (set_nd_prev m p v) p = nd_left m p"
  "nd_right (set_nd_prev m p v) p = nd_right m p" "nd_data (set_nd_prev m p v) p = nd_data m p"
  "nd_prev (set_nd_left m p v) p = nd_prev m p" "nd_left (set_nd_left m p v) p = v"
  "nd_right (set_nd_left m p v) p = nd_right m p" "nd_data (set_nd_left m p v) p = nd_data m p"
  "nd_prev (set_nd_right m p v) p = nd_prev m p" "nd_left (set_nd_right m p v) p = nd_left m p"
  "nd_right (set_nd_right m p v) p = v" "nd_data (set_nd_right m p v) p = nd_data m p"
  "nd_prev (set_nd_data m p v) p = nd_prev m p" "nd_left (set_nd_data m p v) p = nd_left m p"
  "nd_right (set_nd_data m p v) p = nd_right m p" "nd_data (set_nd_data m p v) p = v"
  by (simp_all add: nd_defs)

lemma cell_other [mem_simps, simp]:
  "t \<notin> foot p \<Longrightarrow> set_nd_prev m p v t = m t" "t \<notin> foot p \<Longrightarrow> set_nd_left m p v t = m t"
  "t \<notin> foot p \<Longrightarrow> set_nd_right m p v t = m t" "t \<notin> foot p \<Longrightarrow> set_nd_data m p v t = m t"
  by (auto simp: nd_defs foot_def)

lemma nd_cell [mem_simps, simp]:
  "t \<notin> foot p \<Longrightarrow> nd_prev (m(t := v)) p = nd_prev m p"
  "t \<notin> foot p \<Longrightarrow> nd_left (m(t := v)) p = nd_left m p"
  "t \<notin> foot p \<Longrightarrow> nd_right (m(t := v)) p = nd_right m p"
  "t \<notin> foot p \<Longrightarrow> nd_data (m(t := v)) p = nd_data m p"
  by (auto simp: nd_defs foot_def)

lemma nd_eq_foot:
  assumes "\<forall>x \<in> foot p. m' x = m x"
  shows "nd_prev m' p = nd_prev m p" "nd_left m' p = nd_left m p"
    "nd_right m' p = nd_right m p" "nd_data m' p = nd_data m p"
  using assms by (auto simp: nd_defs foot_def)

lemma sep_foot: "sep p q \<Longrightarrow> x \<in> foot p \<Longrightarrow> x \<notin> foot q"
  by (auto simp: sep_def)

lemma nd_other [mem_simps, simp]:
  assumes "sep p q"
  shows "nd_prev (set_nd_prev m q v) p = nd_prev m p" "nd_left (set_nd_prev m q v) p = nd_left m p"
  "nd_right (set_nd_prev m q v) p = nd_right m p" "nd_data (set_nd_prev m q v) p = nd_data m p"
  "nd_prev (set_nd_left m q v) p = nd_prev m p" "nd_left (set_nd_left m q v) p = nd_left m p"
  "nd_right (set_nd_left m q v) p = nd_right m p" "nd_data (set_nd_left m q v) p = nd_data m p"
  "nd_prev (set_nd_right m q v) p = nd_prev m p" "nd_left (set_nd_right m q v) p = nd_left m p"
  "nd_right (set_nd_right m q v) p = nd_right m p" "nd_data (set_nd_right m q v) p = nd_data m p"
  "nd_prev (set_nd_data m q v) p = nd_prev m p" "nd_left (set_nd_data m q v) p = nd_left m p"
  "nd_right (set_nd_data m q v) p = nd_right m p" "nd_data (set_nd_data m q v) p = nd_data m p"
  using sep_foot [OF assms] by (intro nd_eq_foot; simp)+

lemma set_nd_prev_twice [simp]: "set_nd_prev (set_nd_prev m p v) p w = set_nd_prev m p w"
  by (simp add: nd_defs)

subsection \<open>Trees and contexts in memory\<close>

fun tree_at :: "mem \<Rightarrow> u64 \<Rightarrow> tree \<Rightarrow> bool" where
  "tree_at m par Lf = True"
| "tree_at m par (Nd l a b d r) =
     (nd_prev m a = (par OR bcode b) \<and> nd_left m a = root l \<and> nd_right m a = root r \<and>
      nd_data m a = d \<and> tree_at m a l \<and> tree_at m a r)"

fun ctx_at :: "mem \<Rightarrow> u64 \<Rightarrow> ctx \<Rightarrow> u64 \<Rightarrow> bool" where
  "ctx_at m tr [] p = (m tr = p)"
| "ctx_at m tr (FL a b d r # C) p =
     (nd_prev m a = (cpar C OR bcode b) \<and> nd_left m a = p \<and> nd_right m a = root r \<and>
      nd_data m a = d \<and> tree_at m a r \<and> ctx_at m tr C a)"
| "ctx_at m tr (FR l a b d # C) p =
     (nd_prev m a = (cpar C OR bcode b) \<and> nd_left m a = root l \<and> nd_right m a = p \<and>
      nd_data m a = d \<and> tree_at m a l \<and> ctx_at m tr C a)"

text \<open>The root cell \<open>tr\<close> holds the tree \<open>t\<close>.\<close>

definition tree_in :: "mem \<Rightarrow> u64 \<Rightarrow> tree \<Rightarrow> bool" where
  "tree_in m tr t \<longleftrightarrow> m tr = root t \<and> tree_at m 0 t \<and> wfl tr (addrs t)"

lemma tree_at_frame:
  "\<forall>a \<in> set (addrs t). \<forall>x \<in> foot a. m' x = m x \<Longrightarrow> tree_at m' par t = tree_at m par t"
  by (induction t arbitrary: par) (simp_all add: nd_eq_foot [where m = m and m' = m'] ball_Un)

lemma sepl_out: "sepl q xs \<Longrightarrow> \<forall>a \<in> set xs. \<forall>x \<in> foot a. x \<notin> foot q"
  by (auto simp: sepl_def sep_def)

lemma tree_at_write [mem_simps, simp]:
  assumes "sepl q (addrs t)"
  shows "tree_at (set_nd_prev m q v) par t = tree_at m par t"
    "tree_at (set_nd_left m q v) par t = tree_at m par t"
    "tree_at (set_nd_right m q v) par t = tree_at m par t"
    "tree_at (set_nd_data m q v) par t = tree_at m par t"
  using sepl_out [OF assms] by (intro tree_at_frame; simp)+

lemma tree_at_cell [mem_simps, simp]:
  "outl t (addrs u) \<Longrightarrow> tree_at (m(t := v)) par u = tree_at m par u"
  by (intro tree_at_frame) (auto simp: outl_def)

lemma ctx_at_frame:
  "\<forall>a \<in> set (caddrs C). \<forall>x \<in> foot a. m' x = m x \<Longrightarrow> m' tr = m tr \<Longrightarrow>
   ctx_at m' tr C p = ctx_at m tr C p"
  by (induction C arbitrary: p rule: caddrs.induct)
    (simp_all add: nd_eq_foot [where m = m and m' = m'] tree_at_frame [where m = m and m' = m'] ball_Un)

lemma ctx_at_write [mem_simps, simp]:
  assumes "sepl q (caddrs C)" and "tr \<notin> foot q"
  shows "ctx_at (set_nd_prev m q v) tr C p = ctx_at m tr C p"
    "ctx_at (set_nd_left m q v) tr C p = ctx_at m tr C p"
    "ctx_at (set_nd_right m q v) tr C p = ctx_at m tr C p"
    "ctx_at (set_nd_data m q v) tr C p = ctx_at m tr C p"
  using sepl_out [OF assms(1)] assms(2) by (intro ctx_at_frame; simp)+

lemma root_neq0: "wfl tr (addrs t) \<Longrightarrow> root t = 0 \<longleftrightarrow> t = Lf"
  by (cases t) auto

lemma root_sep: "sepl x (addrs t) \<Longrightarrow> x \<noteq> 0 \<Longrightarrow> root t \<noteq> x"
  by (cases t) auto

text \<open>A tree in a context is the tree of the whole.\<close>

lemma tree_in_plug:
  "tree_at m 0 (plug C t) \<and> m tr = root (plug C t) \<longleftrightarrow>
   tree_at m (cpar C) t \<and> ctx_at m tr C (root t)"
  by (induction C t rule: plug.induct) auto

lemma wfl_plug: "wfl tr (addrs (plug C t)) \<longleftrightarrow> wfl tr (addrs t @ caddrs C)"
proof (induction C t rule: plug.induct)
  case (2 a b d r C t)
  then show ?case by (auto simp: seps_commute sep_commute)
next
  case (3 l a b d C t)
  then show ?case by (auto simp: seps_commute sep_commute)
qed simp

lemma tree_in_zip:
  "tree_in m tr (plug C t) \<longleftrightarrow>
   tree_at m (cpar C) t \<and> ctx_at m tr C (root t) \<and> wfl tr (addrs t @ caddrs C)"
  unfolding tree_in_def wfl_plug using tree_in_plug [of m C t tr] by auto

end
