(* ===== verification/Avl_Rotate.thy ===== *)
theory Avl_Rotate
  imports Avl_Mem
begin

text \<open>
  The rotations and the relinking of a subtree under its parent, on memory: each writes exactly
  the abstract rotation, in any context, and nothing outside the nodes of the tree and the root
  cell.
\<close>

subsection \<open>Frames\<close>

text \<open>\<open>m'\<close> differs from \<open>m\<close> at most in the root cell and the nodes \<open>xs\<close>.\<close>

definition frame_eq :: "u64 \<Rightarrow> u64 list \<Rightarrow> mem \<Rightarrow> mem \<Rightarrow> bool" where
  "frame_eq tr xs m m' \<longleftrightarrow> (\<forall>x. x \<noteq> tr \<longrightarrow> (\<forall>a \<in> set xs. x \<notin> foot a) \<longrightarrow> m' x = m x)"

lemma frame_refl [simp]: "frame_eq tr xs m m"
  by (simp add: frame_eq_def)

lemma frame_trans: "frame_eq tr xs m m' \<Longrightarrow> frame_eq tr xs m' m'' \<Longrightarrow> frame_eq tr xs m m''"
  by (simp add: frame_eq_def)

lemma frame_set: "set xs \<subseteq> set ys \<Longrightarrow> frame_eq tr xs m m' \<Longrightarrow> frame_eq tr ys m m'"
  by (auto simp: frame_eq_def)

lemma frame_write [simp]:
  assumes "q \<in> set xs"
  shows "frame_eq tr xs m (set_nd_prev m' q v) \<longleftrightarrow> frame_eq tr xs m m'"
    "frame_eq tr xs m (set_nd_left m' q v) \<longleftrightarrow> frame_eq tr xs m m'"
    "frame_eq tr xs m (set_nd_right m' q v) \<longleftrightarrow> frame_eq tr xs m m'"
    "frame_eq tr xs m (set_nd_data m' q v) \<longleftrightarrow> frame_eq tr xs m m'"
    "frame_eq tr xs m (m'(tr := v)) \<longleftrightarrow> frame_eq tr xs m m'"
  using assms by (auto simp: frame_eq_def)

lemma frame_cell [simp]: "frame_eq tr xs m (m'(tr := v)) \<longleftrightarrow> frame_eq tr xs m m'"
  by (auto simp: frame_eq_def)

subsection \<open>Relinking the hole of a context\<close>

fun relink :: "mem \<Rightarrow> u64 \<Rightarrow> ctx \<Rightarrow> u64 \<Rightarrow> mem" where
  "relink m tr [] q = m(tr := q)"
| "relink m tr (FL a b d r # C) q = set_nd_left m a q"
| "relink m tr (FR l a b d # C) q = set_nd_right m a q"

lemma cpar_al [simp]: "wfl tr (caddrs C) \<Longrightarrow> al (cpar C)"
  by (cases C rule: caddrs.cases) auto

lemma cpar_eq0: "wfl tr (caddrs C) \<Longrightarrow> cpar C = 0 \<longleftrightarrow> C = []"
  by (cases C rule: caddrs.cases) auto

text \<open>The code's choice between the parent's two links and the root cell.\<close>

lemma relink_code:
  assumes "ctx_at m tr C p" "wfl tr (caddrs C)" "sepl p (caddrs C)" "p \<noteq> 0"
    and "\<And>x. sepl x (caddrs C) \<Longrightarrow> tr \<notin> foot x \<Longrightarrow> nd_left m' x = nd_left m x"
    and "cpar C \<noteq> 0 \<Longrightarrow> nd_left m' (cpar C) = nd_left m (cpar C)"
  shows "(if cpar C \<noteq> 0 then
            (if nd_left m' (cpar C) = p then set_nd_left m' (cpar C) q
             else set_nd_right m' (cpar C) q)
          else m'(tr := q)) = relink m' tr C q"
  using assms root_sep [of p] by (cases C rule: caddrs.cases) auto

lemma ctx_at_relink [simp]:
  "ctx_at m tr C p \<Longrightarrow> wfl tr (caddrs C) \<Longrightarrow> ctx_at (relink m tr C q) tr C q"
  by (cases C rule: caddrs.cases) auto

lemma nd_relink [simp]:
  assumes "sepl x (caddrs C)" "tr \<notin> foot x"
  shows "nd_prev (relink m tr C q) x = nd_prev m x" "nd_left (relink m tr C q) x = nd_left m x"
    "nd_right (relink m tr C q) x = nd_right m x" "nd_data (relink m tr C q) x = nd_data m x"
  using assms by (cases C rule: caddrs.cases; simp)+

lemma tree_at_relink [simp]:
  "seps (addrs t) (caddrs C) \<Longrightarrow> outl tr (addrs t) \<Longrightarrow>
   tree_at (relink m tr C q) par t = tree_at m par t"
  by (cases C rule: caddrs.cases) auto

lemma frame_relink [simp]:
  "set (caddrs C) \<subseteq> set xs \<Longrightarrow> frame_eq tr xs m (relink m' tr C q) = frame_eq tr xs m m'"
  by (cases C rule: caddrs.cases) auto

text \<open>A subtree gets a new parent.\<close>

definition reparent :: "mem \<Rightarrow> u64 \<Rightarrow> u64 \<Rightarrow> mem" where
  "reparent m c q = (if c \<noteq> 0 then set_nd_prev m c (q OR get_balance_factor m c) else m)"

lemma reparent_code:
  "(if c \<noteq> 0 then set_nd_prev m c (q OR get_balance_factor m c) else m) = reparent m c q"
  by (simp add: reparent_def)

lemma tree_at_reparent [simp]:
  "tree_at m par t \<Longrightarrow> al par \<Longrightarrow> wfl tr (addrs t) \<Longrightarrow> tree_at (reparent m (root t) q) q t"
  by (cases t) (auto simp: reparent_def get_balance_factor_def)

lemma nd_reparent [simp]:
  assumes "sepl x (addrs t)"
  shows "nd_prev (reparent m (root t) q) x = nd_prev m x"
    "nd_left (reparent m (root t) q) x = nd_left m x"
    "nd_right (reparent m (root t) q) x = nd_right m x"
    "nd_data (reparent m (root t) q) x = nd_data m x"
  using assms by (cases t; simp add: reparent_def)+

lemma tree_at_reparent_other [simp]:
  "seps (addrs u) (addrs t) \<Longrightarrow> tree_at (reparent m (root t) q) par u = tree_at m par u"
  by (cases t) (auto simp: reparent_def)

lemma ctx_at_reparent [simp]:
  "seps (addrs t) (caddrs C) \<Longrightarrow> outl tr (addrs t) \<Longrightarrow>
   ctx_at (reparent m (root t) q) tr C p = ctx_at m tr C p"
  by (cases t) (auto simp: reparent_def)

lemma cell_reparent [simp]:
  "outl x (addrs t) \<Longrightarrow> reparent m (root t) q x = m x"
  by (cases t) (auto simp: reparent_def)

lemma frame_reparent [simp]:
  "set (addrs t) \<subseteq> set xs \<Longrightarrow> frame_eq tr xs m (reparent m' (root t) q) = frame_eq tr xs m m'"
  by (cases t) (auto simp: reparent_def)

lemma balance_factor_tag:
  "nd_prev m a = par OR bcode b \<Longrightarrow> al par \<Longrightarrow> a \<noteq> 0 \<Longrightarrow> balance_factor m a = bval b"
  using bval_decode [of b] by (simp add: balance_factor_def get_balance_factor_def Let_def)

lemma balance_factor_tree:
  "tree_at m par t \<Longrightarrow> al par \<Longrightarrow> wfl tr (addrs t) \<Longrightarrow> balance_factor m (root t) = bval (rbal t)"
  by (cases t) (auto simp: balance_factor_tag, simp add: balance_factor_def)

lemma get_parent_tag:
  "nd_prev m a = par OR bcode b \<Longrightarrow> al par \<Longrightarrow> a \<noteq> 0 \<Longrightarrow> get_parent m a = par"
  by (simp add: get_parent_def)

lemma set_balance_factor_tag:
  "nd_prev m a = par OR bcode b \<Longrightarrow> al par \<Longrightarrow> a \<noteq> 0 \<Longrightarrow>
   fst (set_balance_factor m a x) = set_nd_prev m a (par OR rev_balance_factor x)"
  by (simp add: set_balance_factor_def Let_def)

subsection \<open>Single rotations\<close>

lemma avl_rotate_left_mem:
  assumes c: "ctx_at m tr C a" and t: "tree_at m (cpar C) (Nd A a ba da (Nd B c bc dc D))"
    and wf: "wfl tr (addrs (Nd A a ba da (Nd B c bc dc D)) @ caddrs C)"
  defines "t' \<equiv> rotl (Nd A a ba da (Nd B c bc dc D))"
  shows "\<exists>m'. avl_rotate_left m tr a = (m', c) \<and> ctx_at m' tr C c \<and> tree_at m' (cpar C) t' \<and>
    frame_eq tr (addrs t' @ caddrs C) m m'"
proof -
  let ?m1 = "reparent m (root B) a"
  let ?m2 = "relink ?m1 tr C c"
  have par: "get_parent ?m1 a = cpar C"
    using t wf by (intro get_parent_tag [where b = ba]) auto
  have link: "(if cpar C \<noteq> 0 then
            (if nd_left ?m1 (cpar C) = a then set_nd_left ?m1 (cpar C) c
             else set_nd_right ?m1 (cpar C) c)
          else ?m1(tr := c)) = ?m2"
    using c wf by (intro relink_code [where m = ?m1]) auto
  have bfc: "balance_factor ?m2 c = bval bc"
    using t wf by (intro balance_factor_tag [where par = a]) auto
  have nds: "nd_right m a = c" "nd_left m c = root B" "c \<noteq> 0" "a \<noteq> 0" "nd_left ?m2 c = root B"
    and al: "al a" "al c"
    using t wf by auto
  let ?m5 = "set_nd_prev (set_nd_prev (set_nd_left (set_nd_right ?m2 a (root B)) c a)
      a (c OR bcode (if bc \<noteq> Bal then Bal else Rh)))
      c (cpar C OR bcode (if bc \<noteq> Bal then Bal else Lh))"
  have "avl_rotate_left m tr a = (?m5, c)"
    unfolding avl_rotate_left_def
    by (simp only: Let_def nds if_False reparent_code par link bfc) (simp add: nds)
  moreover have "ctx_at ?m5 tr C c"
    using c wf by simp
  moreover have "tree_at ?m5 (cpar C) t'"
    using t wf al tree_at_reparent [of m c B tr a] 
    by (simp add: t'_def sep_commute [of c a] seps_commute [of "addrs D" "addrs B"])
  moreover have "frame_eq tr (addrs t' @ caddrs C) m ?m5"
  proof -
    have "set (addrs B) \<subseteq> set (addrs t' @ caddrs C)" "set (caddrs C) \<subseteq> set (addrs t' @ caddrs C)"
      "a \<in> set (addrs t' @ caddrs C)" "c \<in> set (addrs t' @ caddrs C)"
      by (auto simp: t'_def)
    then show ?thesis by (simp del: set_append)
  qed
  ultimately show ?thesis by blast
qed

lemma avl_rotate_right_mem:
  assumes c: "ctx_at m tr C a" and t: "tree_at m (cpar C) (Nd (Nd D c bc dc B) a ba da A)"
    and wf: "wfl tr (addrs (Nd (Nd D c bc dc B) a ba da A) @ caddrs C)"
  defines "t' \<equiv> rotr (Nd (Nd D c bc dc B) a ba da A)"
  shows "\<exists>m'. avl_rotate_right m tr a = (m', c) \<and> ctx_at m' tr C c \<and> tree_at m' (cpar C) t' \<and>
    frame_eq tr (addrs t' @ caddrs C) m m'"
proof -
  let ?m1 = "reparent m (root B) a"
  let ?m2 = "relink ?m1 tr C c"
  have par: "get_parent ?m1 a = cpar C"
    using t wf by (intro get_parent_tag [where b = ba]) auto
  have link: "(if cpar C \<noteq> 0 then
            (if nd_left ?m1 (cpar C) = a then set_nd_left ?m1 (cpar C) c
             else set_nd_right ?m1 (cpar C) c)
          else ?m1(tr := c)) = ?m2"
    using c wf by (intro relink_code [where m = ?m1]) auto
  have bfc: "balance_factor ?m2 c = bval bc"
    using t wf by (intro balance_factor_tag [where par = a]) auto
  have nds: "nd_left m a = c" "nd_right m c = root B" "c \<noteq> 0" "a \<noteq> 0" "nd_right ?m2 c = root B"
    and al: "al a" "al c"
    using t wf by auto
  let ?m5 = "set_nd_prev (set_nd_prev (set_nd_right (set_nd_left ?m2 a (root B)) c a)
      a (c OR bcode (if bc \<noteq> Bal then Bal else Lh)))
      c (cpar C OR bcode (if bc \<noteq> Bal then Bal else Rh))"
  have "avl_rotate_right m tr a = (?m5, c)"
    unfolding avl_rotate_right_def
    by (simp only: Let_def nds if_False reparent_code par link bfc) (simp add: nds)
  moreover have "ctx_at ?m5 tr C c"
    using c wf by simp
  moreover have "tree_at ?m5 (cpar C) t'"
    using t wf al tree_at_reparent [of m c B tr a] 
    by (simp add: t'_def sep_commute [of c a] seps_commute [of "addrs A" "addrs B"])
  moreover have "frame_eq tr (addrs t' @ caddrs C) m ?m5"
  proof -
    have "set (addrs B) \<subseteq> set (addrs t' @ caddrs C)" "set (caddrs C) \<subseteq> set (addrs t' @ caddrs C)"
      "a \<in> set (addrs t' @ caddrs C)" "c \<in> set (addrs t' @ caddrs C)"
      by (auto simp: t'_def)
    then show ?thesis by (simp del: set_append)
  qed
  ultimately show ?thesis by blast
qed

subsection \<open>Double rotations\<close>

lemma avl_rotate_lr_mem:
  assumes c: "ctx_at m tr C a"
    and t: "tree_at m (cpar C) (Nd (Nd A c bc dc (Nd B e be de E)) a ba da D)"
    and wf: "wfl tr (addrs (Nd (Nd A c bc dc (Nd B e be de E)) a ba da D) @ caddrs C)"
  defines "t' \<equiv> rotlr (Nd (Nd A c bc dc (Nd B e be de E)) a ba da D)"
  shows "\<exists>m'. avl_rotate_lr m tr a = (m', e) \<and> ctx_at m' tr C e \<and> tree_at m' (cpar C) t' \<and>
    frame_eq tr (addrs t' @ caddrs C) m m'"
proof -
  let ?C1 = "FL a ba da D # C" and ?u = "Nd A c bc dc (Nd B e be de E)"
  obtain b1 b2 where u': "rotl ?u = Nd (Nd A c b1 dc B) e b2 de E"
    by (cases "be = Bal") auto
  let ?v = "Nd (Nd (Nd A c b1 dc B) e b2 de E) a ba da D"
  obtain b3 b4 where v': "rotr ?v = Nd (Nd A c b1 dc B) e b3 de (Nd E a b4 da D)"
    by (cases "b2 = Bal") auto
  have "\<exists>m1. avl_rotate_left m tr c = (m1, e) \<and> ctx_at m1 tr ?C1 e \<and>
      tree_at m1 (cpar ?C1) (rotl ?u) \<and> frame_eq tr (addrs (rotl ?u) @ caddrs ?C1) m m1"
    using c t wf by (intro avl_rotate_left_mem) (auto simp: sep_commute seps_commute)
  then obtain m1 where m1: "avl_rotate_left m tr c = (m1, e)" "ctx_at m1 tr ?C1 e"
    "tree_at m1 a (Nd (Nd A c b1 dc B) e b2 de E)"
    and fr1: "frame_eq tr (addrs (Nd (Nd A c b1 dc B) e b2 de E) @ caddrs ?C1) m m1"
    unfolding u' by auto
  have "\<exists>m2. avl_rotate_right m1 tr a = (m2, e) \<and> ctx_at m2 tr C e \<and>
      tree_at m2 (cpar C) (rotr ?v) \<and> frame_eq tr (addrs (rotr ?v) @ caddrs C) m1 m2"
    using m1 wf by (intro avl_rotate_right_mem) (auto simp: sep_commute seps_commute)
  then obtain m2 where m2: "avl_rotate_right m1 tr a = (m2, e)" "ctx_at m2 tr C e"
    "tree_at m2 (cpar C) (Nd (Nd A c b1 dc B) e b3 de (Nd E a b4 da D))"
    and fr2: "frame_eq tr (addrs (Nd (Nd A c b1 dc B) e b3 de (Nd E a b4 da D)) @ caddrs C) m1 m2"
    unfolding v' by auto
  have nds: "nd_left m a = c" "nd_right m c = e" and bf: "balance_factor m e = bval be"
    using t wf by (auto intro!: balance_factor_tag [where par = c])
  define x where "x = (if be = Rh then Lh else Bal)"
  define y where "y = (if be = Lh then Rh else Bal)"
  let ?m3 = "if be = Lh then set_nd_prev (set_nd_prev m2 a (e OR bcode y)) c (e OR bcode x)
    else set_nd_prev (set_nd_prev m2 c (e OR bcode x)) a (e OR bcode y)"
  let ?m4 = "set_nd_prev ?m3 e (cpar C OR bcode Bal)"
  have sbf: "nd_prev mm c = nd_prev m2 c \<Longrightarrow>
      fst (set_balance_factor mm c z) = set_nd_prev mm c (e OR rev_balance_factor z)"
    "nd_prev mm a = nd_prev m2 a \<Longrightarrow>
      fst (set_balance_factor mm a z) = set_nd_prev mm a (e OR rev_balance_factor z)"
    "nd_prev mm e = nd_prev m2 e \<Longrightarrow>
      fst (set_balance_factor mm e z) = set_nd_prev mm e (cpar C OR rev_balance_factor z)"
    for mm z
    using m2 wf by (auto intro!: set_balance_factor_tag)
  have seps_ace: "sep c a" "sep a c" "sep e a" "sep e c" "sep a e" "sep c e"
    using wf by (auto simp: sep_commute)
  have gp: "nd_prev mm a = e OR bcode b \<Longrightarrow> get_parent mm a = e" for mm b
    using wf by (auto intro!: get_parent_tag)
  have gpa: "get_parent ?m3 a = e"
    using seps_ace by (intro gp [where b = y]) simp
  have "avl_rotate_lr m tr a = (?m4, e)"
    using gpa seps_ace unfolding avl_rotate_lr_def Let_def nds m1(1) bf prod.case m2(1)
    by (cases be) (simp_all add: sbf x_def y_def)
  moreover have "ctx_at ?m4 tr C e"
    using m2(2) wf by simp
  moreover have "tree_at ?m4 (cpar C) t'"
    using m2(3) wf seps_ace by (simp add: t'_def x_def y_def sep_commute seps_commute)
  moreover have "frame_eq tr (addrs t' @ caddrs C) m ?m4"
  proof -
    have "frame_eq tr (addrs t' @ caddrs C) m m1"
      by (rule frame_set [OF _ fr1]) (auto simp: t'_def)
    moreover have "frame_eq tr (addrs t' @ caddrs C) m1 m2"
      by (rule frame_set [OF _ fr2]) (auto simp: t'_def)
    moreover have "a \<in> set (addrs t' @ caddrs C)" "c \<in> set (addrs t' @ caddrs C)"
      "e \<in> set (addrs t' @ caddrs C)" by (auto simp: t'_def)
    ultimately show ?thesis by (auto simp del: set_append intro: frame_trans)
  qed
  ultimately show ?thesis by blast
qed

lemma avl_rotate_rl_mem:
  assumes c: "ctx_at m tr C a"
    and t: "tree_at m (cpar C) (Nd D a ba da (Nd (Nd E e be de B) c bc dc A))"
    and wf: "wfl tr (addrs (Nd D a ba da (Nd (Nd E e be de B) c bc dc A)) @ caddrs C)"
  defines "t' \<equiv> rotrl (Nd D a ba da (Nd (Nd E e be de B) c bc dc A))"
  shows "\<exists>m'. avl_rotate_rl m tr a = (m', e) \<and> ctx_at m' tr C e \<and> tree_at m' (cpar C) t' \<and>
    frame_eq tr (addrs t' @ caddrs C) m m'"
proof -
  let ?C1 = "FR D a ba da # C" and ?u = "Nd (Nd E e be de B) c bc dc A"
  obtain b1 b2 where u': "rotr ?u = Nd E e b2 de (Nd B c b1 dc A)"
    by (cases "be = Bal") auto
  let ?v = "Nd D a ba da (Nd E e b2 de (Nd B c b1 dc A))"
  obtain b3 b4 where v': "rotl ?v = Nd (Nd D a b4 da E) e b3 de (Nd B c b1 dc A)"
    by (cases "b2 = Bal") auto
  have "\<exists>m1. avl_rotate_right m tr c = (m1, e) \<and> ctx_at m1 tr ?C1 e \<and>
      tree_at m1 (cpar ?C1) (rotr ?u) \<and> frame_eq tr (addrs (rotr ?u) @ caddrs ?C1) m m1"
    using c t wf by (intro avl_rotate_right_mem) (auto simp: sep_commute seps_commute)
  then obtain m1 where m1: "avl_rotate_right m tr c = (m1, e)" "ctx_at m1 tr ?C1 e"
    "tree_at m1 a (Nd E e b2 de (Nd B c b1 dc A))"
    and fr1: "frame_eq tr (addrs (Nd E e b2 de (Nd B c b1 dc A)) @ caddrs ?C1) m m1"
    unfolding u' by auto
  have "\<exists>m2. avl_rotate_left m1 tr a = (m2, e) \<and> ctx_at m2 tr C e \<and>
      tree_at m2 (cpar C) (rotl ?v) \<and> frame_eq tr (addrs (rotl ?v) @ caddrs C) m1 m2"
    using m1 wf by (intro avl_rotate_left_mem) (auto simp: sep_commute seps_commute)
  then obtain m2 where m2: "avl_rotate_left m1 tr a = (m2, e)" "ctx_at m2 tr C e"
    "tree_at m2 (cpar C) (Nd (Nd D a b4 da E) e b3 de (Nd B c b1 dc A))"
    and fr2: "frame_eq tr (addrs (Nd (Nd D a b4 da E) e b3 de (Nd B c b1 dc A)) @ caddrs C) m1 m2"
    unfolding v' by auto
  have nds: "nd_right m a = c" "nd_left m c = e" and bf: "balance_factor m e = bval be"
    using t wf by (auto intro!: balance_factor_tag [where par = c])
  define x where "x = (if be = Lh then Rh else Bal)"
  define y where "y = (if be = Rh then Lh else Bal)"
  let ?m3 = "if be = Rh then set_nd_prev (set_nd_prev m2 a (e OR bcode y)) c (e OR bcode x)
    else set_nd_prev (set_nd_prev m2 c (e OR bcode x)) a (e OR bcode y)"
  let ?m4 = "set_nd_prev ?m3 e (cpar C OR bcode Bal)"
  have sbf: "nd_prev mm c = nd_prev m2 c \<Longrightarrow>
      fst (set_balance_factor mm c z) = set_nd_prev mm c (e OR rev_balance_factor z)"
    "nd_prev mm a = nd_prev m2 a \<Longrightarrow>
      fst (set_balance_factor mm a z) = set_nd_prev mm a (e OR rev_balance_factor z)"
    "nd_prev mm e = nd_prev m2 e \<Longrightarrow>
      fst (set_balance_factor mm e z) = set_nd_prev mm e (cpar C OR rev_balance_factor z)"
    for mm z
    using m2 wf by (auto intro!: set_balance_factor_tag)
  have seps_ace: "sep c a" "sep a c" "sep e a" "sep e c" "sep a e" "sep c e"
    using wf by (auto simp: sep_commute)
  have gp: "nd_prev mm a = e OR bcode b \<Longrightarrow> get_parent mm a = e" for mm b
    using wf by (auto intro!: get_parent_tag)
  have gpa: "get_parent ?m3 a = e"
    using seps_ace by (intro gp [where b = y]) simp
  have "avl_rotate_rl m tr a = (?m4, e)"
    using gpa seps_ace unfolding avl_rotate_rl_def Let_def nds m1(1) bf prod.case m2(1)
    by (cases be) (simp_all add: sbf x_def y_def)
  moreover have "ctx_at ?m4 tr C e"
    using m2(2) wf by simp
  moreover have "tree_at ?m4 (cpar C) t'"
    using m2(3) wf seps_ace by (simp add: t'_def x_def y_def sep_commute seps_commute)
  moreover have "frame_eq tr (addrs t' @ caddrs C) m ?m4"
  proof -
    have "frame_eq tr (addrs t' @ caddrs C) m m1"
      by (rule frame_set [OF _ fr1]) (auto simp: t'_def)
    moreover have "frame_eq tr (addrs t' @ caddrs C) m1 m2"
      by (rule frame_set [OF _ fr2]) (auto simp: t'_def)
    moreover have "a \<in> set (addrs t' @ caddrs C)" "c \<in> set (addrs t' @ caddrs C)"
      "e \<in> set (addrs t' @ caddrs C)" by (auto simp: t'_def)
    ultimately show ?thesis by (auto simp del: set_append intro: frame_trans)
  qed
  ultimately show ?thesis by blast
qed

end
