(* ===== verification/Avl_Insert.thy ===== *)
theory Avl_Insert
  imports Avl_Rotate
begin

text \<open>
  Searching and inserting on memory. The insertion of the code, run on memory that holds an AVL
  tree, returns; the memory then holds the tree of the abstract insertion.
\<close>

subsection \<open>Retracing\<close>

lemma insert_fix_rotate_left_side:
  assumes c: "ctx_at m tr (FL a Lh d r # C) (root t)" and t: "tree_at m a t"
    and wf: "wfl tr (addrs t @ caddrs (FL a Lh d r # C))"
    and av: "avl t" "rbal t \<noteq> Bal"
  shows "\<exists>m'. avl_insert_fix m tr (root t) a = Some m' \<and>
    tree_in m' tr (ins_fix (FL a Lh d r # C) t) \<and> frame_eq tr (addrs t @ caddrs (FL a Lh d r # C)) m m'"
proof -
  let ?u = "Nd t a Lh d r"
  have nds: "nd_left m a = root t" "a \<noteq> 0" and bfa: "balance_factor m a = -1"
    and bft: "balance_factor m (root t) = bval (rbal t)"
    using c wf t balance_factor_tag [of m a "cpar C" Lh] balance_factor_tree [of m a t tr] by auto
  have u: "tree_at m (cpar C) ?u" "ctx_at m tr C a" "wfl tr (addrs ?u @ caddrs C)"
    using c t wf by (auto simp: sep_commute seps_commute)
  have unf: "avl_insert_fix m tr (root t) a = Some (fst
      (if rbal t = Lh then avl_rotate_right m tr a else avl_rotate_lr m tr a))"
    by (subst avl_insert_fix.simps) (simp add: nds bfa bft Let_def)
  have "\<exists>m' p. (if rbal t = Lh then avl_rotate_right m tr a else avl_rotate_lr m tr a) = (m', p) \<and>
     ctx_at m' tr C (root (if rbal t = Lh then rotr ?u else rotlr ?u)) \<and>
     tree_at m' (cpar C) (if rbal t = Lh then rotr ?u else rotlr ?u) \<and>
     frame_eq tr (addrs (if rbal t = Lh then rotr ?u else rotlr ?u) @ caddrs C) m m'"
  proof (cases "rbal t")
    case Lh
    then obtain A x e B where "t = Nd A x Lh e B" by (cases t) auto
    with u avl_rotate_right_mem [of m tr C a A x Lh e B Lh d r] Lh show ?thesis by auto
  next
    case Rh
    then obtain A x e B1 y b f B2 where "t = Nd A x Rh e (Nd B1 y b f B2)"
      using av by (cases t; cases "case t of Nd A x b e B \<Rightarrow> B") (auto simp: balanced_def)
    with u avl_rotate_lr_mem [of m tr C a A x Rh e B1 y b f B2 Lh d r] Rh show ?thesis by auto
  qed (use av in simp)
  moreover define u' where "u' = (if rbal t = Lh then rotr ?u else rotlr ?u)"
  ultimately obtain m' p where
    r: "(if rbal t = Lh then avl_rotate_right m tr a else avl_rotate_lr m tr a) = (m', p)"
      "ctx_at m' tr C (root u')" "tree_at m' (cpar C) u'"
    and fr: "frame_eq tr (addrs u' @ caddrs C) m m'" by auto
  have io: "inorder u' = inorder ?u" by (simp add: u'_def del: inorder.simps)
  have "wfl tr (addrs u' @ caddrs C)"
    using u(3) wfl_inorder [OF io, of tr "caddrs C"] by simp
  then have "tree_in m' tr (plug C u')"
    using r by (simp add: tree_in_zip)
  moreover have "frame_eq tr (addrs t @ caddrs (FL a Lh d r # C)) m m'"
    by (rule frame_set [OF _ fr]) (auto simp: set_addrs_inorder [OF io])
  moreover have "avl_insert_fix m tr (root t) a = Some m'"
    using unf r(1) by simp
  ultimately show ?thesis by (auto simp: u'_def)
qed

lemma insert_fix_rotate_right_side:
  assumes c: "ctx_at m tr (FR l a Rh d # C) (root t)" and t: "tree_at m a t"
    and wf: "wfl tr (addrs t @ caddrs (FR l a Rh d # C))"
    and av: "avl t" "rbal t \<noteq> Bal"
  shows "\<exists>m'. avl_insert_fix m tr (root t) a = Some m' \<and>
    tree_in m' tr (ins_fix (FR l a Rh d # C) t) \<and> frame_eq tr (addrs t @ caddrs (FR l a Rh d # C)) m m'"
proof -
  let ?u = "Nd l a Rh d t"
  have nl: "nd_left m a \<noteq> root t"
    using c wf av by (cases t; cases l) auto
  have nds: "nd_right m a = root t" "a \<noteq> 0" and bfa: "balance_factor m a = 1"
    and bft: "balance_factor m (root t) = bval (rbal t)"
    using c wf t balance_factor_tag [of m a "cpar C" Rh] balance_factor_tree [of m a t tr] by auto
  have u: "tree_at m (cpar C) ?u" "ctx_at m tr C a" "wfl tr (addrs ?u @ caddrs C)"
    using c t wf by (auto simp: sep_commute seps_commute)
  have unf: "avl_insert_fix m tr (root t) a = Some (fst
      (if rbal t = Rh then avl_rotate_left m tr a else avl_rotate_rl m tr a))"
    using nl by (subst avl_insert_fix.simps) (simp add: nds bfa bft Let_def)
  have "\<exists>m' p. (if rbal t = Rh then avl_rotate_left m tr a else avl_rotate_rl m tr a) = (m', p) \<and>
     ctx_at m' tr C (root (if rbal t = Rh then rotl ?u else rotrl ?u)) \<and>
     tree_at m' (cpar C) (if rbal t = Rh then rotl ?u else rotrl ?u) \<and>
     frame_eq tr (addrs (if rbal t = Rh then rotl ?u else rotrl ?u) @ caddrs C) m m'"
  proof (cases "rbal t")
    case Rh
    then obtain A x e B where "t = Nd A x Rh e B" by (cases t) auto
    with u avl_rotate_left_mem [of m tr C a l Rh d A x Rh e B] Rh show ?thesis by auto
  next
    case Lh
    then obtain B x e A1 y b f A2 where "t = Nd (Nd A1 y b f A2) x Lh e B"
      using av by (cases t; cases "case t of Nd A x b e B \<Rightarrow> A") (auto simp: balanced_def)
    with u avl_rotate_rl_mem [of m tr C a l Rh d A1 y b f A2 x Lh e B] Lh show ?thesis by auto
  qed (use av in simp)
  moreover define u' where "u' = (if rbal t = Rh then rotl ?u else rotrl ?u)"
  ultimately obtain m' p where
    r: "(if rbal t = Rh then avl_rotate_left m tr a else avl_rotate_rl m tr a) = (m', p)"
      "ctx_at m' tr C (root u')" "tree_at m' (cpar C) u'"
    and fr: "frame_eq tr (addrs u' @ caddrs C) m m'" by auto
  have io: "inorder u' = inorder ?u" by (simp add: u'_def del: inorder.simps)
  have "wfl tr (addrs u' @ caddrs C)"
    using u(3) wfl_inorder [OF io, of tr "caddrs C"] by simp
  then have "tree_in m' tr (plug C u')"
    using r by (simp add: tree_in_zip)
  moreover have "frame_eq tr (addrs t @ caddrs (FR l a Rh d # C)) m m'"
    by (rule frame_set [OF _ fr]) (auto simp: set_addrs_inorder [OF io])
  moreover have "avl_insert_fix m tr (root t) a = Some m'"
    using unf r(1) by simp
  ultimately show ?thesis by (auto simp: u'_def)
qed

lemma avl_insert_fix_mem:
  assumes "ctx_at m tr C (root t)" "tree_at m (cpar C) t" "wfl tr (addrs t @ caddrs C)"
    and "fix_ready C t" "ht t = Suc h" "avlc C h"
  shows "\<exists>m'. avl_insert_fix m tr (root t) (cpar C) = Some m' \<and>
    tree_in m' tr (ins_fix C t) \<and> frame_eq tr (addrs t @ caddrs C) m m'"
  using assms
proof (induction C t arbitrary: m h rule: ins_fix.induct)
  case (1 t)
  then show ?case using tree_in_zip [of m tr "[]" t]
    by (subst avl_insert_fix.simps) auto
next
  case (2 a b d r C t)
  have nds: "nd_left m a = root t" "a \<noteq> 0" and bfa: "balance_factor m a = bval b"
    and sbf: "fst (set_balance_factor m a z) = set_nd_prev m a (cpar C OR rev_balance_factor z)"
    for z
    using 2 balance_factor_tag [of m a "cpar C" b] set_balance_factor_tag [of m a "cpar C" b]
    by auto
  let ?m1 = "\<lambda>b. set_nd_prev m a (cpar C OR bcode b)"
  have u: "tree_at (?m1 b') (cpar C) (Nd t a b' d r)" "ctx_at (?m1 b') tr C a"
    "wfl tr (addrs (Nd t a b' d r) @ caddrs C)" for b'
    using 2 by (auto simp: sep_commute seps_commute)
  have fr: "frame_eq tr (addrs t @ caddrs (FL a b d r # C)) m (?m1 b')" for b' by simp
  have gp: "get_parent (?m1 b') a = cpar C" for b'
    using 2 by (intro get_parent_tag [where b = b']) auto
  show ?case
  proof (cases b)
    case Lh
    then show ?thesis using 2 insert_fix_rotate_left_side [of m tr a d r C t]
      by (auto simp: fix_ready_def simp del: ins_fix.simps)
  next
    case Bal
    have ex: "\<exists>m'. avl_insert_fix (?m1 Lh) tr (root (Nd t a Lh d r)) (cpar C) = Some m' \<and>
       tree_in m' tr (ins_fix C (Nd t a Lh d r)) \<and>
       frame_eq tr (addrs (Nd t a Lh d r) @ caddrs C) (?m1 Lh) m'"
      using u [of Lh] 2 Bal
      by (intro "2.IH" [where h = "Suc (max h (ht r))"])
        (auto simp: fix_ready_def balanced_def max_def)
    have unf: "avl_insert_fix m tr (root t) a = avl_insert_fix (?m1 Lh) tr a (cpar C)"
      using Bal gp [of Lh] by (subst avl_insert_fix.simps)
        (simp add: nds bfa Let_def sbf)
    from ex obtain m' where m': "avl_insert_fix (?m1 Lh) tr (root (Nd t a Lh d r)) (cpar C) = Some m'"
      "tree_in m' tr (ins_fix C (Nd t a Lh d r))"
      and f2: "frame_eq tr (addrs (Nd t a Lh d r) @ caddrs C) (?m1 Lh) m'" by blast
    have "frame_eq tr (addrs t @ caddrs (FL a b d r # C)) (?m1 Lh) m'"
      by (rule frame_set [OF _ f2]) auto
    with m' unf Bal frame_trans [OF fr this] show ?thesis by simp
  next
    case Rh
    have "avl_insert_fix m tr (root t) a = Some (?m1 Bal)"
      using Rh by (subst avl_insert_fix.simps) (simp add: nds bfa Let_def sbf)
    moreover have "tree_in (?m1 Bal) tr (plug C (Nd t a Bal d r))"
      using u [of Bal] by (simp add: tree_in_zip)
    ultimately show ?thesis using Rh fr by auto
  qed
next
  case (3 l a b d C t)
  have nl: "root t \<noteq> nd_left m a"
    using 3 by (cases t; cases l) (auto simp: fix_ready_def)
  have nds: "nd_right m a = root t" "a \<noteq> 0" and bfa: "balance_factor m a = bval b"
    and sbf: "fst (set_balance_factor m a z) = set_nd_prev m a (cpar C OR rev_balance_factor z)"
    for z
    using 3 balance_factor_tag [of m a "cpar C" b] set_balance_factor_tag [of m a "cpar C" b]
    by auto
  let ?m1 = "\<lambda>b. set_nd_prev m a (cpar C OR bcode b)"
  have u: "tree_at (?m1 b') (cpar C) (Nd l a b' d t)" "ctx_at (?m1 b') tr C a"
    "wfl tr (addrs (Nd l a b' d t) @ caddrs C)" for b'
    using 3 by (auto simp: sep_commute seps_commute)
  have fr: "frame_eq tr (addrs t @ caddrs (FR l a b d # C)) m (?m1 b')" for b' by simp
  have gp: "get_parent (?m1 b') a = cpar C" for b'
    using 3 by (intro get_parent_tag [where b = b']) auto
  show ?case
  proof (cases b)
    case Rh
    then show ?thesis using 3 insert_fix_rotate_right_side [of m tr l a d C t]
      by (auto simp: fix_ready_def simp del: ins_fix.simps)
  next
    case Bal
    have ex: "\<exists>m'. avl_insert_fix (?m1 Rh) tr (root (Nd l a Rh d t)) (cpar C) = Some m' \<and>
       tree_in m' tr (ins_fix C (Nd l a Rh d t)) \<and>
       frame_eq tr (addrs (Nd l a Rh d t) @ caddrs C) (?m1 Rh) m'"
      using u [of Rh] 3 Bal
      by (intro "3.IH" [where h = "Suc (max (ht l) h)"])
        (auto simp: fix_ready_def balanced_def max_def)
    have unf: "avl_insert_fix m tr (root t) a = avl_insert_fix (?m1 Rh) tr a (cpar C)"
      using Bal gp [of Rh] nl by (subst avl_insert_fix.simps)
        (simp add: nds bfa Let_def sbf)
    from ex obtain m' where m': "avl_insert_fix (?m1 Rh) tr (root (Nd l a Rh d t)) (cpar C) = Some m'"
      "tree_in m' tr (ins_fix C (Nd l a Rh d t))"
      and f2: "frame_eq tr (addrs (Nd l a Rh d t) @ caddrs C) (?m1 Rh) m'" by blast
    have "frame_eq tr (addrs t @ caddrs (FR l a b d # C)) (?m1 Rh) m'"
      by (rule frame_set [OF _ f2]) auto
    with m' unf Bal frame_trans [OF fr this] show ?thesis by simp
  next
    case Lh
    have "avl_insert_fix m tr (root t) a = Some (?m1 Bal)"
      using Lh nl by (subst avl_insert_fix.simps) (simp add: nds bfa Let_def sbf)
    moreover have "tree_in (?m1 Bal) tr (plug C (Nd l a Bal d t))"
      using u [of Bal] by (simp add: tree_in_zip)
    ultimately show ?thesis using Lh fr by auto
  qed
qed

subsection \<open>Searching\<close>

text \<open>The side on which the hole of a context hangs, as the code's comparison value.\<close>

fun side :: "ctx \<Rightarrow> u64" where
  "side [] = 0"
| "side (FL a b d r # C) = -1"
| "side (FR l a b d # C) = 1"

lemma side_0 [simp]: "side C = 0 \<longleftrightarrow> C = []"
  by (cases C rule: side.cases) auto

text \<open>\<open>cmp\<close> is \<open>c\<close> on the nodes of a tree, with values -1, 0 and 1 only.\<close>

definition cmp_is :: "cmp \<Rightarrow> mem \<Rightarrow> u64 \<Rightarrow> (u64 \<Rightarrow> u64 \<Rightarrow> u64) \<Rightarrow> (u64 \<times> u64) list \<Rightarrow> bool" where
  "cmp_is cmp m node c xs \<longleftrightarrow>
     (\<forall>(a, d) \<in> set xs. cmp m a node = c a d \<and> (c a d = -1 \<or> c a d = 0 \<or> c a d = 1))"

lemma cmp_is_append [simp]:
  "cmp_is cmp m node c []" "cmp_is cmp m node c (xs @ ys) \<longleftrightarrow>
     cmp_is cmp m node c xs \<and> cmp_is cmp m node c ys"
  "cmp_is cmp m node c ((a, d) # xs) \<longleftrightarrow> cmp m a node = c a d \<and>
     (c a d = -1 \<or> c a d = 0 \<or> c a d = 1) \<and> cmp_is cmp m node c xs"
  by (auto simp: cmp_is_def)

lemma avl_descend_mem:
  "tree_at m par t \<Longrightarrow> wfl tr (addrs t) \<Longrightarrow> cmp_is cmp m node c (inorder t) \<Longrightarrow>
   locate c t C = (D, u) \<Longrightarrow>
   avl_descend cmp m (root t) node (cpar C) (side C) =
     Some (if u = Lf then (cpar D, side D) else (root u, 0))"
proof (induction t arbitrary: C par)
  case Lf
  then show ?case by (subst avl_descend.simps) auto
next
  case (Nd l a b d r)
  then have nds: "a \<noteq> 0" "nd_left m a = root l" "nd_right m a = root r" "cmp m a node = c a d"
    by auto
  consider "c a d = -1" | "c a d = 1" | "c a d = 0" using Nd.prems by auto
  then show ?case
  proof cases
    case 1
    then show ?thesis using Nd nds Nd.IH(1) [of a "FL a b d r # C"]
      by (subst avl_descend.simps) auto
  next
    case 2
    then show ?thesis using Nd nds Nd.IH(2) [of a "FR l a b d # C"]
      by (subst avl_descend.simps) auto
  next
    case 3
    then show ?thesis using Nd nds by (subst avl_descend.simps) auto
  qed
qed

lemma avl_find_loop_mem:
  "tree_at m par t \<Longrightarrow> wfl tr (addrs t) \<Longrightarrow> cmp_is cmp m node c (inorder t) \<Longrightarrow> t \<noteq> Lf \<Longrightarrow>
   locate c t C = (D, u) \<Longrightarrow>
   avl_find_loop cmp m (root t) node = Some (root u)"
proof (induction t arbitrary: C par)
  case (Nd l a b d r)
  then have nds: "a \<noteq> 0" "nd_left m a = root l" "nd_right m a = root r" "cmp m a node = c a d"
    by auto
  consider "c a d = -1" | "c a d = 1" | "c a d = 0" using Nd.prems by auto
  then show ?case
  proof cases
    case 1
    then show ?thesis using Nd nds Nd.IH(1) [of a "FL a b d r # C"]
      by (subst avl_find_loop.simps) (cases l; auto)
  next
    case 2
    then show ?thesis using Nd nds Nd.IH(2) [of a "FR l a b d # C"]
      by (subst avl_find_loop.simps) (cases r; auto)
  next
    case 3
    then show ?thesis using Nd nds by (subst avl_find_loop.simps) auto
  qed
qed simp

text \<open>The memory in which \<open>avl_find\<close> compares: the node on the stack holds the data sought.\<close>

definition find_mem :: "mem \<Rightarrow> u64 \<Rightarrow> mem" where
  "find_mem m data = set_nd_data (set_nd_right (set_nd_left (set_nd_prev m find_node 0)
     find_node 0) find_node 0) find_node data"

lemma avl_find_mem:
  assumes "tree_in m tr t" "sepl find_node (addrs t)" "locate c t [] = (D, u)"
    and "cmp_is cmp (find_mem m data) find_node c (inorder t)"
  shows "avl_find m tr data cmp = Some (root u)"
proof (cases "t = Lf")
  case True
  with assms show ?thesis by (simp add: avl_find_def tree_in_def)
next
  case False
  have "tree_at (find_mem m data) 0 t" "wfl tr (addrs t)" "m tr = root t"
    using assms by (auto simp: tree_in_def find_mem_def)
  with False assms avl_find_loop_mem [of "find_mem m data" 0 t tr] show ?thesis
    by (simp add: avl_find_def find_mem_def root_neq0)
qed

subsection \<open>Inserting a node\<close>

definition init_node :: "mem \<Rightarrow> u64 \<Rightarrow> u64 \<Rightarrow> mem" where
  "init_node m x data =
     set_nd_data (set_nd_right (set_nd_left (set_nd_prev m x 3) x 0) x 0) x data"

lemma nd_init_node [simp]:
  "nd_prev (init_node m x d) x = 3" "nd_left (init_node m x d) x = 0"
  "nd_right (init_node m x d) x = 0" "nd_data (init_node m x d) x = d"
  "tr \<notin> foot x \<Longrightarrow> init_node m x d tr = m tr"
  "sepl x (addrs t) \<Longrightarrow> tree_at (init_node m x d) par t = tree_at m par t"
  "sepl x (caddrs C) \<Longrightarrow> tr \<notin> foot x \<Longrightarrow> ctx_at (init_node m x d) tr C p = ctx_at m tr C p"
  "x \<in> set xs \<Longrightarrow> frame_eq tr xs m (init_node m' x d) = frame_eq tr xs m m'"
  "sep y x \<Longrightarrow> nd_left (init_node m x d) y = nd_left m y"
  "sep y x \<Longrightarrow> nd_right (init_node m x d) y = nd_right m y"
  "sep y x \<Longrightarrow> nd_data (init_node m x d) y = nd_data m y"
  by (simp_all add: init_node_def)

lemma avl_insert_node_dup:
  assumes t: "tree_in m tr t" and x: "okp x" "tr \<notin> foot x" "sepl x (addrs t)"
    and c: "cmp_is cmp (init_node m x data) x c (inorder t)"
    and l: "locate c t [] = (D, u)" "u \<noteq> Lf"
  shows "avl_insert_node m tr x data cmp = Some (init_node m x data, 1)"
proof -
  have "m tr \<noteq> 0" "tree_at (init_node m x data) 0 t" "wfl tr (addrs t)" "m tr = root t"
    using t l x by (auto simp: tree_in_def root_neq0)
  then show ?thesis
    using x l c avl_descend_mem [of "init_node m x data" 0 t tr cmp x c "[]" D u]
    by (simp add: avl_insert_node_def init_node_def)
qed

lemma avl_insert_node_new:
  assumes t: "tree_in m tr t" "avl t" and x: "okp x" "tr \<notin> foot x" "sepl x (addrs t)"
    and c: "cmp_is cmp (init_node m x data) x c (inorder t)"
    and l: "locate c t [] = (D, Lf)"
  shows "\<exists>m'. avl_insert_node m tr x data cmp = Some (m', 0) \<and>
    tree_in m' tr (ins_at D (Nd Lf x Bal data Lf)) \<and> frame_eq tr (x # addrs t) m m'"
proof (cases "D = []")
  case True
  then have "t = Lf" using locate_plug [OF l] by simp
  then show ?thesis using t x True
    by (auto simp: avl_insert_node_def tree_in_def init_node_def Let_def)
next
  case False
  let ?m1 = "init_node m x data"
  have pl: "t = plug D Lf" using locate_plug [OF l] by simp
  have tn: "t \<noteq> Lf" using False pl by simp
  have z: "ctx_at ?m1 tr D 0" "wfl tr (caddrs D)" "sepl x (caddrs D)" "avlc D 0"
    using t x pl tree_in_zip [of m tr D Lf] set_addrs_plug [of D Lf]
    by (auto simp: avl_plug sepl_def)
  have desc: "avl_descend cmp ?m1 (m tr) x 0 0 = Some (cpar D, side D)"
    using t x l c avl_descend_mem [of ?m1 0 t tr cmp x c "[]" D Lf] by (simp add: tree_in_def)
  have mtr: "m tr \<noteq> 0" using t tn root_neq0 [of tr t] by (simp add: tree_in_def)
  define m2 where "m2 = relink (set_nd_prev ?m1 x (cpar D OR 3)) tr D x"
  have par: "get_parent m2 x = cpar D"
    using z x unfolding m2_def by (intro get_parent_tag [where b = Bal]) auto
  have lk: "(if side D = -1 then set_nd_left mm (cpar D) x
             else if side D = 1 then set_nd_right mm (cpar D) x else mm) = relink mm tr D x" for mm
    using False by (cases D rule: side.cases) auto
  have unf: "avl_insert_node m tr x data cmp =
      (if nd_left m2 (cpar D) \<noteq> 0 \<and> nd_right m2 (cpar D) \<noteq> 0
       then Some (set_nd_prev m2 (cpar D) (nd_prev m2 (cpar D) OR 3), 0)
       else do { m \<leftarrow> avl_insert_fix m2 tr x (cpar D); Some (m, 0) })"
    using x False mtr desc unfolding avl_insert_node_def Let_def init_node_def [symmetric] lk
    by (simp add: lk m2_def [symmetric] par)
  have "ctx_at (set_nd_prev ?m1 x (cpar D OR 3)) tr D 0" using z x by simp
  then have m2: "ctx_at m2 tr D x" "tree_at m2 (cpar D) (Nd Lf x Bal data Lf)"
      "wfl tr (addrs (Nd Lf x Bal data Lf) @ caddrs D)"
    using z x by (auto simp: m2_def)
  have fr: "frame_eq tr (x # addrs t) m m2"
    unfolding m2_def using set_addrs_plug [of D Lf] pl by (subst frame_relink) auto
  have retrace: "\<exists>m'. avl_insert_node m tr x data cmp = Some (m', 0) \<and>
      tree_in m' tr (ins_fix D (Nd Lf x Bal data Lf)) \<and> frame_eq tr (x # addrs t) m m'"
    if lf: "(case hd D of FL a b e r \<Rightarrow> r | FR r a b e \<Rightarrow> r) = Lf"
  proof -
    have "fix_ready D (Nd Lf x Bal data Lf)"
      using lf z False by (cases D) (auto intro: fix_ready_leaf)
    then obtain m' where m': "avl_insert_fix m2 tr x (cpar D) = Some m'"
        "tree_in m' tr (ins_fix D (Nd Lf x Bal data Lf))"
      and f2: "frame_eq tr (addrs (Nd Lf x Bal data Lf) @ caddrs D) m2 m'"
      using m2 z avl_insert_fix_mem [of m2 tr D "Nd Lf x Bal data Lf" 0] by auto
    have "\<not> (nd_left m2 (cpar D) \<noteq> 0 \<and> nd_right m2 (cpar D) \<noteq> 0)"
      using lf m2(1) False by (cases D rule: side.cases) auto
    moreover have "frame_eq tr (x # addrs t) m2 m'"
      by (rule frame_set [OF _ f2]) (use pl set_addrs_plug [of D Lf] in auto)
    ultimately show ?thesis using m' unf frame_trans [OF fr] by auto
  qed
  have or3: "(p OR bcode b) OR 3 = p OR bcode Bal" for p b
    by (cases b) (simp_all add: or.assoc)
  show ?thesis
  proof (cases D rule: caddrs.cases)
    case (2 a b d r E)
    show ?thesis
    proof (cases "r = Lf")
      case False
      have nds: "nd_left m2 a = x" "nd_right m2 a = root r" "root r \<noteq> 0" "x \<noteq> 0"
          "nd_prev m2 a = cpar E OR bcode b"
        using m2 2 False root_neq0 [of tr r] x by auto
      have "avl_insert_node m tr x data cmp = Some (set_nd_prev m2 a (cpar E OR bcode Bal), 0)"
        using unf nds 2 or3 by simp
      moreover have "tree_in (set_nd_prev m2 a (cpar E OR bcode Bal)) tr
          (plug E (Nd (Nd Lf x Bal data Lf) a Bal d r))"
        using m2 2 by (auto simp: tree_in_zip sep_commute seps_commute)
      ultimately show ?thesis using fr 2 False pl set_addrs_plug [of D Lf] by auto
    qed (use retrace 2 in auto)
  next
    case (3 l a b d E)
    show ?thesis
    proof (cases "l = Lf")
      case False
      have nds: "nd_right m2 a = x" "nd_left m2 a = root l" "root l \<noteq> 0" "x \<noteq> 0"
          "nd_prev m2 a = cpar E OR bcode b"
        using m2 3 False root_neq0 [of tr l] x by auto
      have "avl_insert_node m tr x data cmp = Some (set_nd_prev m2 a (cpar E OR bcode Bal), 0)"
        using unf nds 3 or3 by simp
      moreover have "tree_in (set_nd_prev m2 a (cpar E OR bcode Bal)) tr
          (plug E (Nd l a Bal d (Nd Lf x Bal data Lf)))"
        using m2 3 by (auto simp: tree_in_zip sep_commute seps_commute)
      ultimately show ?thesis using fr 3 False pl set_addrs_plug [of D Lf] by auto
    qed (use retrace 3 in auto)
  qed (use False in simp)
qed

end
