(* ===== verification/Avl_Delete.thy ===== *)
theory Avl_Delete
  imports Avl_Insert
begin

text \<open>
  Deletion on memory: the retracing loop, the deletion of a node of the tree, and the move of a
  node to another address.
\<close>

subsection \<open>Retracing\<close>

lemma rotate_right_heavy:
  assumes c: "ctx_at m tr C a" and t: "tree_at m (cpar C) (Nd t a Rh d r)"
    and wf: "wfl tr (addrs (Nd t a Rh d r) @ caddrs C)" and r: "avl r" "r \<noteq> Lf"
  defines "u' \<equiv> (if rbal r = Lh then rotrl (Nd t a Rh d r) else rotl (Nd t a Rh d r))"
  shows "\<exists>m'. (if rbal r = Lh then fst (avl_rotate_rl m tr a) else fst (avl_rotate_left m tr a)) = m'
    \<and> ctx_at m' tr C (root u') \<and> tree_at m' (cpar C) u' \<and> wfl tr (addrs u' @ caddrs C)
    \<and> frame_eq tr (addrs (Nd t a Rh d r) @ caddrs C) m m'"
proof -
  have io: "inorder u' = inorder (Nd t a Rh d r)" by (simp add: u'_def del: inorder.simps)
  have wf': "wfl tr (addrs u' @ caddrs C)"
    using wf wfl_inorder [OF io, of tr "caddrs C"] by simp
  have "\<exists>m' p. (if rbal r = Lh then avl_rotate_rl m tr a else avl_rotate_left m tr a) = (m', p) \<and>
     ctx_at m' tr C (root u') \<and> tree_at m' (cpar C) u' \<and> frame_eq tr (addrs u' @ caddrs C) m m'"
  proof (cases "rbal r = Lh")
    case True
    then obtain B x e A1 y b f A2 where "r = Nd (Nd A1 y b f A2) x Lh e B"
      using r by (cases r; cases "case r of Nd A x b e B \<Rightarrow> A") (auto simp: balanced_def)
    with c t wf avl_rotate_rl_mem [of m tr C a t Rh d A1 y b f A2 x Lh e B] True
    show ?thesis by (auto simp: u'_def)
  next
    case False
    then obtain A x b e B where "r = Nd A x b e B" using r by (cases r) auto
    with c t wf avl_rotate_left_mem [of m tr C a t Rh d A x b e B] False
    show ?thesis by (auto simp: u'_def)
  qed
  then obtain m' p where
    m': "(if rbal r = Lh then avl_rotate_rl m tr a else avl_rotate_left m tr a) = (m', p)"
      "ctx_at m' tr C (root u')" "tree_at m' (cpar C) u'"
    and fr: "frame_eq tr (addrs u' @ caddrs C) m m'" by auto
  have "frame_eq tr (addrs (Nd t a Rh d r) @ caddrs C) m m'"
    by (rule frame_set [OF _ fr]) (auto simp: set_addrs_inorder [OF io])
  moreover have "(if rbal r = Lh then fst (avl_rotate_rl m tr a)
      else fst (avl_rotate_left m tr a)) = m'"
    using m'(1) by (cases "rbal r = Lh") simp_all
  ultimately show ?thesis using m' wf' by blast
qed

lemma rotate_left_heavy:
  assumes c: "ctx_at m tr C a" and t: "tree_at m (cpar C) (Nd l a Lh d t)"
    and wf: "wfl tr (addrs (Nd l a Lh d t) @ caddrs C)" and l: "avl l" "l \<noteq> Lf"
  defines "u' \<equiv> (if rbal l = Rh then rotlr (Nd l a Lh d t) else rotr (Nd l a Lh d t))"
  shows "\<exists>m'. (if rbal l = Rh then fst (avl_rotate_lr m tr a) else fst (avl_rotate_right m tr a)) = m'
    \<and> ctx_at m' tr C (root u') \<and> tree_at m' (cpar C) u' \<and> wfl tr (addrs u' @ caddrs C)
    \<and> frame_eq tr (addrs (Nd l a Lh d t) @ caddrs C) m m'"
proof -
  have io: "inorder u' = inorder (Nd l a Lh d t)" by (simp add: u'_def del: inorder.simps)
  have wf': "wfl tr (addrs u' @ caddrs C)"
    using wf wfl_inorder [OF io, of tr "caddrs C"] by simp
  have "\<exists>m' p. (if rbal l = Rh then avl_rotate_lr m tr a else avl_rotate_right m tr a) = (m', p) \<and>
     ctx_at m' tr C (root u') \<and> tree_at m' (cpar C) u' \<and> frame_eq tr (addrs u' @ caddrs C) m m'"
  proof (cases "rbal l = Rh")
    case True
    then obtain B x e A1 y b f A2 where "l = Nd B x Rh e (Nd A1 y b f A2)"
      using l by (cases l; cases "case l of Nd A x b e B \<Rightarrow> B") (auto simp: balanced_def)
    with c t wf avl_rotate_lr_mem [of m tr C a B x Rh e A1 y b f A2 Lh d t] True
    show ?thesis by (auto simp: u'_def)
  next
    case False
    then obtain A x b e B where "l = Nd A x b e B" using l by (cases l) auto
    with c t wf avl_rotate_right_mem [of m tr C a A x b e B Lh d t] False
    show ?thesis by (auto simp: u'_def)
  qed
  then obtain m' p where
    m': "(if rbal l = Rh then avl_rotate_lr m tr a else avl_rotate_right m tr a) = (m', p)"
      "ctx_at m' tr C (root u')" "tree_at m' (cpar C) u'"
    and fr: "frame_eq tr (addrs u' @ caddrs C) m m'" by auto
  have "frame_eq tr (addrs (Nd l a Lh d t) @ caddrs C) m m'"
    by (rule frame_set [OF _ fr]) (auto simp: set_addrs_inorder [OF io])
  moreover have "(if rbal l = Rh then fst (avl_rotate_lr m tr a)
      else fst (avl_rotate_right m tr a)) = m'"
    using m'(1) by (cases "rbal l = Rh") simp_all
  ultimately show ?thesis using m' wf' by blast
qed

lemma side_code:
  assumes "ctx_at m tr C a" "wfl tr (caddrs C)" "sepl a (caddrs C)" "a \<noteq> 0" "C \<noteq> []"
  shows "(if nd_left m (cpar C) = a then -1 else 1) = side C"
  using assms root_sep [of a] by (cases C rule: caddrs.cases) auto

lemma avl_delete_fix_mem:
  assumes "ctx_at m tr C (root t)" "tree_at m (cpar C) t" "wfl tr (addrs t @ caddrs C)"
    and "avl t" "ht t = h" "avlc C (Suc h)" "C \<noteq> [] \<Longrightarrow> dir = side C"
  shows "\<exists>m'. avl_delete_fix m tr (cpar C) dir = Some m' \<and>
    tree_in m' tr (del_fix C t) \<and> frame_eq tr (addrs t @ caddrs C) m m'"
  using assms
proof (induction C t arbitrary: m h dir rule: del_fix.induct)
  case (1 t)
  then show ?case using tree_in_zip [of m tr "[]" t]
    by (subst avl_delete_fix.simps) auto
next
  case (2 a b d r C t)
  have nds: "nd_left m a = root t" "nd_right m a = root r" "a \<noteq> 0" "dir = -1"
    and bfa: "balance_factor m a = bval b"
    and bfr: "balance_factor m (root r) = bval (rbal r)" and gp: "get_parent m a = cpar C"
    and sbf: "fst (set_balance_factor m a z) = set_nd_prev m a (cpar C OR rev_balance_factor z)"
    for z
    using "2.prems" balance_factor_tag [of m a "cpar C" b] set_balance_factor_tag [of m a "cpar C" b]
      get_parent_tag [of m a "cpar C" b] balance_factor_tree [of m a r tr] by auto
  have u0: "tree_at m (cpar C) (Nd t a b d r)" "ctx_at m tr C a"
    "wfl tr (addrs (Nd t a b d r) @ caddrs C)"
    using "2.prems" by (auto simp: sep_commute seps_commute)
  let ?m1 = "\<lambda>b. set_nd_prev m a (cpar C OR bcode b)"
  have u: "tree_at (?m1 b') (cpar C) (Nd t a b' d r)" "ctx_at (?m1 b') tr C a"
    "wfl tr (addrs (Nd t a b' d r) @ caddrs C)" for b'
    using "2.prems" by (auto simp: sep_commute seps_commute)
  have fr: "frame_eq tr (addrs t @ caddrs (FL a b d r # C)) m (?m1 b')" for b' by simp
  define d' where "d' = (if cpar C \<noteq> 0 then (if nd_left m (cpar C) = a then -1 else 1) else dir)"
  have d': "C \<noteq> [] \<Longrightarrow> d' = side C"
    using "2.prems" side_code [of m tr C a] cpar_eq0 [of tr C] by (auto simp: d'_def)
  have fsub: "frame_eq tr (addrs u @ caddrs C) mm mm' \<Longrightarrow> set (addrs u) \<subseteq> set (addrs (Nd t a b d r))
      \<Longrightarrow> frame_eq tr (addrs t @ caddrs (FL a b d r # C)) mm mm'" for u mm mm'
    by (erule frame_set [rotated]) auto
  show ?case
  proof (cases b)
    case Lh
    have unf: "avl_delete_fix m tr a dir = avl_delete_fix (?m1 Bal) tr (cpar C) d'"
      using Lh by (subst avl_delete_fix.simps) (simp add: nds bfa gp Let_def sbf d'_def)
    have "\<exists>m'. avl_delete_fix (?m1 Bal) tr (cpar C) d' = Some m' \<and>
       tree_in m' tr (del_fix C (Nd t a Bal d r)) \<and>
       frame_eq tr (addrs (Nd t a Bal d r) @ caddrs C) (?m1 Bal) m'"
      using u [of Bal] "2.prems" Lh d'
      by (intro "2.IH"(1) [where h = "Suc (ht t)"]) (auto simp: balanced_def max_def)
    then obtain m' where "avl_delete_fix (?m1 Bal) tr (cpar C) d' = Some m'"
       "tree_in m' tr (del_fix C (Nd t a Bal d r))"
       and f2: "frame_eq tr (addrs (Nd t a Bal d r) @ caddrs C) (?m1 Bal) m'" by blast
    moreover have "frame_eq tr (addrs t @ caddrs (FL a b d r # C)) (?m1 Bal) m'"
      using fsub [OF f2] by simp
    ultimately show ?thesis using unf Lh frame_trans [OF fr [of Bal]] by simp
  next
    case Bal
    have "avl_delete_fix m tr a dir = Some (?m1 Rh)"
      using Bal by (subst avl_delete_fix.simps) (simp add: nds bfa gp Let_def sbf)
    moreover have "tree_in (?m1 Rh) tr (plug C (Nd t a Rh d r))"
      using u [of Rh] by (simp add: tree_in_zip)
    ultimately show ?thesis using Bal fr by auto
  next
    case Rh
    have r: "avl r" "ht r = Suc (Suc (ht t))" "r \<noteq> Lf" using "2.prems" Rh by (auto simp: balanced_def)
    let ?u = "if rbal r = Lh then rotrl (Nd t a Rh d r) else rotl (Nd t a Rh d r)"
    obtain m1 where m1: "(if rbal r = Lh then fst (avl_rotate_rl m tr a)
          else fst (avl_rotate_left m tr a)) = m1"
        "ctx_at m1 tr C (root ?u)" "tree_at m1 (cpar C) ?u" "wfl tr (addrs ?u @ caddrs C)"
        "frame_eq tr (addrs (Nd t a Rh d r) @ caddrs C) m m1"
      using rotate_right_heavy [of m tr C a t d r] u0 Rh r by auto
    have unf: "avl_delete_fix m tr a dir =
        (if rbal r = Bal then Some m1 else avl_delete_fix m1 tr (cpar C) d')"
      using Rh m1(1) by (subst avl_delete_fix.simps)
        (cases "rbal r"; simp add: nds bfa gp bfr Let_def d'_def)
    have f1: "frame_eq tr (addrs t @ caddrs (FL a b d r # C)) m m1"
      using fsub [OF m1(5)] Rh by auto
    have io: "inorder ?u = inorder (Nd t a b d r)" by (simp add: Rh del: inorder.simps)
    note su = set_addrs_inorder [OF io]
    have avt: "avl t" using "2.prems" by simp
    have av: "avl ?u" "rbal r \<noteq> Bal \<Longrightarrow> ht ?u = ht r"
      using rot_right_heavy [OF r(1) avt r(2), of a Rh d] by (cases "rbal r"; simp)+
    show ?thesis
    proof (cases "rbal r = Bal")
      case True
      then show ?thesis using unf m1 f1 Rh by (auto simp: tree_in_zip)
    next
      case False
      have av2: "avlc C (Suc (ht r))" using "2.prems" Rh r by (simp add: balanced_def)
      have "\<exists>m'. avl_delete_fix m1 tr (cpar C) d' = Some m' \<and>
         tree_in m' tr (del_fix C ?u) \<and> frame_eq tr (addrs ?u @ caddrs C) m1 m'"
        using "2.IH"(2,3) [OF Rh, of m1 "ht r" d'] m1 av av2 d' False
        by (cases "rbal r") (simp_all add: Rh)
      then obtain m' where m': "avl_delete_fix m1 tr (cpar C) d' = Some m'"
         "tree_in m' tr (del_fix C ?u)" "frame_eq tr (addrs ?u @ caddrs C) m1 m'" by blast
      have "frame_eq tr (addrs t @ caddrs (FL a b d r # C)) m1 m'"
        using fsub [OF m'(3)] su by auto
      then show ?thesis using unf m' frame_trans [OF f1] Rh False by (cases "rbal r") auto
    qed
  qed
next
  case (3 l a b d C t)
  have nds: "nd_right m a = root t" "nd_left m a = root l" "a \<noteq> 0" "dir = 1"
    and bfa: "balance_factor m a = bval b"
    and bfl: "balance_factor m (root l) = bval (rbal l)" and gp: "get_parent m a = cpar C"
    and sbf: "fst (set_balance_factor m a z) = set_nd_prev m a (cpar C OR rev_balance_factor z)"
    for z
    using "3.prems" balance_factor_tag [of m a "cpar C" b] set_balance_factor_tag [of m a "cpar C" b]
      get_parent_tag [of m a "cpar C" b] balance_factor_tree [of m a l tr] by auto
  have u0: "tree_at m (cpar C) (Nd l a b d t)" "ctx_at m tr C a"
    "wfl tr (addrs (Nd l a b d t) @ caddrs C)"
    using "3.prems" by (auto simp: sep_commute seps_commute)
  let ?m1 = "\<lambda>b. set_nd_prev m a (cpar C OR bcode b)"
  have u: "tree_at (?m1 b') (cpar C) (Nd l a b' d t)" "ctx_at (?m1 b') tr C a"
    "wfl tr (addrs (Nd l a b' d t) @ caddrs C)" for b'
    using "3.prems" by (auto simp: sep_commute seps_commute)
  have fr: "frame_eq tr (addrs t @ caddrs (FR l a b d # C)) m (?m1 b')" for b' by simp
  define d' where "d' = (if cpar C \<noteq> 0 then (if nd_left m (cpar C) = a then -1 else 1) else dir)"
  have d': "C \<noteq> [] \<Longrightarrow> d' = side C"
    using "3.prems" side_code [of m tr C a] cpar_eq0 [of tr C] by (auto simp: d'_def)
  have fsub: "frame_eq tr (addrs u @ caddrs C) mm mm' \<Longrightarrow> set (addrs u) \<subseteq> set (addrs (Nd l a b d t))
      \<Longrightarrow> frame_eq tr (addrs t @ caddrs (FR l a b d # C)) mm mm'" for u mm mm'
    by (erule frame_set [rotated]) auto
  show ?case
  proof (cases b)
    case Rh
    have unf: "avl_delete_fix m tr a dir = avl_delete_fix (?m1 Bal) tr (cpar C) d'"
      using Rh by (subst avl_delete_fix.simps) (simp add: nds bfa gp Let_def sbf d'_def)
    have "\<exists>m'. avl_delete_fix (?m1 Bal) tr (cpar C) d' = Some m' \<and>
       tree_in m' tr (del_fix C (Nd l a Bal d t)) \<and>
       frame_eq tr (addrs (Nd l a Bal d t) @ caddrs C) (?m1 Bal) m'"
      using u [of Bal] "3.prems" Rh d'
      by (intro "3.IH"(3) [where h = "Suc (ht t)"]) (auto simp: balanced_def max_def)
    then obtain m' where "avl_delete_fix (?m1 Bal) tr (cpar C) d' = Some m'"
       "tree_in m' tr (del_fix C (Nd l a Bal d t))"
       and f2: "frame_eq tr (addrs (Nd l a Bal d t) @ caddrs C) (?m1 Bal) m'" by blast
    moreover have "frame_eq tr (addrs t @ caddrs (FR l a b d # C)) (?m1 Bal) m'"
      using fsub [OF f2] by simp
    ultimately show ?thesis using unf Rh frame_trans [OF fr [of Bal]] by simp
  next
    case Bal
    have "avl_delete_fix m tr a dir = Some (?m1 Lh)"
      using Bal by (subst avl_delete_fix.simps) (simp add: nds bfa gp Let_def sbf)
    moreover have "tree_in (?m1 Lh) tr (plug C (Nd l a Lh d t))"
      using u [of Lh] by (simp add: tree_in_zip)
    ultimately show ?thesis using Bal fr by auto
  next
    case Lh
    have l: "avl l" "ht l = Suc (Suc (ht t))" "l \<noteq> Lf" using "3.prems" Lh by (auto simp: balanced_def)
    let ?u = "if rbal l = Rh then rotlr (Nd l a Lh d t) else rotr (Nd l a Lh d t)"
    obtain m1 where m1: "(if rbal l = Rh then fst (avl_rotate_lr m tr a)
          else fst (avl_rotate_right m tr a)) = m1"
        "ctx_at m1 tr C (root ?u)" "tree_at m1 (cpar C) ?u" "wfl tr (addrs ?u @ caddrs C)"
        "frame_eq tr (addrs (Nd l a Lh d t) @ caddrs C) m m1"
      using rotate_left_heavy [of m tr C a l d t] u0 Lh l by auto
    have unf: "avl_delete_fix m tr a dir =
        (if rbal l = Bal then Some m1 else avl_delete_fix m1 tr (cpar C) d')"
      using Lh m1(1) by (subst avl_delete_fix.simps)
        (cases "rbal l"; simp add: nds bfa gp bfl Let_def d'_def)
    have f1: "frame_eq tr (addrs t @ caddrs (FR l a b d # C)) m m1"
      using fsub [OF m1(5)] Lh by auto
    have io: "inorder ?u = inorder (Nd l a b d t)" by (simp add: Lh del: inorder.simps)
    note su = set_addrs_inorder [OF io]
    have avt: "avl t" using "3.prems" by simp
    have av: "avl ?u" "rbal l \<noteq> Bal \<Longrightarrow> ht ?u = ht l"
      using rot_left_heavy [OF l(1) avt l(2), of a Lh d] by (cases "rbal l"; simp)+
    show ?thesis
    proof (cases "rbal l = Bal")
      case True
      then show ?thesis using unf m1 f1 Lh by (auto simp: tree_in_zip)
    next
      case False
      have av2: "avlc C (Suc (ht l))" using "3.prems" Lh l by (simp add: balanced_def)
      have "\<exists>m'. avl_delete_fix m1 tr (cpar C) d' = Some m' \<and>
         tree_in m' tr (del_fix C ?u) \<and> frame_eq tr (addrs ?u @ caddrs C) m1 m'"
        using "3.IH"(1,2) [OF Lh, of m1 "ht l" d'] m1 av av2 d' False
        by (cases "rbal l") (simp_all add: Lh)
      then obtain m' where m': "avl_delete_fix m1 tr (cpar C) d' = Some m'"
         "tree_in m' tr (del_fix C ?u)" "frame_eq tr (addrs ?u @ caddrs C) m1 m'" by blast
      have "frame_eq tr (addrs t @ caddrs (FR l a b d # C)) m1 m'"
        using fsub [OF m'(3)] su by auto
      then show ?thesis using unf m' frame_trans [OF f1] Lh False by (cases "rbal l") auto
    qed
  qed
qed

subsection \<open>Deleting a node\<close>

lemma avl_leftmost_mem:
  "tree_at m par t \<Longrightarrow> wfl tr (addrs t) \<Longrightarrow> t \<noteq> Lf \<Longrightarrow> leftmost t C = (D, u) \<Longrightarrow>
   avl_leftmost m (root t) = Some (root u)"
proof (induction t arbitrary: par C)
  case (Nd l a b d r)
  show ?case
  proof (cases "l = Lf")
    case True
    with Nd.prems show ?thesis by (subst avl_leftmost.simps) auto
  next
    case False
    then obtain l' a' b' d' r' where "l = Nd l' a' b' d' r'" by (cases l) auto
    with Nd.prems Nd.IH(1) [of a "FL a b d r # C"] show ?thesis
      by (subst avl_leftmost.simps) auto
  qed
qed simp

lemma unlink_code:
  assumes "ctx_at m tr C p" "wfl tr (caddrs C)" "sepl p (caddrs C)" "p \<noteq> 0" "C \<noteq> []"
  shows "(if nd_left m (cpar C) = p then (set_nd_left m (cpar C) q, -1)
          else (set_nd_right m (cpar C) q, 1)) = (relink m tr C q, side C)"
    and "nd_left m (cpar C) \<noteq> p \<Longrightarrow> nd_right m (cpar C) = p"
  using assms root_sep [of p] by (cases C rule: caddrs.cases; auto)+

lemma delete_unlink:
  assumes c: "ctx_at m tr C s" and t: "tree_at m (cpar C) (Nd Lf s bs ds sr)"
    and wf: "wfl tr (addrs (Nd Lf s bs ds sr) @ caddrs C)" and ne: "C \<noteq> []"
    and av: "avl sr" "avlc C (Suc (ht sr))"
  defines "m1 \<equiv> reparent m (root sr) (cpar C)"
  shows "(if nd_left m1 (cpar C) = s then (set_nd_left m1 (cpar C) (root sr), -1)
          else (set_nd_right m1 (cpar C) (root sr), 1)) = (relink m1 tr C (root sr), side C)"
    and "get_parent m s = cpar C" "nd_right m s = root sr"
    and "\<exists>m'. avl_delete_fix (relink m1 tr C (root sr)) tr (cpar C) (side C) = Some m' \<and>
      tree_in m' tr (del_fix C sr) \<and> frame_eq tr (s # addrs sr @ caddrs C) m m'"
proof -
  have m1: "ctx_at m1 tr C s" "tree_at m1 (cpar C) sr" using c t wf by (auto simp: m1_def)
  show "(if nd_left m1 (cpar C) = s then (set_nd_left m1 (cpar C) (root sr), -1)
      else (set_nd_right m1 (cpar C) (root sr), 1)) = (relink m1 tr C (root sr), side C)"
    using m1(1) wf ne by (intro unlink_code) auto
  show "get_parent m s = cpar C" using t wf by (intro get_parent_tag [where b = bs]) auto
  show "nd_right m s = root sr" using t by simp
  let ?m2 = "relink m1 tr C (root sr)"
  have fr: "frame_eq tr (s # addrs sr @ caddrs C) m ?m2"
    by (simp add: m1_def subset_iff)
  have "\<exists>m'. avl_delete_fix ?m2 tr (cpar C) (side C) = Some m' \<and>
      tree_in m' tr (del_fix C sr) \<and> frame_eq tr (addrs sr @ caddrs C) ?m2 m'"
    using m1 wf av by (intro avl_delete_fix_mem [where h = "ht sr"]) (auto simp: seps_commute)
  then obtain m' where m': "avl_delete_fix ?m2 tr (cpar C) (side C) = Some m'"
      "tree_in m' tr (del_fix C sr)" and f2: "frame_eq tr (addrs sr @ caddrs C) ?m2 m'" by blast
  have "frame_eq tr (s # addrs sr @ caddrs C) ?m2 m'" by (rule frame_set [OF _ f2]) auto
  with m' frame_trans [OF fr] show "\<exists>m'. avl_delete_fix ?m2 tr (cpar C) (side C) = Some m' \<and>
      tree_in m' tr (del_fix C sr) \<and> frame_eq tr (s # addrs sr @ caddrs C) m m'" by blast
qed

lemma caddrs_append [simp]: "caddrs (D @ C) = caddrs D @ caddrs C"
  by (induction D rule: caddrs.induct) auto

lemma cpar_append: "cpar (D @ FR l a b d # C) = (if D = [] then a else cpar D)"
  by (cases D rule: caddrs.cases) auto

text \<open>The data of a node on the path to a hole is replaced.\<close>

lemma ctx_at_set_data:
  assumes "ctx_at m tr (D @ FR l a b d # C) p" "wfl tr (caddrs (D @ FR l a b d # C))"
  shows "ctx_at (set_nd_data m a d') tr (D @ FR l a b d' # C) p"
  using assms
  by (induction D arbitrary: p rule: caddrs.induct)
    (auto simp: sep_commute seps_commute cpar_append)

lemma avl_delete_node_mem:
  assumes t: "tree_in m tr (plug C (Nd l a b d r))" "avl (plug C (Nd l a b d r))"
  shows "\<exists>m'. avl_delete_node m tr a = Some (m', snd (del_at C (Nd l a b d r))) \<and>
    tree_in m' tr (fst (del_at C (Nd l a b d r))) \<and>
    frame_eq tr (addrs (plug C (Nd l a b d r))) m m'"
proof -
  have z: "tree_at m (cpar C) (Nd l a b d r)" "ctx_at m tr C a"
    "wfl tr (addrs (Nd l a b d r) @ caddrs C)"
    using t(1) by (auto simp: tree_in_zip)
  have root: "m tr \<noteq> 0" "a \<noteq> 0"
    using t(1) z root_neq0 [of tr "plug C (Nd l a b d r)"] by (auto simp: tree_in_def)
  have go: "\<exists>m'. avl_delete_node m tr a = Some (m', s) \<and> tree_in m' tr (del_fix E sr) \<and>
      frame_eq tr (addrs (plug C (Nd l a b d r))) m m'"
    if suc: "(if r \<noteq> Lf then avl_leftmost m (root r) else Some (root l)) = Some s" "s \<noteq> 0"
      and ds: "nd_data m s = ds" and c: "ctx_at (set_nd_data m a ds) tr E s"
      and s: "tree_at (set_nd_data m a ds) (cpar E) (Nd Lf s bs ds sr)"
      and wf: "wfl tr (addrs (Nd Lf s bs ds sr) @ caddrs E)" and ne: "E \<noteq> []"
      and av: "avl sr" "avlc E (Suc (ht sr))" and sa: "sep s a"
      and fs: "set (s # addrs sr @ caddrs E) \<subseteq> set (addrs (plug C (Nd l a b d r)))"
    for s bs ds sr E
  proof -
    note u = delete_unlink [OF c s wf ne av]
    have gp: "get_parent m s = cpar E" "nd_right m s = root sr"
      using u(2,3) sa by (auto simp: get_parent_def)
    obtain m' where m': "avl_delete_fix (relink (reparent (set_nd_data m a ds) (root sr) (cpar E))
          tr E (root sr)) tr (cpar E) (side E) = Some m'" "tree_in m' tr (del_fix E sr)"
      and fr: "frame_eq tr (s # addrs sr @ caddrs E) (set_nd_data m a ds) m'"
      using u(4) by blast
    have "frame_eq tr (addrs (plug C (Nd l a b d r))) m (set_nd_data m a ds)"
      using set_addrs_plug [of C "Nd l a b d r"] by simp
    from frame_trans [OF this frame_set [OF fs fr]]
    have "frame_eq tr (addrs (plug C (Nd l a b d r))) m m'" .
    moreover have "(if nd_right m a \<noteq> 0 then avl_leftmost m (nd_right m a)
        else Some (nd_left m a)) = Some s"
      using suc z root_neq0 [of tr r] by auto
    ultimately show ?thesis
      using m' root suc(2) ds gp u(1,3) sa
      unfolding avl_delete_node_def Let_def reparent_def
      by auto
  qed
  have av: "avl l" "avl r" "avl (Nd l a b d r)" "avlc C (ht (Nd l a b d r))"
    using t(2) by (auto simp: avl_plug)
  show ?thesis
  proof (cases "r = Lf")
    case False
    then obtain D s bs ds sr where lm: "leftmost r [] = (D, Nd Lf s bs ds sr)"
      and pl: "plug D (Nd Lf s bs ds sr) = r" by (rule leftmost_cases)
    let ?E = "\<lambda>d. D @ FR l a b d # C" and ?s = "Nd Lf s bs ds sr"
    have pe: "plug C (Nd l a b d r) = plug (?E d) ?s" by (simp add: plug_append pl)
    have zz: "tree_at m (cpar (?E d)) ?s" "ctx_at m tr (?E d) s"
        "wfl tr (addrs ?s @ caddrs (?E d))" "avl sr" "avlc (?E d) (Suc (ht sr))"
      using t unfolding pe tree_in_zip avl_plug by auto
    have ac: "avlc (?E ds) h = avlc (?E d) h" for h
      by (induction D arbitrary: h rule: caddrs.induct) auto
    have sa: "sep s a" "sepl a (addrs sr)" using zz(3) by (auto simp: sep_commute seps_commute)
    have "\<exists>m'. avl_delete_node m tr a = Some (m', s) \<and> tree_in m' tr (del_fix (?E ds) sr) \<and>
        frame_eq tr (addrs (plug C (Nd l a b d r))) m m'"
    proof (rule go)
      show "(if r \<noteq> Lf then avl_leftmost m (root r) else Some (root l)) = Some s"
        using False z lm avl_leftmost_mem [of m a r tr "[]" D ?s] by auto
      show "ctx_at (set_nd_data m a ds) tr (?E ds) s"
        using zz by (intro ctx_at_set_data [where d = d]) auto
      show "tree_at (set_nd_data m a ds) (cpar (?E ds)) ?s"
        using zz(1) sa by (simp add: cpar_append)
      show "set (s # addrs sr @ caddrs (?E ds)) \<subseteq> set (addrs (plug C (Nd l a b d r)))"
        unfolding pe set_addrs_plug by auto
    qed (use zz ac sa in auto)
    then show ?thesis using False lm by simp
  next
    case r: True
    show ?thesis
    proof (cases "l = Lf")
      case False
      then obtain s ds where l: "l = Nd Lf s Bal ds Lf" using avl_left_leaf av(3) unfolding r by blast
      let ?E = "FL a b ds Lf # C"
      have "\<exists>m'. avl_delete_node m tr a = Some (m', s) \<and> tree_in m' tr (del_fix ?E Lf) \<and>
          frame_eq tr (addrs (plug C (Nd l a b d r))) m m'"
        by (rule go [where ds = ds and bs = Bal])
          (use l r z av set_addrs_plug [of C "Nd l a b d r"] in \<open>auto simp: sep_commute\<close>)
      then show ?thesis using r l by simp
    next
      case l: True
      show ?thesis
      proof (cases "C = []")
        case True
        then show ?thesis using l r z root
          by (auto simp: avl_delete_node_def get_parent_tag [of m a 0 b] tree_in_def)
      next
        case False
        have z': "ctx_at m tr C a" "tree_at m (cpar C) (Nd Lf a b d Lf)"
            "wfl tr (addrs (Nd Lf a b d Lf) @ caddrs C)" "avl Lf" "avlc C (Suc (ht Lf))"
          using z l r av by auto
        note u = delete_unlink [OF z'(1-3) False z'(4,5)]
        have "nd_right m a = 0" "nd_left m a = 0" "cpar C \<noteq> 0"
          using z' False cpar_eq0 [of tr C] by auto
        moreover have "(if nd_left m (cpar C) = a then (set_nd_left m (cpar C) 0, - 1)
            else if nd_right m (cpar C) = a then (set_nd_right m (cpar C) 0, 1) else (m, 0)) =
            (relink m tr C 0, side C)"
          using unlink_code(1) [of m tr C a 0] unlink_code(2) [of m tr C a] z' False by auto
        moreover obtain m' where m': "avl_delete_fix (relink m tr C 0) tr (cpar C) (side C) = Some m'"
            "tree_in m' tr (del_fix C Lf)" "frame_eq tr (a # caddrs C) m m'"
          using u(4) by (auto simp: reparent_def)
        ultimately have "avl_delete_node m tr a = Some (m', a)"
          using u(2) root by (simp add: avl_delete_node_def)
        moreover have "frame_eq tr (addrs (plug C (Nd l a b d r))) m m'"
          by (rule frame_set [OF _ m'(3)]) (auto simp: set_addrs_plug)
        ultimately show ?thesis using m'(2) l r by simp
      qed
    qed
  qed
qed

subsection \<open>Moving a node\<close>

lemma ctx_at_cell: "ctx_at m tr C p \<Longrightarrow> C \<noteq> [] \<Longrightarrow> m tr \<in> set (caddrs C)"
proof (induction C arbitrary: p rule: caddrs.induct)
  case (2 a b d r C)
  then show ?case by (cases "C = []") auto
next
  case (3 l a b d C)
  then show ?case by (cases "C = []") auto
qed simp

lemma avl_move_mem:
  assumes t: "tree_in m tr (plug C (Nd l a b d r))"
    and x: "okp x" "tr \<notin> foot x" "sepl x (addrs (plug C (Nd l a b d r)))"
  shows "tree_in (avl_move m tr x a) tr (plug C (Nd l x b d r))"
    and "frame_eq tr (x # addrs (plug C (Nd l a b d r))) m (avl_move m tr x a)"
proof -
  have z: "tree_at m (cpar C) (Nd l a b d r)" "ctx_at m tr C a"
    "wfl tr (addrs (Nd l a b d r) @ caddrs C)"
    using t by (auto simp: tree_in_zip)
  have xs: "sepl x (addrs (Nd l a b d r) @ caddrs C)"
    using x set_addrs_plug [of C "Nd l a b d r"] by (auto simp: sepl_def)
  have xa: "sep a x" "sep x a" "x \<noteq> a" using xs by (auto simp: sep_commute)
  define m1 where "m1 = (if cpar C \<noteq> 0 then (if nd_left m (cpar C) = a
    then set_nd_left m (cpar C) x else set_nd_right m (cpar C) x) else m)"
  define m2 where "m2 = reparent m1 (root l) x"
  define m3 where "m3 = reparent m2 (root r) x"
  define m4 where "m4 = set_nd_data (set_nd_right (set_nd_left (set_nd_prev m3 x (cpar C OR bcode b))
    x (root l)) x (root r)) x d"
  have m1: "m1 = (if C = [] then m else relink m tr C x)"
    using z relink_code [of m tr C a m x] cpar_eq0 [of tr C] by (auto simp: m1_def)
  have m1a: "tree_at m1 (cpar C) (Nd l a b d r)" "ctx_at m1 tr C (if C = [] then a else x)"
    "nd_left m1 a = root l"
    using z m1 by (auto simp: seps_commute)
  have m2a: "tree_at m2 x l" "tree_at m2 a r" "ctx_at m2 tr C (if C = [] then a else x)"
    "nd_prev m2 a = cpar C OR bcode b" "nd_right m2 a = root r" "nd_data m2 a = d"
    using z m1a xs by (auto simp: m2_def seps_commute)
  have m3a: "tree_at m3 x l" "tree_at m3 x r" "ctx_at m3 tr C (if C = [] then a else x)"
    "nd_prev m3 a = cpar C OR bcode b" "nd_data m3 a = d"
    using z m2a xs by (auto simp: m3_def seps_commute)
  have m4a: "tree_at m4 (cpar C) (Nd l x b d r)" "ctx_at m4 tr C (if C = [] then a else x)"
    using m3a xs x by (auto simp: m4_def)
  have gp: "get_parent m a = cpar C" using z by (intro get_parent_tag [where b = b]) auto
  have mtr: "m4 tr = a \<longleftrightarrow> C = []"
    using m4a(2) ctx_at_cell [of m4 tr C] z(3) sepl_notin [of a "caddrs C"] by auto
  have mv: "avl_move m tr x a = (if C = [] then m4(tr := x) else m4)"
    unfolding avl_move_def Let_def gp m1_def [symmetric] reparent_code
    using m1a(3) m2a m3a xa mtr by (simp add: m2_def [symmetric] m3_def [symmetric] m4_def)
  have "wfl tr (addrs (Nd l x b d r) @ caddrs C)" using z(3) x xs by (auto simp: seps_commute)
  then show "tree_in (avl_move m tr x a) tr (plug C (Nd l x b d r))"
    using m4a x(2) unfolding mv by (auto simp: tree_in_zip)
  have "set (addrs l) \<subseteq> set (x # addrs (plug C (Nd l a b d r)))"
    "set (addrs r) \<subseteq> set (x # addrs (plug C (Nd l a b d r)))"
    "set (caddrs C) \<subseteq> set (x # addrs (plug C (Nd l a b d r)))"
    unfolding set_addrs_plug by (auto simp: set_addrs_plug)
  then have "frame_eq tr (x # addrs (plug C (Nd l a b d r))) m m4"
    unfolding m4_def m3_def m2_def m1 by simp
  then show "frame_eq tr (x # addrs (plug C (Nd l a b d r))) m (avl_move m tr x a)"
    unfolding mv by auto
qed

subsection \<open>What deletion does to the sequence of nodes\<close>

lemma addrs_distinct: "tree_in m tr t \<Longrightarrow> distinct (addrs t)"
  using wfl_distinct [of tr "addrs t"] by (simp add: tree_in_def)

lemma inorder_distinct: "tree_in m tr t \<Longrightarrow> distinct (map fst (inorder t))"
  using addrs_distinct [of m tr t] mset_addrs [of t] mset_eq_imp_distinct_iff by blast

lemma split_unique:
  "xs @ p # ys = xs' @ q # ys' \<Longrightarrow> distinct (map fst (xs @ p # ys)) \<Longrightarrow> fst p = fst q \<Longrightarrow>
   xs = xs' \<and> p = q \<and> ys = ys'"
proof (induction xs arbitrary: xs')
  case Nil
  then show ?case by (cases xs') auto
next
  case (Cons x xs)
  then show ?case by (cases xs') auto
qed

text \<open>
  A node \<open>a\<close> between \<open>xs\<close> and \<open>ys\<close>. The deletion either unlinks \<open>a\<close> itself, or unlinks a
  neighbour in the sequence, whose data \<open>a\<close> then holds.
\<close>

lemma inorder_del_at:
  assumes "avl (plug C (Nd l a b d r))" "del_at C (Nd l a b d r) = (t', s)"
  shows "s = a \<and> inorder t' = before C @ inorder l @ inorder r @ after C \<or>
    (\<exists>ds zs. inorder r = (s, ds) # zs \<and> inorder t' = before C @ inorder l @ (a, ds) # zs @ after C) \<or>
    (\<exists>ds. r = Lf \<and> inorder l = [(s, ds)] \<and> inorder t' = before C @ (a, ds) # after C)"
proof (cases "r = Lf")
  case False
  then obtain D s1 bs ds sr where "inorder r = (s1, ds) # inorder sr @ after D"
    by (rule leftmost_cases)
  with inorder_del_at_right [OF False this, of C l a b d] assms(2) show ?thesis by auto
next
  case True
  then have "l = Lf \<or> (\<exists>s ds. l = Nd Lf s Bal ds Lf)"
    using assms(1) avl_left_leaf unfolding avl_plug by blast
  then show ?thesis
    using True assms(2) inorder_del_fix [of C Lf] inorder_del_fix [of "FL a b _ Lf # C" Lf]
    by (auto simp del: del_fix.simps)
qed

lemma tree_split:
  assumes "tree_in m tr t" "inorder t = xs @ (a, d) # ys"
  obtains C l b r where "t = plug C (Nd l a b d r)" "xs = before C @ inorder l"
    "ys = inorder r @ after C"
proof -
  have "a \<in> set (addrs t)" using assms(2) by (simp add: set_addrs)
  then obtain C l b d' r where t: "t = plug C (Nd l a b d' r)" using in_addrs_plug by blast
  have e: "xs @ (a, d) # ys = (before C @ inorder l) @ (a, d') # (inorder r @ after C)"
    using assms(2) t by (simp add: inorder_plug)
  have di: "distinct (map fst (xs @ (a, d) # ys))" using inorder_distinct assms by metis
  with split_unique [OF e di] have "xs = before C @ inorder l" "d' = d" "ys = inorder r @ after C"
    by simp_all
  with t that show thesis by auto
qed

text \<open>
  The deletion followed by the move, as the allocator uses them: exactly the node \<open>a\<close> leaves the
  tree, every other node keeps its address and data.
\<close>

lemma avl_remove_mem:
  assumes t: "tree_in m tr t" "avl t" "inorder t = xs @ (a, d) # ys"
  shows "\<exists>m1 s t'. avl_delete_node m tr a = Some (m1, s) \<and>
    tree_in (avl_move m1 tr s a) tr t' \<and> avl t' \<and> inorder t' = xs @ ys \<and>
    frame_eq tr (addrs t) m (avl_move m1 tr s a)"
proof -
  obtain C l b r where p: "t = plug C (Nd l a b d r)" "xs = before C @ inorder l"
    "ys = inorder r @ after C"
    using tree_split [OF t(1,3)] by metis
  obtain t1 s where del: "del_at C (Nd l a b d r) = (t1, s)" by fastforce
  obtain m1 where m1: "avl_delete_node m tr a = Some (m1, s)" "tree_in m1 tr t1"
      "frame_eq tr (addrs t) m m1"
    using avl_delete_node_mem [of m tr C l a b d r] t(1,2) p(1) del by auto
  have av: "avl t1" using avl_del_at [of C l a b d r] t(2) p(1) del by simp
  consider "s = a" "inorder t1 = xs @ ys"
    | A ds B where "inorder t1 = A @ (a, ds) # B" "xs @ ys = A @ (s, ds) # B"
    using inorder_del_at [OF t(2) [unfolded p(1)] del]
  proof (elim disjE exE conjE)
    fix ds zs
    assume "inorder r = (s, ds) # zs" "inorder t1 = before C @ inorder l @ (a, ds) # zs @ after C"
    then show thesis using that(2) [of "before C @ inorder l" ds "zs @ after C"] p by simp
  next
    fix ds
    assume "r = Lf" "inorder l = [(s, ds)]" "inorder t1 = before C @ (a, ds) # after C"
    then show thesis using that(2) [of "before C" ds "after C"] p by simp
  qed (use that(1) p in simp)
  then show ?thesis
  proof cases
    case 1
    then show ?thesis using m1 av by (auto simp: avl_move_def)
  next
    case (2 A ds B)
    obtain C1 l1 b1 r1 where q: "t1 = plug C1 (Nd l1 a b1 ds r1)" "A = before C1 @ inorder l1"
      "B = inorder r1 @ after C1"
      using tree_split [OF m1(2) 2(1)] by metis
    have sub: "set (addrs t) = insert a (insert s (fst ` set (A @ B)))"
      using t(3) arg_cong [OF 2(2), of set] by (auto simp: set_addrs)
    have t1a: "set (addrs t1) = insert a (fst ` set (A @ B))" using 2(1) by (auto simp: set_addrs)
    have "distinct (map fst (xs @ (a, d) # ys))" using inorder_distinct [OF t(1)] t(3) by simp
    then have "distinct (a # map fst (xs @ ys))" by auto
    then have sn: "s \<notin> set (addrs t1)" unfolding 2(2) t1a by auto
    have w: "okp s" "tr \<notin> foot s" "sepl s (addrs t1)"
      using t(1) sub sn t1a by (auto simp: tree_in_def wfl_set sepl_def)
    note mv = avl_move_mem [OF m1(2) [unfolded q(1)] w(1,2) w(3) [unfolded q(1)]]
    have "frame_eq tr (addrs t) m1 (avl_move m1 tr s a)"
      by (rule frame_set [OF _ mv(2)]) (use sub t1a q in auto)
    from frame_trans [OF m1(3) this] have fr: "frame_eq tr (addrs t) m (avl_move m1 tr s a)" .
    have "avl (plug C1 (Nd l1 s b1 ds r1))" using av q(1) by (simp add: avl_plug)
    moreover have "inorder (plug C1 (Nd l1 s b1 ds r1)) = xs @ ys"
      using 2(2) q by (simp add: inorder_plug)
    ultimately show ?thesis using m1(1) mv(1) fr by blast
  qed
qed

end
