(* ===== verification/Avl_Index.thy ===== *)
theory Avl_Index
  imports Avl_Delete
begin

text \<open>
  The AVL tree as an index: the interface its clients rely on. A client sees the sequence of
  (address, data) pairs in the order of the tree and three operations that change it; the locale
  \<open>node_index\<close> states their laws, the interpretation \<open>avl_nodes\<close> discharges them for the code.
  Also here: the height of an AVL tree, its self-check, and the search for a large enough node.
\<close>

subsection \<open>Height\<close>

lemma square_sum: "(a + b)\<^sup>2 = a\<^sup>2 + 2 * (a * b) + (b::nat)\<^sup>2"
  by (simp add: power2_eq_square algebra_simps)

lemma avl_height_bound: "avl t \<Longrightarrow> 2 ^ ht t \<le> (Suc (length (inorder t)))\<^sup>2"
proof (induction t)
  case (Nd l a b d r)
  let ?L = "Suc (length (inorder l))" and ?R = "Suc (length (inorder r))"
  have ih: "2 ^ ht l \<le> ?L\<^sup>2" "2 ^ ht r \<le> ?R\<^sup>2" using Nd by auto
  have sq: "(?L + ?R)\<^sup>2 = ?L\<^sup>2 + 2 * (?L * ?R) + ?R\<^sup>2" by (rule square_sum)
  have mono: "?L \<le> ?R \<or> ?R \<le> ?L" by linarith
  have le: "?L \<le> ?R \<Longrightarrow> ?L\<^sup>2 \<le> ?L * ?R" "?R \<le> ?L \<Longrightarrow> ?R\<^sup>2 \<le> ?L * ?R"
    by (simp_all only: power2_eq_square mult_le_mono2 mult_le_mono1)
  have "2 * 2 ^ max (ht l) (ht r) \<le> (?L + ?R)\<^sup>2"
  proof (cases b)
    case Lh
    then have "ht l = Suc (ht r)" "max (ht l) (ht r) = ht l" using Nd by (auto simp: balanced_def)
    then show ?thesis using ih le mono unfolding sq by auto
  next
    case Bal
    then have "ht l = ht r" using Nd by (auto simp: balanced_def)
    then show ?thesis using ih le mono unfolding sq by auto
  next
    case Rh
    then have "ht r = Suc (ht l)" "max (ht l) (ht r) = ht r" using Nd by (auto simp: balanced_def)
    then show ?thesis using ih le mono unfolding sq by auto
  qed
  then show ?case by simp
qed simp

lemma max_s_height:
  assumes "a < 2 ^ 63" "b < 2 ^ 63"
  shows "max_s (of_nat a - 1) (of_nat b - 1) = (of_nat (max a b) - 1 :: u64)"
proof -
  have "sint (of_nat n - 1 :: u64) = int n - 1" if "n < 2 ^ 63" for n
  proof -
    have e: "(of_nat n - 1 :: u64) = word_of_int (int n - 1)" by simp
    show ?thesis using that unfolding e by (subst signed_of_int) (auto intro!: signed_take_bit_int_eq_self)
  qed
  with assms show ?thesis by (auto simp: max_s_def max_def)
qed

lemma avl_tree_height_mem:
  "tree_at m par t \<Longrightarrow> wfl tr (addrs t) \<Longrightarrow> ht t < 2 ^ 63 \<Longrightarrow>
   avl_tree_height m (root t) = Some (of_nat (ht t) - 1)"
proof (induction t arbitrary: par)
  case Lf
  show ?case by (subst avl_tree_height.simps) simp
next
  case (Nd l a b d r)
  have "avl_tree_height m (root l) = Some (of_nat (ht l) - 1)"
    "avl_tree_height m (root r) = Some (of_nat (ht r) - 1)"
    using Nd by auto
  moreover have "max_s (of_nat (ht l) - 1) (of_nat (ht r) - 1) = of_nat (max (ht l) (ht r)) - 1"
    using Nd.prems(3) by (intro max_s_height) auto
  ultimately show ?case using Nd.prems by (subst avl_tree_height.simps) auto
qed

lemma height_eq [simp]:
  "a < 2 ^ 63 \<Longrightarrow> b < 2 ^ 63 \<Longrightarrow> (of_nat a :: u64) = of_nat b \<longleftrightarrow> a = b"
  by (simp add: word_of_nat_eq_iff take_bit_nat_eq_self)

subsection \<open>A node with enough data\<close>

text \<open>The search of \<open>avl_min_ge\<close> on a tree: children first, then the node.\<close>

fun min_ge :: "tree \<Rightarrow> u64 \<Rightarrow> u64" where
  "min_ge Lf n = 0"
| "min_ge (Nd l a b d r) n =
     (if min_ge l n \<noteq> 0 then min_ge l n
      else if min_ge r n \<noteq> 0 then min_ge r n
      else if n \<le> d then a else 0)"

lemma avl_min_ge_mem:
  "tree_at m par t \<Longrightarrow> wfl tr (addrs t) \<Longrightarrow> avl_min_ge m (root t) n = Some (min_ge t n)"
  by (induction t arbitrary: par; subst avl_min_ge.simps) auto

lemma min_ge_none: "wfl tr (addrs t) \<Longrightarrow> min_ge t n = 0 \<Longrightarrow> \<forall>(a, d) \<in> set (inorder t). d < n"
  by (induction t) (auto split: if_splits)

lemma min_ge_some: "min_ge t n \<noteq> 0 \<Longrightarrow> \<exists>d. (min_ge t n, d) \<in> set (inorder t) \<and> n \<le> d"
  by (induction t) (auto split: if_splits)

lemma tree_at_data:
  "tree_at m par t \<Longrightarrow> (a, d) \<in> set (inorder t) \<Longrightarrow> nd_data m a = d"
  by (induction t arbitrary: par) auto

subsection \<open>The interface\<close>

text \<open>The root cell \<open>tr\<close> holds an AVL tree whose nodes are \<open>xs\<close>, in this order.\<close>

definition holds :: "mem \<Rightarrow> u64 \<Rightarrow> (u64 \<times> u64) list \<Rightarrow> bool" where
  "holds m tr xs \<longleftrightarrow> (\<exists>t. tree_in m tr t \<and> avl t \<and> inorder t = xs)"

text \<open>The nodes of a list are in the order of their addresses.\<close>

definition by_addr :: "(u64 \<times> u64) list \<Rightarrow> bool" where
  "by_addr xs \<longleftrightarrow> sorted_wrt (<) (map fst xs)"

lemma holdsE:
  assumes "holds m tr xs"
  obtains t where "tree_in m tr t" "avl t" "inorder t = xs"
  using assms by (auto simp: holds_def)

lemma holds_wfl: "holds m tr xs \<Longrightarrow> wfl tr (map fst xs)"
  using wfl_mset [OF mset_addrs] by (auto simp: holds_def tree_in_def)

lemma holds_data: "holds m tr xs \<Longrightarrow> (a, d) \<in> set xs \<Longrightarrow> nd_data m a = d"
  using tree_at_data by (auto simp: holds_def tree_in_def)

lemma frame_map_fst:
  "inorder t = xs \<Longrightarrow> frame_eq tr (ys @ addrs t) = frame_eq tr (ys @ map fst xs)"
  by (rule ext)+ (auto simp: frame_eq_def set_addrs)

lemma frame_eq_set: "set xs = set ys \<Longrightarrow> frame_eq tr xs = frame_eq tr ys"
  by (rule ext)+ (simp add: frame_eq_def)

text \<open>Deletion of exactly the node \<open>a\<close>: what \<open>alloc\<close> and \<open>avl_merge\<close> do in two calls.\<close>

definition take_node :: "mem \<Rightarrow> u64 \<Rightarrow> u64 \<Rightarrow> mem option" where
  "take_node m tr a = do { (m, s) \<leftarrow> avl_delete_node m tr a; Some (avl_move m tr s a) }"

definition put_node :: "mem \<Rightarrow> u64 \<Rightarrow> u64 \<Rightarrow> u64 \<Rightarrow> mem option" where
  "put_node m tr a d = do { (m, r) \<leftarrow> avl_insert_node m tr a d avl_mem_cmp; Some m }"

locale node_index =
  fixes repr :: "mem \<Rightarrow> u64 \<Rightarrow> (u64 \<times> u64) list \<Rightarrow> bool"
    and take :: "mem \<Rightarrow> u64 \<Rightarrow> u64 \<Rightarrow> mem option"
    and put :: "mem \<Rightarrow> u64 \<Rightarrow> u64 \<Rightarrow> u64 \<Rightarrow> mem option"
  assumes repr_wfl: "repr m tr xs \<Longrightarrow> wfl tr (map fst xs)"
    and take_law: "repr m tr (xs @ (a, d) # ys) \<Longrightarrow>
      \<exists>m'. take m tr a = Some m' \<and> repr m' tr (xs @ ys) \<and>
        frame_eq tr (map fst (xs @ (a, d) # ys)) m m'"
    and put_law: "repr m tr (xs @ ys) \<Longrightarrow> by_addr (xs @ (a, d) # ys) \<Longrightarrow>
      okp a \<Longrightarrow> tr \<notin> foot a \<Longrightarrow> sepl a (map fst (xs @ ys)) \<Longrightarrow>
      \<exists>m'. put m tr a d = Some m' \<and> repr m' tr (xs @ (a, d) # ys) \<and>
        frame_eq tr (map fst (xs @ (a, d) # ys)) m m'"
begin

text \<open>A node is replaced by another at the same place of the order.\<close>

lemma replace:
  assumes r: "repr m tr (xs @ (a, d) # ys)" and s: "by_addr (xs @ (a', d') # ys)"
    and a: "okp a'" "tr \<notin> foot a'" "sepl a' (map fst (xs @ ys))"
  shows "\<exists>m1 m2. take m tr a = Some m1 \<and> put m1 tr a' d' = Some m2 \<and>
    repr m2 tr (xs @ (a', d') # ys) \<and> frame_eq tr (map fst (xs @ (a, d) # (a', d') # ys)) m m2"
proof -
  obtain m1 where m1: "take m tr a = Some m1" "repr m1 tr (xs @ ys)"
    "frame_eq tr (map fst (xs @ (a, d) # ys)) m m1" using take_law [OF r] by blast
  obtain m2 where m2: "put m1 tr a' d' = Some m2" "repr m2 tr (xs @ (a', d') # ys)"
    "frame_eq tr (map fst (xs @ (a', d') # ys)) m1 m2" using put_law [OF m1(2) s a] by blast
  let ?F = "map fst (xs @ (a, d) # (a', d') # ys)"
  have "frame_eq tr ?F m m1" by (rule frame_set [OF _ m1(3)]) auto
  moreover have "frame_eq tr ?F m1 m2" by (rule frame_set [OF _ m2(3)]) auto
  ultimately show ?thesis using m1 m2 frame_trans by blast
qed

end

lemma holds_take:
  assumes "holds m tr (xs @ (a, d) # ys)"
  shows "\<exists>m'. take_node m tr a = Some m' \<and> holds m' tr (xs @ ys) \<and>
    frame_eq tr (map fst (xs @ (a, d) # ys)) m m'"
proof -
  obtain t where t: "tree_in m tr t" "avl t" "inorder t = xs @ (a, d) # ys"
    using assms by (rule holdsE)
  from avl_remove_mem [OF t] frame_map_fst [OF t(3), of tr "[]"] show ?thesis
    by (auto simp: take_node_def holds_def)
qed

text \<open>The order by address is an order in the sense of \<open>cmp_ok\<close>.\<close>

definition addr_cmp :: "u64 \<Rightarrow> u64 \<Rightarrow> u64 \<Rightarrow> u64" where
  "addr_cmp x a d = (if a < x then 1 else if a = x then 0 else -1)"

lemma addr_cmp_values: "addr_cmp x a d = -1 \<or> addr_cmp x a d = 0 \<or> addr_cmp x a d = 1"
  by (simp add: addr_cmp_def)

lemma cmp_is_addr: "cmp_is avl_mem_cmp m x (addr_cmp x) xs"
  using addr_cmp_values by (auto simp: cmp_is_def avl_mem_cmp_def addr_cmp_def [symmetric])

lemma addr_cmp_before: "a < a' \<Longrightarrow> addr_cmp x a d = 1 \<or> addr_cmp x a' d' = -1"
  by (auto simp: addr_cmp_def)

lemma cmp_ok_addr: "by_addr xs \<Longrightarrow> cmp_ok (addr_cmp x) xs"
  unfolding cmp_ok_def by_addr_def sorted_wrt_map
proof
  show "\<forall>(a, d) \<in> set xs. addr_cmp x a d = -1 \<or> addr_cmp x a d = 0 \<or> addr_cmp x a d = 1"
    using addr_cmp_values by auto
  assume "sorted_wrt (\<lambda>p q. fst p < fst q) xs"
  then show "sorted_wrt (\<lambda>(a, d) (a', d'). addr_cmp x a d = 1 \<or> addr_cmp x a' d' = -1) xs"
    by (rule sorted_wrt_mono_rel [rotated]) (use addr_cmp_before in fastforce)
qed

lemma insert_new_mem:
  assumes t: "tree_in m tr t" "avl t" and x: "okp x" "tr \<notin> foot x" "sepl x (addrs t)"
    and c: "cmp_is cmp (init_node m x data) x c (inorder t)" "cmp_ok c (inorder t)"
    and new: "\<forall>(a, d) \<in> set (inorder t). c a d \<noteq> 0"
  shows "\<exists>m' t' xs ys. avl_insert_node m tr x data cmp = Some (m', 0) \<and> tree_in m' tr t' \<and>
    avl t' \<and> inorder t = xs @ ys \<and> inorder t' = xs @ (x, data) # ys \<and>
    (\<forall>(a, d) \<in> set xs. c a d = 1) \<and> (\<forall>(a, d) \<in> set ys. c a d = -1) \<and>
    frame_eq tr (x # addrs t) m m'"
proof -
  obtain D u where l: "locate c t [] = (D, u)" by fastforce
  have u: "u = Lf" using locate_finds(1) [OF c(2) l] new by fastforce
  have sides: "(\<forall>(a, d) \<in> set (before D). c a d = 1) \<and> (\<forall>(a, d) \<in> set (after D). c a d = -1)"
    using locate_sides [OF l] c(2) by simp
  have pl: "t = plug D Lf" using locate_plug [OF l] u by simp
  then have av: "avlc D 0" using t(2) by (simp add: avl_plug)
  obtain m' where m': "avl_insert_node m tr x data cmp = Some (m', 0)"
    "tree_in m' tr (ins_at D (Nd Lf x Bal data Lf))" "frame_eq tr (x # addrs t) m m'"
    using avl_insert_node_new [OF t x c(1) l [unfolded u]] by blast
  have "inorder t = before D @ after D" using pl by (simp add: inorder_plug)
  moreover have "inorder (ins_at D (Nd Lf x Bal data Lf)) = before D @ (x, data) # after D"
    by (simp add: inorder_ins_at)
  ultimately show ?thesis using m' avl_ins_at [OF av] sides by blast
qed

lemma split_by:
  assumes "xs @ ys = xs' @ ys'" "\<forall>x \<in> set xs. P x" "\<forall>x \<in> set ys. \<not> P x"
    "\<forall>x \<in> set xs'. P x" "\<forall>x \<in> set ys'. \<not> P x"
  shows "xs = xs' \<and> ys = ys'"
proof -
  have "filter P (xs @ ys) = xs" "filter P (xs' @ ys') = xs'" using assms(2-) by simp_all
  with assms(1) show ?thesis by simp
qed

lemma holds_put:
  assumes h: "holds m tr (xs @ ys)" and s: "by_addr (xs @ (a, d) # ys)"
    and a: "okp a" "tr \<notin> foot a" "sepl a (map fst (xs @ ys))"
  shows "\<exists>m'. put_node m tr a d = Some m' \<and> holds m' tr (xs @ (a, d) # ys) \<and>
    frame_eq tr (map fst (xs @ (a, d) # ys)) m m'"
proof -
  obtain t where t: "tree_in m tr t" "avl t" "inorder t = xs @ ys" using h by (rule holdsE)
  have sa: "set (addrs t) = set (map fst (xs @ ys))" using t(3) by (simp add: set_addrs image_Un)
  have xs: "\<forall>p \<in> set xs. addr_cmp a (fst p) (snd p) = 1"
    and ys: "\<forall>p \<in> set ys. addr_cmp a (fst p) (snd p) = -1"
    using s by (auto simp: by_addr_def sorted_wrt_append addr_cmp_def)
  have ord: "by_addr (xs @ ys)" using s by (auto simp: by_addr_def sorted_wrt_append)
  have "sepl a (addrs t)" using a(3) sa by (simp add: sepl_def)
  moreover have "\<forall>(b, e) \<in> set (inorder t). addr_cmp a b e \<noteq> 0" using xs ys t(3) by fastforce
  ultimately obtain m' t' xs' ys' where m': "avl_insert_node m tr a d avl_mem_cmp = Some (m', 0)"
      "tree_in m' tr t'" "avl t'" "inorder t = xs' @ ys'" "inorder t' = xs' @ (a, d) # ys'"
      "\<forall>(b, e) \<in> set xs'. addr_cmp a b e = 1" "\<forall>(b, e) \<in> set ys'. addr_cmp a b e = -1"
      "frame_eq tr (a # addrs t) m m'"
    using insert_new_mem [OF t(1,2) a(1,2) _ cmp_is_addr, of d]
      cmp_ok_addr [OF ord, of a] t(3) by auto
  have "xs = xs' \<and> ys = ys'"
    by (rule split_by [where P = "\<lambda>p. addr_cmp a (fst p) (snd p) = 1"])
      (use m'(4,6,7) t(3) xs ys in auto)
  moreover have "frame_eq tr (map fst (xs @ (a, d) # ys)) m m'"
    by (rule frame_set [OF _ m'(8)]) (auto simp: sa)
  ultimately show ?thesis using m'(1,2,3,5) by (auto simp: put_node_def holds_def)
qed

interpretation avl_nodes: node_index holds take_node put_node
proof
  show "holds m tr xs \<Longrightarrow> wfl tr (map fst xs)" for m tr xs by (rule holds_wfl)
qed (fact holds_take holds_put)+

end
