(* ===== verification/Heap_Inv.thy ===== *)
theory Heap_Inv
  imports Heap_Model Avl_Index
begin

text \<open>
  The invariant of the heap. An abstract heap is the list of its blocks in the order of their
  addresses, each with its size in words and whether it is in use. The blocks tile the memory
  between the header and \<^verbatim>\<open>heap_end\<close>, no two free blocks are neighbours, the AVL tree holds exactly
  the free blocks, every block in use starts with its size, and the counters are right.
\<close>

type_synonym block = "u64 \<times> u64 \<times> bool"

fun tiles :: "nat \<Rightarrow> block list \<Rightarrow> nat \<Rightarrow> bool" where
  "tiles lo [] hi = (lo = hi)"
| "tiles lo ((a, n, u) # bs) hi =
     (unat a = lo \<and> 4 \<le> unat n \<and> lo + 8 * unat n \<le> hi \<and> tiles (lo + 8 * unat n) bs hi)"

definition free_blocks :: "block list \<Rightarrow> (u64 \<times> u64) list" where
  "free_blocks bs = map (\<lambda>(a, n, u). (a, n)) (filter (\<lambda>(a, n, u). \<not> u) bs)"

definition used_blocks :: "block list \<Rightarrow> (u64 \<times> u64) list" where
  "used_blocks bs = map (\<lambda>(a, n, u). (a, n)) (filter (\<lambda>(a, n, u). u) bs)"

definition coalesced :: "block list \<Rightarrow> bool" where
  "coalesced = successively (\<lambda>(a, n, u) (b, k, v). u \<or> v)"

text \<open>The words of a block.\<close>

definition blk :: "u64 \<Rightarrow> u64 \<Rightarrow> u64 set" where
  "blk a n = {x. unat a \<le> unat x \<and> unat x < unat a + 8 * unat n}"

lemma blocks_simps [simp]:
  "free_blocks [] = []" "used_blocks [] = []"
  "free_blocks ((a, n, u) # bs) = (if u then free_blocks bs else (a, n) # free_blocks bs)"
  "used_blocks ((a, n, u) # bs) = (if u then (a, n) # used_blocks bs else used_blocks bs)"
  "free_blocks (bs @ cs) = free_blocks bs @ free_blocks cs"
  "used_blocks (bs @ cs) = used_blocks bs @ used_blocks cs"
  by (auto simp: free_blocks_def used_blocks_def)

lemma in_free_blocks: "(a, n) \<in> set (free_blocks bs) \<longleftrightarrow> (a, n, False) \<in> set bs"
  by (auto simp: free_blocks_def image_iff)

lemma in_used_blocks: "(a, n) \<in> set (used_blocks bs) \<longleftrightarrow> (a, n, True) \<in> set bs"
  by (auto simp: used_blocks_def image_iff)

subsection \<open>Tilings\<close>

lemma tiles_le: "tiles lo bs hi \<Longrightarrow> lo \<le> hi"
  by (induction bs arbitrary: lo rule: list.induct) (auto split: prod.splits)

lemma tiles_append: "tiles lo (xs @ ys) hi \<longleftrightarrow> (\<exists>mid. tiles lo xs mid \<and> tiles mid ys hi)"
proof (induction xs arbitrary: lo)
  case (Cons x xs)
  obtain a n u where x: "x = (a, n, u)" by (cases x) auto
  have "tiles mid ys hi \<Longrightarrow> tiles (lo + 8 * unat n) xs mid \<Longrightarrow> lo + 8 * unat n \<le> hi" for mid
    using tiles_le le_trans by blast
  moreover have "tiles (lo + 8 * unat n) xs mid \<Longrightarrow> lo + 8 * unat n \<le> mid" for mid
    by (rule tiles_le)
  ultimately show ?case using Cons x by auto
qed auto

lemma tiles_mem:
  "tiles lo bs hi \<Longrightarrow> (a, n, u) \<in> set bs \<Longrightarrow>
   lo \<le> unat a \<and> 4 \<le> unat n \<and> unat a + 8 * unat n \<le> hi"
proof (induction bs arbitrary: lo)
  case (Cons b bs)
  show ?case
  proof (cases "b = (a, n, u)")
    case True
    with Cons.prems show ?thesis by simp
  next
    case False
    obtain a' n' u' where b: "b = (a', n', u')" by (cases b) auto
    with Cons False have "lo + 8 * unat n' \<le> unat a \<and> 4 \<le> unat n \<and> unat a + 8 * unat n \<le> hi"
      by (metis set_ConsD tiles.simps(2))
    then show ?thesis by linarith
  qed
qed simp

lemma tiles_aligned:
  "tiles lo bs hi \<Longrightarrow> lo mod 8 = 0 \<Longrightarrow> (a, n, u) \<in> set bs \<Longrightarrow> unat a mod 8 = 0"
proof (induction bs arbitrary: lo)
  case (Cons b bs)
  obtain a' n' u' where b: "b = (a', n', u')" by (cases b) auto
  have "(lo + 8 * unat n') mod 8 = 0" using Cons.prems(2) by (simp add: mod_add_eq [symmetric])
  with Cons b show ?case by auto
qed simp

lemma tiles_split:
  assumes "tiles lo (xs @ (a, n, u) # ys) hi"
  shows "tiles lo xs (unat a)" "tiles (unat a + 8 * unat n) ys hi" "4 \<le> unat n"
    "unat a + 8 * unat n \<le> hi" "lo \<le> unat a"
  using assms tiles_le [of lo xs "unat a"] by (auto simp: tiles_append)

text \<open>Two different blocks do not overlap.\<close>

lemma tiles_disjoint:
  assumes "tiles lo (xs @ (a, n, u) # ys) hi"
  shows "(b, k, v) \<in> set xs \<Longrightarrow> unat b + 8 * unat k \<le> unat a"
    "(b, k, v) \<in> set ys \<Longrightarrow> unat a + 8 * unat n \<le> unat b"
  using tiles_split [OF assms] tiles_mem by blast+

subsection \<open>Addresses\<close>

lemma unat_add: "unat (a :: u64) + unat b < 2 ^ 64 \<Longrightarrow> unat (a + b) = unat a + unat b"
  by (simp add: unat_word_ariths)

lemma unat_mult8: "8 * unat n < 2 ^ 64 \<Longrightarrow> unat (8 * n :: u64) = 8 * unat n"
  by (simp add: unat_word_ariths)

lemma unat_add_lit:
  "unat (a :: u64) + 64 < 2 ^ 64 \<Longrightarrow> unat (a + 8) = unat a + 8"
  "unat (a :: u64) + 64 < 2 ^ 64 \<Longrightarrow> unat (a + 16) = unat a + 16"
  "unat (a :: u64) + 64 < 2 ^ 64 \<Longrightarrow> unat (a + 24) = unat a + 24"
  "unat (a :: u64) + 64 < 2 ^ 64 \<Longrightarrow> unat (a + 32) = unat a + 32"
  "unat (a :: u64) + 64 < 2 ^ 64 \<Longrightarrow> unat (a + 40) = unat a + 40"
  "unat (a :: u64) + 64 < 2 ^ 64 \<Longrightarrow> unat (a + 56) = unat a + 56"
  "unat (a :: u64) + 64 < 2 ^ 64 \<Longrightarrow> unat (a + 64) = unat a + 64"
  by (subst unat_add; simp)+

lemma foot_unat:
  assumes "unat a + 64 < 2 ^ 64" "x \<in> foot a"
  shows "unat a \<le> unat x \<and> unat x \<le> unat a + 24"
  using assms unat_add_lit [of a] by (auto simp: foot_def)

lemma foot_blk: "unat a + 64 < 2 ^ 64 \<Longrightarrow> 4 \<le> unat n \<Longrightarrow> foot a \<subseteq> blk a n"
  using foot_unat by (fastforce simp: blk_def)

lemma al_mod: "unat p mod 8 = 0 \<Longrightarrow> al p"
proof -
  assume "unat p mod 8 = 0"
  then have "unat p mod 4 = 0" using mod_mod_cancel [of 4 8 "unat p"] by simp
  moreover have "p AND 3 = take_bit 2 p" using take_bit_eq_mask [of 2 p] by (simp add: mask_eq_exp_minus_1)
  moreover have "unat (take_bit 2 p) = unat p mod 4" by (simp add: unsigned_take_bit_eq take_bit_eq_mod [where 'a = nat])
  ultimately show ?thesis unfolding al_def by (metis unat_eq_zero)
qed

lemma sep_far:
  assumes "unat a + 32 \<le> unat b" "unat b + 64 < 2 ^ 64"
  shows "sep a b"
proof -
  have "unat a + 64 < 2 ^ 64" using assms by linarith
  with assms foot_unat [of a] foot_unat [of b] show ?thesis by (fastforce simp: sep_def)
qed

subsection \<open>The invariant\<close>

definition heap_ok :: "mem \<Rightarrow> u64 \<Rightarrow> block list \<Rightarrow> bool" where
  "heap_ok m h bs \<longleftrightarrow>
     unat h mod 8 = 0 \<and> unat (m (heap_end h)) < 2 ^ 60 \<and>
     tiles (unat h + 64) bs (unat (m (heap_end h))) \<and> coalesced bs \<and>
     holds m (fmds_ptr h) (free_blocks bs) \<and>
     (\<forall>(a, n) \<in> set (used_blocks bs). m a = n) \<and>
     m (true_num_alloced h) = of_nat (length (used_blocks bs)) \<and>
     m (words_used h) = sum_list (map snd (used_blocks bs))"

lemma heap_okD:
  assumes "heap_ok m h bs"
  shows "unat h mod 8 = 0" "unat (m (heap_end h)) < 2 ^ 60"
    "tiles (unat h + 64) bs (unat (m (heap_end h)))" "coalesced bs"
    "holds m (fmds_ptr h) (free_blocks bs)" "(a, n) \<in> set (used_blocks bs) \<Longrightarrow> m a = n"
    "m (true_num_alloced h) = of_nat (length (used_blocks bs))"
    "m (words_used h) = sum_list (map snd (used_blocks bs))"
proof -
  note a = assms [unfolded heap_ok_def]
  show "unat h mod 8 = 0" by (rule a [THEN conjunct1])
  show "unat (m (heap_end h)) < 2 ^ 60" by (rule a [THEN conjunct2, THEN conjunct1])
  show "tiles (unat h + 64) bs (unat (m (heap_end h)))" by (rule a [THEN conjunct2, THEN conjunct2, THEN conjunct1])
  show "coalesced bs" by (rule a [THEN conjunct2, THEN conjunct2, THEN conjunct2, THEN conjunct1])
  show "holds m (fmds_ptr h) (free_blocks bs)" by (rule a [THEN conjunct2, THEN conjunct2, THEN conjunct2, THEN conjunct2, THEN conjunct1])
  show "m (true_num_alloced h) = of_nat (length (used_blocks bs))" by (rule a [THEN conjunct2, THEN conjunct2, THEN conjunct2, THEN conjunct2, THEN conjunct2, THEN conjunct2, THEN conjunct1])
  show "m (words_used h) = sum_list (map snd (used_blocks bs))"
    by (rule a [THEN conjunct2, THEN conjunct2, THEN conjunct2, THEN conjunct2, THEN conjunct2, THEN conjunct2, THEN conjunct2])
  show "(a, n) \<in> set (used_blocks bs) \<Longrightarrow> m a = n"
    using bspec [OF a [THEN conjunct2, THEN conjunct2, THEN conjunct2, THEN conjunct2, THEN conjunct2, THEN conjunct1], of "(a, n)"] by simp
qed

lemmas heap_cells = heap_end_def fmds_ptr_def true_num_alloced_def words_used_def

text \<open>The words of the free blocks.\<close>

definition free_area :: "block list \<Rightarrow> u64 set" where
  "free_area bs = (\<Union>(a, n) \<in> set (free_blocks bs). blk a n)"

text \<open>The cells of the header that the allocator writes.\<close>

definition ctl_cells :: "u64 \<Rightarrow> u64 set" where
  "ctl_cells h = {fmds_ptr h, true_num_alloced h, words_used h}"

definition same_except :: "u64 set \<Rightarrow> mem \<Rightarrow> mem \<Rightarrow> bool" where
  "same_except A m m' \<longleftrightarrow> (\<forall>x. x \<notin> A \<longrightarrow> m' x = m x)"

lemma same_except_refl [simp]: "same_except A m m"
  by (simp add: same_except_def)

lemma same_except_trans: "same_except A m m' \<Longrightarrow> same_except A m' m'' \<Longrightarrow> same_except A m m''"
  by (simp add: same_except_def)

lemma same_except_mono: "same_except A m m' \<Longrightarrow> A \<subseteq> B \<Longrightarrow> same_except B m m'"
  by (auto simp: same_except_def)

lemma same_except_write: "x \<in> A \<Longrightarrow> same_except A m (m'(x := v)) \<longleftrightarrow> same_except A m m'"
  by (auto simp: same_except_def)

lemma same_exceptD: "same_except A m m' \<Longrightarrow> x \<notin> A \<Longrightarrow> m' x = m x"
  by (simp add: same_except_def)

lemma frame_same_except:
  assumes "frame_eq tr xs m m'" "tr \<in> A" "\<forall>a \<in> set xs. foot a \<subseteq> A"
  shows "same_except A m m'"
  unfolding same_except_def
proof (intro allI impI)
  fix x assume "x \<notin> A"
  with assms(2,3) have "x \<noteq> tr" "\<forall>a \<in> set xs. x \<notin> foot a" by auto
  with assms(1) show "m' x = m x" by (simp add: frame_eq_def)
qed

lemma holds_same:
  assumes "holds m tr xs" "\<forall>(a, d) \<in> set xs. foot a \<inter> A = {}" "tr \<notin> A" "same_except A m m'"
  shows "holds m' tr xs"
proof -
  obtain t where t: "tree_in m tr t" "avl t" "inorder t = xs" using assms(1) by (rule holdsE)
  have "\<forall>a \<in> set (addrs t). foot a \<inter> A = {}"
    using assms(2) t(3) by (fastforce simp: set_addrs)
  then have "tree_at m' par t = tree_at m par t" for par
    using assms(4) by (intro tree_at_frame) (auto simp: same_except_def)
  moreover have "m' tr = m tr" using assms(3,4) by (rule same_exceptD [rotated])
  ultimately have "tree_in m' tr t" using t(1) by (simp add: tree_in_def)
  with t show ?thesis by (auto simp: holds_def)
qed

text \<open>Facts about one block of a heap.\<close>

lemma heap_block:
  assumes h: "unat h mod 8 = 0" "hi < 2 ^ 60" "tiles (unat h + 64) bs hi" and b: "(a, n, u) \<in> set bs"
  shows "unat h + 64 \<le> unat a" "4 \<le> unat n" "unat a + 8 * unat n \<le> hi" "unat a mod 8 = 0"
    "okp a" "foot a \<subseteq> blk a n"
proof -
  show ab: "unat h + 64 \<le> unat a" "4 \<le> unat n" "unat a + 8 * unat n \<le> hi"
    using tiles_mem [OF h(3) b] by auto
  have "(unat h + 64) mod 8 = 0" using h(1) by presburger
  then show m: "unat a mod 8 = 0" by (rule tiles_aligned [OF h(3) _ b])
  have "a \<noteq> 0" using ab(1) by (rule contrapos_pn) simp
  then show "okp a" using al_mod [OF m] unfolding okp_def by (rule conjI)
  have "hi + 32 < 2 ^ 64" using h(2) by simp
  then have "unat a + 64 < 2 ^ 64" using ab by linarith
  then show "foot a \<subseteq> blk a n" using ab(2) by (rule foot_blk)
qed

lemma cells_low:
  assumes "unat h + 64 < 2 ^ 60" "x \<in> insert (heap_end h) (ctl_cells h)"
  shows "unat x < unat h + 64"
  using assms unat_add_lit [of h] by (auto simp: ctl_cells_def heap_cells)

lemma cells_distinct:
  "heap_end h \<noteq> fmds_ptr h" "heap_end h \<noteq> true_num_alloced h" "heap_end h \<noteq> words_used h"
  "fmds_ptr h \<noteq> true_num_alloced h" "fmds_ptr h \<noteq> words_used h"
  "true_num_alloced h \<noteq> words_used h"
  "fmds_ptr h \<noteq> heap_end h" "true_num_alloced h \<noteq> heap_end h" "words_used h \<noteq> heap_end h"
  "true_num_alloced h \<noteq> fmds_ptr h" "words_used h \<noteq> fmds_ptr h"
  "words_used h \<noteq> true_num_alloced h"
  by (simp_all add: heap_cells)

lemma high_not_cell:
  assumes "unat h + 64 < 2 ^ 60" "unat h + 64 \<le> unat x"
  shows "x \<notin> insert (heap_end h) (ctl_cells h)"
  using cells_low [OF assms(1)] assms(2) by fastforce

end
