(* ===== verification/Heap_Alloc.thy ===== *)
theory Heap_Alloc
  imports Heap_Inv
begin

text \<open>
  Allocation keeps the heap invariant: it turns a free block, or the first part of one, into a
  block in use, and changes nothing else. It fails only when no free block is large enough.
\<close>

lemma tiles_sep:
  assumes "tiles lo (xs @ (a, n, u) # ys) hi" "hi < 2 ^ 60" "(b, k, v) \<in> set xs \<union> set ys"
  shows "sep a b" "blk a n \<inter> blk b k = {}"
proof -
  have n: "4 \<le> unat n" "unat a + 8 * unat n \<le> hi" using tiles_split [OF assms(1)] by auto
  have k: "4 \<le> unat k" "unat b + 8 * unat k \<le> hi" using tiles_mem [OF assms(1), of b k v] assms(3) by auto
  have hi: "hi + 32 < 2 ^ 64" using assms(2) by simp
  have d: "unat b + 8 * unat k \<le> unat a \<or> unat a + 8 * unat n \<le> unat b"
    using tiles_disjoint [OF assms(1)] assms(3) by blast
  then show "blk a n \<inter> blk b k = {}" by (auto simp: blk_def)
  from d show "sep a b"
  proof
    assume "unat b + 8 * unat k \<le> unat a"
    with n k hi have "sep b a" by (intro sep_far) linarith+
    then show ?thesis by (simp add: sep_commute)
  next
    assume "unat a + 8 * unat n \<le> unat b"
    with n k hi show ?thesis by (intro sep_far) linarith+
  qed
qed

lemma tiles_by_addr: "tiles lo bs hi \<Longrightarrow> by_addr (free_blocks bs)"
proof (induction bs arbitrary: lo)
  case (Cons b bs)
  obtain a n u where b: "b = (a, n, u)" by (cases b) auto
  have t: "tiles (lo + 8 * unat n) bs hi" "unat a = lo" "4 \<le> unat n" using Cons.prems b by auto
  have "a < c" if "(c, k) \<in> set (free_blocks bs)" for c k
    using tiles_mem [OF t(1), of c k False] that t(2,3) by (simp add: in_free_blocks word_less_nat_alt)
  with Cons.IH [OF t(1)] b show ?case by (auto simp: by_addr_def)
qed (simp add: by_addr_def)

text \<open>In a heap, what lies in one block is outside the nodes of the others; so are the cells.\<close>

lemma node_clear:
  assumes h: "unat h mod 8 = 0" "hi < 2 ^ 60" and t: "tiles (unat h + 64) bs hi"
    and b: "(b, k) \<in> set (free_blocks bs)"
  shows "foot b \<inter> insert (heap_end h) (ctl_cells h) = {}"
    and "(a, n, u) \<in> set bs \<Longrightarrow> a \<noteq> b \<Longrightarrow> foot b \<inter> blk a n = {}"
proof -
  note hb = heap_block [OF h t b [unfolded in_free_blocks]]
  have "unat h + 64 < 2 ^ 60" using hb(1,3) h(2) by linarith
  moreover have "unat h + 64 \<le> unat x" if "x \<in> foot b" for x
    using hb(1,6) that by (fastforce simp: blk_def)
  ultimately show "foot b \<inter> insert (heap_end h) (ctl_cells h) = {}"
    using high_not_cell by blast
  assume a: "(a, n, u) \<in> set bs" "a \<noteq> b"
  then obtain xs ys where bs: "bs = xs @ (a, n, u) # ys" using split_list by metis
  have "(b, k, False) \<in> set xs \<union> set ys" using b a(2) unfolding bs in_free_blocks by auto
  from tiles_sep(2) [OF t [unfolded bs] h(2) this] hb(6) show "foot b \<inter> blk a n = {}" by blast
qed

lemma tiles_unique:
  assumes t: "tiles lo bs hi" "(a, n, u) \<in> set bs" "(a, k, v) \<in> set bs"
  shows "n = k \<and> u = v"
proof (rule ccontr)
  assume ne: "\<not> (n = k \<and> u = v)"
  obtain xs ys where bs: "bs = xs @ (a, n, u) # ys" using split_list [OF t(2)] by metis
  have "(a, k, v) \<in> set xs \<or> (a, k, v) \<in> set ys" using t(3) bs ne by auto
  moreover have "4 \<le> unat n" "4 \<le> unat k" using tiles_mem [OF t(1)] t(2,3) by auto
  ultimately show False using tiles_disjoint [OF t(1) [unfolded bs], of a k v] by auto
qed

lemma used_not_free:
  assumes h: "unat h mod 8 = 0" "hi < 2 ^ 60" and t: "tiles (unat h + 64) bs hi"
    and b: "(b, n) \<in> set (used_blocks bs)" and x: "x \<in> blk b n"
  shows "x \<notin> free_area bs"
proof
  assume "x \<in> free_area bs"
  then obtain a k where a: "(a, k, False) \<in> set bs" "x \<in> blk a k"
    by (auto simp: free_area_def in_free_blocks)
  obtain xs ys where bs: "bs = xs @ (a, k, False) # ys" using split_list [OF a(1)] by metis
  have "(b, n, True) \<in> set xs \<union> set ys" using b bs by (auto simp: in_used_blocks)
  from tiles_sep(2) [OF t [unfolded bs] h(2) this] a(2) x show False by blast
qed

lemma cells_not_free:
  assumes h: "unat h mod 8 = 0" "hi < 2 ^ 60" and t: "tiles (unat h + 64) bs hi"
    and x: "unat h + 64 < 2 ^ 60" "x \<in> insert (heap_end h) (ctl_cells h)"
  shows "x \<notin> free_area bs"
proof
  assume "x \<in> free_area bs"
  then obtain a k where a: "(a, k, False) \<in> set bs" "x \<in> blk a k"
    by (auto simp: free_area_def in_free_blocks)
  have "unat h + 64 \<le> unat a" by (rule heap_block(1) [OF h t a(1)])
  moreover have "unat a \<le> unat x" using a(2) by (simp add: blk_def)
  ultimately show False using cells_low [OF x] by simp
qed

lemma blk_self: "unat n \<noteq> 0 \<Longrightarrow> a \<in> blk a n"
  by (simp add: blk_def)

lemma coalesced_alloc:
  "coalesced (xs @ (a, n, False) # ys) \<Longrightarrow> coalesced (xs @ (a, n', True) # ys)"
  "coalesced (xs @ (a, n, False) # ys) \<Longrightarrow> coalesced (xs @ (a, n', True) # (b, k, False) # ys)"
  unfolding coalesced_def
  by (cases ys; cases xs rule: rev_cases;
      auto simp: successively_append_iff successively_Cons)+

text \<open>The last part of \<open>alloc\<close>: the header of the block and the counters.\<close>

lemma alloc_finish:
  assumes h: "heap_ok m h (xs @ (a, s, False) # ys)"
    and bs': "bs' = xs @ (a, k, True) # zs" "tiles (unat h + 64) bs' (unat (m (heap_end h)))"
      "coalesced bs'" "used_blocks zs = used_blocks ys"
    and m2: "holds m2 (fmds_ptr h) (free_blocks bs')"
      "same_except (insert (fmds_ptr h) (free_area (xs @ (a, s, False) # ys))) m m2"
  defines "m3 \<equiv> m2(a := k)"
  defines "m4 \<equiv> m3(true_num_alloced h := m3 (true_num_alloced h) + 1)"
  defines "m5 \<equiv> m4(words_used h := m4 (words_used h) + k)"
  shows "heap_ok m5 h bs' \<and> same_except (free_area (xs @ (a, s, False) # ys) \<union> ctl_cells h) m m5"
proof -
  let ?bs = "xs @ (a, s, False) # ys" and ?hi = "unat (m (heap_end h))"
  have hh: "unat h mod 8 = 0" "?hi < 2 ^ 60" "tiles (unat h + 64) ?bs ?hi"
    using h by (auto simp: heap_ok_def)
  have ia: "(a, s, False) \<in> set ?bs" by simp
  note ha = heap_block [OF hh ia]
  have low: "unat h + 64 < 2 ^ 60" using ha(1,3) hh(2) by linarith
  have acell: "a \<notin> insert (heap_end h) (ctl_cells h)" using high_not_cell [OF low ha(1)] .
  have cells: "x \<notin> free_area ?bs" if "x \<in> insert (heap_end h) (ctl_cells h)" for x
    using cells_not_free [OF hh low that] .
  have eq2: "m2 x = m x" if "x \<in> {heap_end h, true_num_alloced h, words_used h}" for x
    using that cells [of x] cells_distinct by (intro same_exceptD [OF m2(2)]) (auto simp: ctl_cells_def)
  have af: "a \<in> free_area ?bs" using ha(2) by (auto simp: free_area_def intro!: blk_self)
  have se: "same_except (free_area ?bs \<union> ctl_cells h) m m5"
    using same_except_mono [OF m2(2), of "free_area ?bs \<union> ctl_cells h"] af
    by (auto simp: m5_def m4_def m3_def ctl_cells_def same_except_write)
  have m5: "m5 a = k" "m5 (heap_end h) = m (heap_end h)"
    "m5 (true_num_alloced h) = m (true_num_alloced h) + 1" "m5 (words_used h) = m (words_used h) + k"
    using acell eq2 cells_distinct by (auto simp: m5_def m4_def m3_def ctl_cells_def)
  have hdr: "m5 b = n" if "(b, n) \<in> set (used_blocks bs')" for b n
  proof (cases "b = a")
    case True
    have "(a, k, True) \<in> set bs'" "(b, n, True) \<in> set bs'"
      using that bs'(1) by (simp_all add: in_used_blocks [symmetric])
    then show ?thesis using tiles_unique [OF bs'(2)] True m5(1) by blast
  next
    case False
    then have ub: "(b, n) \<in> set (used_blocks ?bs)" using that bs' by auto
    then have "4 \<le> unat n" using heap_block(2) [OF hh] by (auto simp: in_used_blocks)
    then have "b \<notin> free_area ?bs" by (intro used_not_free [OF hh ub] blk_self) simp
    moreover have "b \<notin> ctl_cells h"
      using high_not_cell [OF low] heap_block(1) [OF hh] ub by (auto simp: in_used_blocks)
    ultimately have "m5 b = m b" by (intro same_exceptD [OF se]) auto
    moreover have "m b = n" by (rule heap_okD(6) [OF h ub])
    ultimately show ?thesis by simp
  qed
  have "holds m5 (fmds_ptr h) (free_blocks bs')"
  proof (rule holds_same [OF m2(1)])
    show "same_except {a, true_num_alloced h, words_used h} m2 m5"
      by (simp add: m5_def m4_def m3_def same_except_write)
    show "fmds_ptr h \<notin> {a, true_num_alloced h, words_used h}"
      using acell cells_distinct by (auto simp: ctl_cells_def)
    show "\<forall>(b, d) \<in> set (free_blocks bs'). foot b \<inter> {a, true_num_alloced h, words_used h} = {}"
    proof clarify
      fix b d assume b: "(b, d) \<in> set (free_blocks bs')"
      have "(a, k, True) \<in> set bs'" using bs' by simp
      moreover from this have "a \<noteq> b" using tiles_unique [OF bs'(2)] b in_free_blocks by blast
      moreover have "a \<in> blk a k" using tiles_mem [OF bs'(2) calculation(1)] by (intro blk_self) linarith
      ultimately show "foot b \<inter> {a, true_num_alloced h, words_used h} = {}"
        using node_clear [OF hh(1,2) bs'(2) b] by (auto simp: ctl_cells_def)
    qed
  qed
  then have "heap_ok m5 h bs'"
    using h hh(1,2) bs' m5 hdr by (auto simp: heap_ok_def)
  then show ?thesis using se by simp
qed

text \<open>Cutting a block in two.\<close>

lemma split_block:
  assumes t: "tiles lo (xs @ (a, s, u) # ys) hi" and hi: "hi < 2 ^ 60"
    and k: "4 \<le> unat k" "k \<le> s" "k + 4 \<le> s"
  shows "tiles lo (xs @ (a, k, v) # (a + 8 * k, s - k, w) # ys) hi"
    "unat (a + 8 * k) = unat a + 8 * unat k" "unat (s - k) = unat s - unat k"
proof -
  note sp = tiles_split [OF t]
  have ks: "unat k \<le> unat s" using k(2) by (simp add: word_le_nat_alt)
  have s: "unat a + 8 * unat s < 2 ^ 60" using sp(4) hi by linarith
  have "unat k + 4 < 2 ^ 64" using ks s by simp
  then have k4: "unat k + 4 \<le> unat s" using k(3) unat_add [of k 4] by (simp add: word_le_nat_alt)
  have "8 * unat k < 2 ^ 64" using ks s by simp
  then have k8: "unat (8 * k) = 8 * unat k" by (rule unat_mult8)
  have "unat a + unat (8 * k) < 2 ^ 64" using ks s unfolding k8 by simp
  from unat_add [OF this] show a': "unat (a + 8 * k) = unat a + 8 * unat k" unfolding k8 .
  show s': "unat (s - k) = unat s - unat k" by (rule unat_sub [OF k(2)])
  have e: "unat a + 8 * unat k + 8 * (unat s - unat k) = unat a + 8 * unat s" using ks by simp
  have "tiles (unat a) ((a, k, v) # (a + 8 * k, s - k, w) # ys) hi"
    unfolding tiles.simps a' s' e using sp k(1) k4 ks by auto
  with sp(1) show "tiles lo (xs @ (a, k, v) # (a + 8 * k, s - k, w) # ys) hi"
    unfolding tiles_append by blast
qed

text \<open>A node can be put at the place of a free block.\<close>

lemma put_ready:
  assumes h: "unat h mod 8 = 0" "hi < 2 ^ 60" and t: "tiles (unat h + 64) (xs @ (a, n, False) # ys) hi"
  shows "by_addr (free_blocks xs @ (a, n) # free_blocks ys)" "okp a" "fmds_ptr h \<notin> foot a"
    "sepl a (map fst (free_blocks xs @ free_blocks ys))"
proof -
  let ?bs = "xs @ (a, n, False) # ys"
  have i: "(a, n, False) \<in> set ?bs" by simp
  show "by_addr (free_blocks xs @ (a, n) # free_blocks ys)" using tiles_by_addr [OF t] by simp
  show "okp a" by (rule heap_block(5) [OF h t i])
  have "(a, n) \<in> set (free_blocks ?bs)" by simp
  from node_clear(1) [OF h t this] show "fmds_ptr h \<notin> foot a" by (auto simp: ctl_cells_def)
  have "sep a b" if "(b, k) \<in> set (free_blocks xs @ free_blocks ys)" for b k
    using tiles_sep(1) [OF t h(2), of b k False] that by (simp add: in_free_blocks)
  then show "sepl a (map fst (free_blocks xs @ free_blocks ys))" by (fastforce simp: sepl_def)
qed

lemma free_area_split: "free_area (xs @ (a, s, False) # ys) = free_area xs \<union> blk a s \<union> free_area ys"
  by (auto simp: free_area_def)

lemma foot_free_area:
  assumes h: "unat h mod 8 = 0" "hi < 2 ^ 60" and t: "tiles (unat h + 64) bs hi"
    and b: "b \<in> set (map fst (free_blocks bs))"
  shows "foot b \<subseteq> free_area bs"
proof -
  obtain k where k: "(b, k) \<in> set (free_blocks bs)" using b by auto
  have "foot b \<subseteq> blk b k" using heap_block(6) [OF h t] k by (simp add: in_free_blocks)
  with k show ?thesis by (auto simp: free_area_def)
qed

lemma avl_move_self [simp]: "avl_move m tr a a = m"
  by (simp add: avl_move_def)

lemma take_node_code:
  "take_node m tr a = Some m' \<Longrightarrow>
   \<exists>m0 s. avl_delete_node m tr a = Some (m0, s) \<and> avl_move m0 tr s a = m' \<and>
     (if s \<noteq> a then avl_move m0 tr s a else m0) = m'"
proof -
  assume "take_node m tr a = Some m'"
  then obtain m0 s where "avl_delete_node m tr a = Some (m0, s)" "avl_move m0 tr s a = m'"
    by (auto simp: take_node_def split: bind_splits)
  then show ?thesis by (intro exI [of _ m0] exI [of _ s]) auto
qed

lemma put_node_code:
  "put_node m tr a d = Some m' \<Longrightarrow> \<exists>r. avl_insert_node m tr a d avl_mem_cmp = Some (m', r)"
  by (auto simp: put_node_def split: bind_splits)

lemma avl_min_ge_holds:
  assumes "holds m tr xs"
  obtains p where "avl_min_ge m (m tr) k = Some p" "p = 0 \<Longrightarrow> \<forall>(a, d) \<in> set xs. d < k"
    "p \<noteq> 0 \<Longrightarrow> \<exists>d. (p, d) \<in> set xs \<and> k \<le> d \<and> nd_data m p = d"
proof -
  obtain t where t: "tree_in m tr t" "avl t" "inorder t = xs" using assms by (rule holdsE)
  then have w: "tree_at m 0 t" "wfl tr (addrs t)" "m tr = root t" by (simp_all add: tree_in_def)
  have "avl_min_ge m (m tr) k = Some (min_ge t k)" using avl_min_ge_mem [OF w(1,2)] w(3) by simp
  moreover have "min_ge t k = 0 \<Longrightarrow> \<forall>(a, d) \<in> set xs. d < k" using min_ge_none [OF w(2)] t(3) by simp
  moreover have "min_ge t k \<noteq> 0 \<Longrightarrow> \<exists>d. (min_ge t k, d) \<in> set xs \<and> k \<le> d \<and> nd_data m (min_ge t k) = d"
    using min_ge_some tree_at_data [OF w(1)] t(3) by fastforce
  ultimately show thesis using that by blast
qed

text \<open>The size of the block that a request for \<open>n\<close> words needs, header included.\<close>

definition need :: "u64 \<Rightarrow> u64" where
  "need n = (if n + umds_sz < min_alloc_sz then min_alloc_sz else n + umds_sz)"

lemma need_4: "4 \<le> unat (need n)"
  by (auto simp: need_def min_alloc_sz_def umds_sz_def word_less_nat_alt)

text \<open>The blocks after an allocation from the free block \<open>(a, s)\<close>.\<close>

definition carve :: "block list \<Rightarrow> u64 \<Rightarrow> u64 \<Rightarrow> block list \<Rightarrow> u64 \<Rightarrow> block list" where
  "carve xs a s ys k =
     (if k + min_alloc_sz \<le> s then xs @ (a, k, True) # (a + 8 * k, s - k, False) # ys
      else xs @ (a, s, True) # ys)"

lemma alloc_mem:
  assumes h: "heap_ok m h bs"
  shows "(\<forall>(a, s) \<in> set (free_blocks bs). s < need n) \<and> alloc m h n = Some (m, 0) \<or>
    (\<exists>xs a s ys m'. bs = xs @ (a, s, False) # ys \<and> need n \<le> s \<and>
       alloc m h n = Some (m', a + 8) \<and> heap_ok m' h (carve xs a s ys (need n)) \<and>
       same_except (free_area bs \<union> ctl_cells h) m m')"
proof -
  let ?tr = "fmds_ptr h" and ?hi = "unat (m (heap_end h))" and ?k = "need n"
  note hh = heap_okD(1-3) [OF h]
  obtain p where p: "avl_min_ge m (m ?tr) ?k = Some p"
    "p = 0 \<Longrightarrow> \<forall>(a, d) \<in> set (free_blocks bs). d < ?k"
    "p \<noteq> 0 \<Longrightarrow> \<exists>d. (p, d) \<in> set (free_blocks bs) \<and> ?k \<le> d \<and> nd_data m p = d"
    using avl_min_ge_holds [OF heap_okD(5) [OF h]] by blast
  show ?thesis
  proof (cases "p = 0")
    case True
    then have "alloc m h n = Some (m, 0)"
      using p(1) by (simp add: alloc_def Let_def need_def [symmetric])
    with p(2) True show ?thesis by blast
  next
    case False
    then obtain s where s: "(p, s) \<in> set (free_blocks bs)" "?k \<le> s" "nd_data m p = s"
      using p(3) by blast
    then obtain xs ys where bs: "bs = xs @ (p, s, False) # ys"
      using split_list in_free_blocks by metis
    have r: "holds m ?tr (free_blocks xs @ (p, s) # free_blocks ys)"
      using heap_okD(5) [OF h] bs by simp
    have ff: "b \<in> set (map fst (free_blocks bs)) \<Longrightarrow> foot b \<subseteq> insert ?tr (free_area bs)" for b
      using foot_free_area [OF hh] by blast
    show ?thesis
    proof (cases "?k + min_alloc_sz \<le> s")
      case True
      note sp = split_block [OF hh(3) [unfolded bs] hh(2) need_4 s(2) True [unfolded min_alloc_sz_def]]
      let ?a = "p + 8 * ?k" and ?s = "s - ?k"
      let ?bs = "xs @ (p, ?k, True) # (?a, ?s, False) # ys"
      have t': "tiles (unat h + 64) ((xs @ [(p, ?k, True)]) @ (?a, ?s, False) # ys) ?hi"
        using sp(1) [of True False] by simp
      note pr = put_ready [OF hh(1,2) t']
      obtain m1 m2 where m1: "take_node m ?tr p = Some m1" and m2: "put_node m1 ?tr ?a ?s = Some m2"
          "holds m2 ?tr (free_blocks xs @ (?a, ?s) # free_blocks ys)"
        and fr: "frame_eq ?tr (map fst (free_blocks xs @ (p, s) # (?a, ?s) # free_blocks ys)) m m2"
        using avl_nodes.replace [OF r, of ?a ?s] pr by auto
      have "foot ?a \<subseteq> blk ?a ?s" by (rule heap_block(6) [OF hh(1,2) t', where u = False]) simp
      moreover have "blk ?a ?s \<subseteq> blk p s"
        using sp(2,3) s(2) by (auto simp: blk_def word_le_nat_alt)
      moreover have "blk p s \<subseteq> free_area bs" using bs by (auto simp: free_area_split)
      ultimately have fa: "foot ?a \<subseteq> insert ?tr (free_area bs)" by blast
      have se: "same_except (insert ?tr (free_area bs)) m m2"
        by (rule frame_same_except [OF fr]) (use ff fa bs in \<open>auto simp del: insert_subset\<close>)
      have co: "coalesced ?bs" using coalesced_alloc(2) heap_okD(4) [OF h] bs by simp
      obtain m0 s0 r0 where code: "avl_delete_node m ?tr p = Some (m0, s0)"
          "(if s0 \<noteq> p then avl_move m0 ?tr s0 p else m0) = m1"
          "avl_insert_node m1 ?tr ?a ?s avl_mem_cmp = Some (m2, r0)"
        using take_node_code [OF m1] put_node_code [OF m2(1)] by blast
      have fin: "heap_ok m' h ?bs \<and> same_except (free_area bs \<union> ctl_cells h) m m'"
        if "m' = (let m3 = m2(p := ?k); m4 = m3(true_num_alloced h := m3 (true_num_alloced h) + 1)
          in m4(words_used h := m4 (words_used h) + ?k))" for m'
        unfolding that Let_def bs
        by (rule alloc_finish [OF h [unfolded bs] refl sp(1) co _ _ se [unfolded bs]])
          (use m2(2) in simp_all)
      have "\<exists>m'. alloc m h n = Some (m', p + 8) \<and> heap_ok m' h ?bs \<and>
          same_except (free_area bs \<union> ctl_cells h) m m'"
        using p(1) False True s(3) code fin
        unfolding alloc_def Let_def need_def [symmetric] by simp
      moreover have "carve xs p s ys ?k = ?bs" using True by (simp add: carve_def)
      ultimately show ?thesis using bs s(2) by metis
    next
      case no: False
      let ?bs = "xs @ (p, s, True) # ys"
      obtain m1 where m1: "take_node m ?tr p = Some m1" "holds m1 ?tr (free_blocks xs @ free_blocks ys)"
        and fr: "frame_eq ?tr (map fst (free_blocks xs @ (p, s) # free_blocks ys)) m m1"
        using avl_nodes.take_law [OF r] by blast
      have se: "same_except (insert ?tr (free_area bs)) m m1"
        by (rule frame_same_except [OF fr]) (use ff bs in \<open>auto simp del: insert_subset\<close>)
      have t': "tiles (unat h + 64) ?bs ?hi"
        using hh(3) bs by (simp add: tiles_append)
      have co: "coalesced ?bs" using coalesced_alloc(1) heap_okD(4) [OF h] bs by simp
      obtain m0 s0 where code: "avl_delete_node m ?tr p = Some (m0, s0)"
          "(if s0 \<noteq> p then avl_move m0 ?tr s0 p else m0) = m1"
        using take_node_code [OF m1(1)] by blast
      have fin: "heap_ok m' h ?bs \<and> same_except (free_area bs \<union> ctl_cells h) m m'"
        if "m' = (let m3 = m1(p := s); m4 = m3(true_num_alloced h := m3 (true_num_alloced h) + 1)
          in m4(words_used h := m4 (words_used h) + s))" for m'
        unfolding that Let_def bs
        by (rule alloc_finish [OF h [unfolded bs] refl t' co _ _ se [unfolded bs]])
          (use m1(2) in simp_all)
      have "\<exists>m'. alloc m h n = Some (m', p + 8) \<and> heap_ok m' h ?bs \<and>
          same_except (free_area bs \<union> ctl_cells h) m m'"
        using p(1) False no s(3) code fin
        unfolding alloc_def Let_def need_def [symmetric] by (simp del: fun_upd_apply if_split)
      moreover have "carve xs p s ys ?k = ?bs" using no by (simp add: carve_def)
      ultimately show ?thesis using bs s(2) by metis
    qed
  qed
qed

end
