(* ===== verification/Heap_Free.thy ===== *)
theory Heap_Free
  imports Heap_Alloc
begin

text \<open>
  Freeing keeps the heap invariant: the block becomes free and is merged with its free
  neighbours, which the search of \<open>avl_merge\<close> finds in one descent of the tree.
\<close>

subsection \<open>The search for the neighbours\<close>

definition gap :: "u64 \<times> u64 \<Rightarrow> u64 \<times> u64 \<Rightarrow> bool" where
  "gap p q \<longleftrightarrow> unat (fst p) + 8 * unat (snd p) \<le> unat (fst q)"

text \<open>A free block, with regard to the block from \<open>addr\<close> to \<open>amax\<close> that is being freed.\<close>

definition clear :: "u64 \<Rightarrow> u64 \<Rightarrow> u64 \<times> u64 \<Rightarrow> bool" where
  "clear addr amax p \<longleftrightarrow> 4 \<le> unat (snd p) \<and> unat (fst p) + 8 * unat (snd p) < 2 ^ 64 \<and>
     (unat (fst p) + 8 * unat (snd p) \<le> unat addr \<or> unat amax \<le> unat (fst p))"

definition ends_at :: "u64 \<Rightarrow> u64 \<times> u64 \<Rightarrow> bool" where
  "ends_at addr p \<longleftrightarrow> fst p + 8 * snd p = addr"

lemma unat_end:
  assumes "unat a + 8 * unat n < 2 ^ 64"
  shows "unat (a + 8 * n) = unat a + 8 * unat (n :: u64)"
proof -
  have "8 * unat n < 2 ^ 64" using assms by linarith
  then have "unat (8 * n) = 8 * unat n" by (rule unat_mult8)
  with assms show ?thesis using unat_add [of a "8 * n"] by simp
qed

lemma clear_end:
  "clear addr amax p \<Longrightarrow> ends_at addr p \<longleftrightarrow> unat (fst p) + 8 * unat (snd p) = unat addr"
  using unat_end [of "fst p" "snd p"] by (auto simp: clear_def ends_at_def word_unat_eq_iff)

definition skip :: "u64 \<Rightarrow> u64 \<Rightarrow> tree \<Rightarrow> tree" where
  "skip addr amax t = (case t of Lf \<Rightarrow> Lf
     | Nd l a b d r \<Rightarrow> if amax < a then l else if a + 8 * d < addr then r else t)"

lemma skip_code:
  assumes "tree_at m par t" "wfl tr (addrs t)"
  shows "(if root t \<noteq> 0 then
            (if amax < root t then nd_left m (root t)
             else if root t + 8 * nd_data m (root t) < addr then nd_right m (root t) else root t)
          else root t) = root (skip addr amax t)"
  using assms by (cases t) (auto simp: skip_def)

lemma skip_tree_at:
  "tree_at m par t \<Longrightarrow> wfl tr (addrs t) \<Longrightarrow>
   (\<exists>par. tree_at m par (skip addr amax t)) \<and> wfl tr (addrs (skip addr amax t))"
  by (cases t) (auto simp: skip_def)

lemma skip_size: "size (skip addr amax t) \<le> size t"
  by (cases t) (auto simp: skip_def)

lemma skip_keeps:
  assumes "sorted_wrt gap (inorder t)" "\<forall>p \<in> set (inorder t). clear addr amax p" "addr < amax"
  shows "set (inorder (skip addr amax t)) \<subseteq> set (inorder t)"
    "p \<in> set (inorder t) \<Longrightarrow> fst p = amax \<or> ends_at addr p \<Longrightarrow> p \<in> set (inorder (skip addr amax t))"
    "sorted_wrt gap (inorder (skip addr amax t))"
proof -
  show "set (inorder (skip addr amax t)) \<subseteq> set (inorder t)"
    by (cases t) (auto simp: skip_def)
  show "sorted_wrt gap (inorder (skip addr amax t))"
    using assms(1) by (cases t) (auto simp: skip_def sorted_wrt_append)
  assume p: "p \<in> set (inorder t)" "fst p = amax \<or> ends_at addr p"
  show "p \<in> set (inorder (skip addr amax t))"
  proof (cases t)
    case (Nd l a b d r)
    have cl: "clear addr amax p" "clear addr amax (a, d)" using assms(2) p(1) Nd by auto
    have e: "unat (fst p + 8 * snd p) = unat (fst p) + 8 * unat (snd p)"
      "unat (a + 8 * d) = unat a + 8 * unat d"
      using cl unat_end by (auto simp: clear_def)
    have pos: "unat (fst p) + 8 * unat (snd p) = unat addr \<or> unat (fst p) = unat amax"
      using p(2) e(1) by (auto simp: ends_at_def)
    have aa: "unat addr < unat amax" using assms(3) by (simp add: word_less_nat_alt)
    have 1: "p \<in> set (inorder l)" if "amax < a"
    proof -
      have "unat amax < unat a" using that by (simp add: word_less_nat_alt)
      moreover have "unat a + 8 * unat d \<le> unat (fst p)" if "p \<in> set (inorder r)"
        using assms(1) Nd that by (auto simp: sorted_wrt_append gap_def)
      ultimately show ?thesis using p(1) Nd pos aa by fastforce
    qed
    have 2: "p \<in> set (inorder r)" if "\<not> amax < a" "a + 8 * d < addr"
    proof -
      have "unat a + 8 * unat d < unat addr" using that(2) e(2) by (simp add: word_less_nat_alt)
      moreover have "unat (fst p) + 8 * unat (snd p) \<le> unat a" if "p \<in> set (inorder l)"
        using assms(1) Nd that by (auto simp: sorted_wrt_append gap_def)
      ultimately show ?thesis using p(1) Nd pos aa by fastforce
    qed
    from 1 2 p(1) show ?thesis unfolding Nd skip_def by auto
  qed (use p in simp)
qed

text \<open>What the search finds in a tree, from given results so far.\<close>

definition found :: "u64 \<Rightarrow> u64 \<Rightarrow> (u64 \<times> u64) set \<Rightarrow> u64 \<Rightarrow> u64 \<Rightarrow> u64 \<Rightarrow> u64 \<Rightarrow> bool" where
  "found addr amax S left right left' right' \<longleftrightarrow>
     right' = (if \<exists>p \<in> S. fst p = amax then amax else right) \<and>
     (if \<exists>p \<in> S. ends_at addr p then \<exists>d. (left', d) \<in> S \<and> ends_at addr (left', d)
      else left' = left)"

lemma found_right:
  "found addr amax T left amax x y \<Longrightarrow> T \<subseteq> S \<Longrightarrow> \<exists>p \<in> S. fst p = amax \<Longrightarrow>
   \<forall>p \<in> S. ends_at addr p \<longrightarrow> p \<in> T \<Longrightarrow> found addr amax S left right x y"
  unfolding found_def by (auto split: if_splits)

lemma found_left:
  assumes f: "found addr amax T a right x y" and s: "T \<subseteq> S" "\<forall>p \<in> T. \<not> ends_at addr p"
    and a: "(a, d) \<in> S" "ends_at addr (a, d)" and r: "\<forall>p \<in> S. fst p = amax \<longrightarrow> p \<in> T"
  shows "found addr amax S left right x y"
proof -
  have "x = a" using f s(2) by (auto simp: found_def)
  moreover have "(\<exists>p \<in> T. fst p = amax) \<longleftrightarrow> (\<exists>p \<in> S. fst p = amax)" using s(1) r by blast
  moreover have "\<exists>p \<in> S. ends_at addr p" using a by blast
  ultimately show ?thesis using f a by (auto simp: found_def)
qed

lemma found_down:
  assumes f: "found addr amax T left right x y" and s: "T \<subseteq> S"
    and r: "\<forall>p \<in> S. fst p = amax \<or> ends_at addr p \<longrightarrow> p \<in> T"
  shows "found addr amax S left right x y"
proof -
  have "(\<exists>p \<in> T. fst p = amax) \<longleftrightarrow> (\<exists>p \<in> S. fst p = amax)" using s(1) r by blast
  moreover have "(\<exists>p \<in> T. ends_at addr p) \<longleftrightarrow> (\<exists>p \<in> S. ends_at addr p)" using s(1) r by blast
  moreover have "(x, d) \<in> T \<and> ends_at addr (x, d) \<longleftrightarrow> (x, d) \<in> S \<and> ends_at addr (x, d)" for d
    using s(1) r by blast
  ultimately show ?thesis using f unfolding found_def by presburger
qed

lemma avl_merge_search_mem:
  assumes "tree_at m par t" "wfl tr (addrs t)"
    and "sorted_wrt gap (inorder t)" "\<forall>p \<in> set (inorder t). clear addr amax p" "addr < amax"
    and "left \<noteq> 0 \<Longrightarrow> \<forall>p \<in> set (inorder t). \<not> ends_at addr p"
    and "right \<noteq> 0 \<Longrightarrow> \<forall>p \<in> set (inorder t). fst p \<noteq> amax"
  shows "\<exists>left' right'. avl_merge_search m addr amax (root t) left right = Some (left', right') \<and>
    found addr amax (set (inorder t)) left right left' right'"
  using assms
proof (induction "size t" arbitrary: t par left right rule: less_induct)
  case less
  show ?case
  proof (cases t)
    case Lf
    then show ?thesis by (subst avl_merge_search.simps) (simp add: found_def)
  next
    case (Nd l a b d r)
    have nds: "a \<noteq> 0" "nd_left m a = root l" "nd_right m a = root r" "nd_data m a = d"
        "tree_at m a l" "tree_at m a r" "wfl tr (addrs l)" "wfl tr (addrs r)"
      using less.prems Nd by auto
    let ?S = "set (inorder t)"
    have el: "ends_at addr p \<longleftrightarrow> unat (fst p) + 8 * unat (snd p) = unat addr" if "p \<in> ?S" for p
      using clear_end [of addr amax p] less.prems(4) that by blast
    have cl: "4 \<le> unat (snd p)" "unat (fst p) + 8 * unat (snd p) \<le> unat addr \<or> unat amax \<le> unat (fst p)"
      if "p \<in> ?S" for p using less.prems(4) that by (auto simp: clear_def)
    have low: "unat (fst p) + 8 * unat (snd p) \<le> unat a" if "p \<in> set (inorder l)" for p
      using less.prems(3) Nd that by (auto simp: sorted_wrt_append gap_def)
    have high: "unat a + 8 * unat d \<le> unat (fst p)" if "p \<in> set (inorder r)" for p
      using less.prems(3) Nd that by (auto simp: sorted_wrt_append gap_def)
    have aa: "unat addr < unat amax" using less.prems(5) by (simp add: word_less_nat_alt)
    have go: "\<exists>left' right'. avl_merge_search m addr amax a left right = Some (left', right') \<and>
        found addr amax ?S left right left' right'"
      if t1: "(if a = amax then (root l, left, a) else if a + 8 * d = addr then (root r, a, right)
          else (a, left, right)) = (root t1, L1, R1)"
        and sub: "tree_at m q t1" "wfl tr (addrs t1)" "sorted_wrt gap (inorder t1)"
          "set (inorder t1) \<subseteq> ?S" "size (skip addr amax t1) < size t"
        and L1: "L1 \<noteq> 0 \<Longrightarrow> \<forall>p \<in> set (inorder t1). \<not> ends_at addr p"
        and R1: "R1 \<noteq> 0 \<Longrightarrow> \<forall>p \<in> set (inorder t1). fst p \<noteq> amax"
        and tr: "\<And>x y. found addr amax (set (inorder (skip addr amax t1))) L1 R1 x y \<Longrightarrow>
          found addr amax ?S left right x y"
        and lr: "left = 0 \<or> right = 0"
      for t1 L1 R1 q
    proof -
      let ?t2 = "skip addr amax t1"
      have "\<forall>p \<in> set (inorder t1). clear addr amax p" using sub(4) less.prems(4) by blast
      note sk = skip_keeps [OF sub(3) this less.prems(5)]
      obtain q2 where "tree_at m q2 ?t2" "wfl tr (addrs ?t2)" using skip_tree_at [OF sub(1,2)] by blast
      then obtain x y where xy: "avl_merge_search m addr amax (root ?t2) L1 R1 = Some (x, y)"
          "found addr amax (set (inorder ?t2)) L1 R1 x y"
        using less.hyps [OF sub(5), of q2 L1 R1] sk(1,3) sub(4) less.prems(4,5) L1 R1 by blast
      have "avl_merge_search m addr amax a left right = avl_merge_search m addr amax (root ?t2) L1 R1"
        using lr nds(1) t1 by (subst avl_merge_search.simps)
          (simp only: nds Let_def prod.case skip_code [OF sub(1,2)] simp_thms if_True)
      with xy tr show ?thesis by auto
    qed
    show ?thesis
    proof (cases "left = 0 \<or> right = 0")
      case False
      then show ?thesis using less.prems(6,7) Nd
        by (subst avl_merge_search.simps) (auto simp: found_def)
    next
      case True
      have S: "?S = insert (a, d) (set (inorder l) \<union> set (inorder r))" using Nd by auto
      have ad: "4 \<le> unat d" "unat a + 8 * unat d \<le> unat addr \<or> unat amax \<le> unat a"
        using cl [of "(a, d)"] S by auto
      have srt: "sorted_wrt gap (inorder l)" "sorted_wrt gap (inorder r)"
        using less.prems(3) Nd by (auto simp: sorted_wrt_append)
      have cll: "\<forall>p \<in> set (inorder l). clear addr amax p" "\<forall>p \<in> set (inorder r). clear addr amax p"
        using less.prems(4) S by auto
      note skl = skip_keeps [OF srt(1) cll(1) less.prems(5)]
      note skr = skip_keeps [OF srt(2) cll(2) less.prems(5)]
      note skt = skip_keeps [OF less.prems(3-5)]
      consider (R) "a = amax" | (L) "a \<noteq> amax" "a + 8 * d = addr"
        | (D) "a \<noteq> amax" "a + 8 * d \<noteq> addr" by blast
      then show ?thesis
      proof cases
        case R
        have ends: "\<forall>p \<in> ?S. ends_at addr p \<longrightarrow> p \<in> set (inorder (skip addr amax l))"
          using el skl(2) high aa R S by fastforce
        have "\<exists>x y. avl_merge_search m addr amax a left right = Some (x, y) \<and>
            found addr amax ?S left right x y"
        proof (rule go [of l left amax])
          show "size (skip addr amax l) < size t" using skip_size [of addr amax l] Nd by simp
          show "\<forall>p \<in> set (inorder l). fst p \<noteq> amax" using low cl S R by fastforce
          show "found addr amax ?S left right x y"
            if "found addr amax (set (inorder (skip addr amax l))) left amax x y" for x y
            by (rule found_right [OF that]) (use skl(1) S R ends in auto)
        qed (use True R nds srt S less.prems(6) in auto)
        then show ?thesis using Nd by simp
      next
        case L
        have ea: "ends_at addr (a, d)" using L by (simp add: ends_at_def)
        then have ed: "unat a + 8 * unat d = unat addr" using el [of "(a, d)"] S by simp
        have nr: "\<forall>p \<in> set (inorder r). \<not> ends_at addr p"
        proof
          fix p assume p: "p \<in> set (inorder r)"
          then have "p \<in> ?S" using S by simp
          then show "\<not> ends_at addr p" using high [OF p] ed el [of p] cl(1) [of p] by simp
        qed
        have "\<exists>x y. avl_merge_search m addr amax a left right = Some (x, y) \<and>
            found addr amax ?S left right x y"
        proof (rule go [of r a right])
          show "size (skip addr amax r) < size t" using skip_size [of addr amax r] Nd by simp
          show "found addr amax ?S left right x y"
            if "found addr amax (set (inorder (skip addr amax r))) a right x y" for x y
            by (rule found_left [OF that _ _ _ ea]) (use skr S L ed nr low aa in fastforce)+
        qed (use True L nds srt S less.prems(7) nr in auto)
        then show ?thesis using Nd by simp
      next
        case D
        have "amax < a \<or> a + 8 * d < addr"
        proof -
          have "unat a + 8 * unat d \<noteq> unat addr" using D(2) el [of "(a, d)"] S by (auto simp: ends_at_def)
          moreover have "unat a \<noteq> unat amax" using D(1) by (simp add: word_unat_eq_iff)
          moreover have "unat (a + 8 * d) = unat a + 8 * unat d"
            using less.prems(4) S by (intro unat_end) (auto simp: clear_def)
          ultimately show ?thesis using ad by (auto simp: word_less_nat_alt)
        qed
        then have sz: "size (skip addr amax t) < size t" unfolding Nd by (auto simp: skip_def)
        have "\<exists>x y. avl_merge_search m addr amax a left right = Some (x, y) \<and>
            found addr amax ?S left right x y"
        proof (rule go [of t left right])
          show "found addr amax ?S left right x y"
            if "found addr amax (set (inorder (skip addr amax t))) left right x y" for x y
            by (rule found_down [OF that]) (use skt in auto)
        qed (use True D nds less.prems sz Nd in auto)
        then show ?thesis using Nd by simp
      qed
    qed
  qed
qed

subsection \<open>Neighbours in a tiling\<close>

text \<open>The free block right before, and right after, a block: its address, or 0.\<close>

definition lnb :: "block list \<Rightarrow> u64" where
  "lnb xs = (if xs \<noteq> [] \<and> \<not> snd (snd (last xs)) then fst (last xs) else 0)"

definition rnb :: "block list \<Rightarrow> u64" where
  "rnb ys = (if ys \<noteq> [] \<and> \<not> snd (snd (hd ys)) then fst (hd ys) else 0)"

lemma tiles_end_at:
  assumes t: "tiles lo (xs @ (a, n, u) # ys) hi" and b: "(b, k, v) \<in> set (xs @ (a, n, u) # ys)"
    and e: "unat b + 8 * unat k = unat a"
  shows "xs \<noteq> [] \<and> last xs = (b, k, v)"
proof -
  note sp = tiles_split [OF t]
  have k: "4 \<le> unat k" using tiles_mem [OF t b] by simp
  have "(b, k, v) \<notin> set ys" using tiles_disjoint(2) [OF t, of b k v] e k sp(3) by auto
  moreover have "(b, k, v) \<noteq> (a, n, u)" using e k by auto
  ultimately have bx: "(b, k, v) \<in> set xs" using b by auto
  then obtain zs c j w where xs: "xs = zs @ [(c, j, w)]"
    by (cases xs rule: rev_cases) auto
  have t2: "tiles lo (zs @ (c, j, w) # (a, n, u) # ys) hi" using t xs by simp
  have "unat c + 8 * unat j \<le> unat a" "4 \<le> unat j"
    using tiles_disjoint(2) [OF t2, of a n u] tiles_split(3) [OF t2] by auto
  then have "(b, k, v) \<notin> set zs" using tiles_disjoint(1) [OF t2, of b k v] e by auto
  with bx xs show ?thesis by auto
qed

lemma tiles_start_at:
  assumes t: "tiles lo (xs @ (a, n, u) # ys) hi" and b: "(b, k, v) \<in> set (xs @ (a, n, u) # ys)"
    and e: "unat b = unat a + 8 * unat n"
  shows "ys \<noteq> [] \<and> hd ys = (b, k, v)"
proof -
  note sp = tiles_split [OF t]
  have k: "4 \<le> unat k" using tiles_mem [OF t b] by simp
  have "(b, k, v) \<notin> set xs" using tiles_disjoint(1) [OF t, of b k v] e k sp(3) by auto
  moreover have "(b, k, v) \<noteq> (a, n, u)" using e sp(3) by auto
  ultimately have b: "(b, k, v) \<in> set ys" using b by auto
  then obtain c j w zs where ys: "ys = (c, j, w) # zs" by (cases ys) auto
  have "(b, k, v) \<notin> set zs"
  proof
    assume "(b, k, v) \<in> set zs"
    then have "unat c + 8 * unat j \<le> unat b" using sp(2) ys tiles_mem by fastforce
    then show False using e sp(2) ys by auto
  qed
  with b ys show ?thesis by simp
qed

lemma tiles_gap: "tiles lo bs hi \<Longrightarrow> sorted_wrt gap (free_blocks bs)"
proof (induction bs arbitrary: lo)
  case (Cons b bs)
  obtain a n u where b: "b = (a, n, u)" by (cases b) auto
  have t: "tiles (lo + 8 * unat n) bs hi" "unat a = lo" using Cons.prems b by auto
  have "gap (a, n) (c, k)" if "(c, k) \<in> set (free_blocks bs)" for c k
    using tiles_mem [OF t(1), of c k False] that t(2) by (simp add: in_free_blocks gap_def)
  with Cons.IH [OF t(1)] b show ?case by auto
qed simp

lemma tiles_clear:
  assumes t: "tiles lo (xs @ (a, n, True) # ys) hi" and hi: "hi < 2 ^ 60"
    and p: "p \<in> set (free_blocks (xs @ (a, n, True) # ys))"
  shows "clear a (a + 8 * n) p"
proof -
  obtain b k where b: "p = (b, k)" by (cases p)
  have m: "(b, k, False) \<in> set xs \<union> set ys" using p b by (simp add: in_free_blocks)
  have an: "unat (a + 8 * n) = unat a + 8 * unat n"
    using tiles_split(4) [OF t] hi by (intro unat_end) simp
  have "4 \<le> unat k \<and> unat b + 8 * unat k < 2 ^ 64"
    using tiles_mem [OF t, of b k False] m hi by auto
  then show ?thesis
    using tiles_disjoint [OF t, of b k False] m unfolding b clear_def an by auto
qed

lemma heap_search:
  assumes h: "heap_ok m h (xs @ (a, n, True) # ys)"
  shows "avl_merge_search m a (a + 8 * n) (m (fmds_ptr h)) 0 0 = Some (lnb xs, rnb ys)"
proof -
  let ?bs = "xs @ (a, n, True) # ys" and ?hi = "unat (m (heap_end h))"
  note hh = heap_okD(1-3) [OF h]
  obtain t where t: "tree_in m (fmds_ptr h) t" "avl t" "inorder t = free_blocks ?bs"
    using heap_okD(5) [OF h] by (rule holdsE)
  have w: "tree_at m 0 t" "wfl (fmds_ptr h) (addrs t)" "m (fmds_ptr h) = root t"
    using t(1) by (simp_all add: tree_in_def)
  note sp = tiles_split [OF hh(3)]
  have an: "unat (a + 8 * n) = unat a + 8 * unat n"
    using sp(4) hh(2) by (intro unat_end) simp
  have lt: "a < a + 8 * n" using sp(3) an by (simp add: word_less_nat_alt)
  have g: "sorted_wrt gap (inorder t)" unfolding t(3) by (rule tiles_gap [OF hh(3)])
  have c: "\<forall>p \<in> set (inorder t). clear a (a + 8 * n) p"
    unfolding t(3) using tiles_clear [OF hh(3,2)] by blast
  obtain L R where s: "avl_merge_search m a (a + 8 * n) (m (fmds_ptr h)) 0 0 = Some (L, R)"
    and f: "found a (a + 8 * n) (set (inorder t)) 0 0 L R"
    using avl_merge_search_mem [OF w(1,2) g c lt, of 0 0] w(3) by auto
  have inb: "(b, k) \<in> set (inorder t) \<longleftrightarrow> (b, k, False) \<in> set ?bs" for b k
    unfolding t(3) by (rule in_free_blocks)
  have R: "R = rnb ys"
  proof (cases "\<exists>p \<in> set (inorder t). fst p = a + 8 * n")
    case True
    then obtain k where "(a + 8 * n, k, False) \<in> set ?bs" using inb by fastforce
    from tiles_start_at [OF hh(3) this an] True f show ?thesis by (simp add: found_def rnb_def)
  next
    case False
    have "\<not> (ys \<noteq> [] \<and> \<not> snd (snd (hd ys)))"
    proof
      assume "ys \<noteq> [] \<and> \<not> snd (snd (hd ys))"
      then obtain q k zs where ys: "ys = (q, k, False) # zs" by (cases ys) auto
      then have "unat q = unat (a + 8 * n)" using sp(2) an by simp
      then have "q = a + 8 * n" by (simp add: word_unat_eq_iff)
      then show False using False inb [of q k] ys by auto
    qed
    then show ?thesis using False f by (auto simp: found_def rnb_def)
  qed
  have L: "L = lnb xs"
  proof (cases "\<exists>p \<in> set (inorder t). ends_at a p")
    case True
    then obtain d where d: "(L, d) \<in> set (inorder t)" "ends_at a (L, d)"
      using f by (auto simp: found_def)
    then have "unat L + 8 * unat d = unat a" using clear_end [of a "a + 8 * n" "(L, d)"] c by auto
    with tiles_end_at [OF hh(3), of L d False] d(1) inb have "xs \<noteq> [] \<and> last xs = (L, d, False)"
      by blast
    then show ?thesis by (simp add: lnb_def)
  next
    case False
    have "\<not> (xs \<noteq> [] \<and> \<not> snd (snd (last xs)))"
    proof
      assume "xs \<noteq> [] \<and> \<not> snd (snd (last xs))"
      then obtain q k zs where xs: "xs = zs @ [(q, k, False)]" by (cases xs rule: rev_cases) auto
      then have "unat q + 8 * unat k = unat a" using sp(1) by (auto simp: tiles_append)
      moreover have "(q, k) \<in> set (inorder t)" using inb xs by simp
      ultimately have "ends_at a (q, k)" using clear_end [of a "a + 8 * n" "(q, k)"] c by auto
      then show False using False \<open>(q, k) \<in> set (inorder t)\<close> by blast
    qed
    then show ?thesis using False f by (auto simp: found_def lnb_def)
  qed
  show ?thesis using s L R by simp
qed

subsection \<open>Merging\<close>

fun join_right :: "u64 \<Rightarrow> block list \<Rightarrow> u64 \<times> block list" where
  "join_right n [] = (n, [])"
| "join_right n ((q, k, u) # ys) = (if u then (n, (q, k, u) # ys) else (n + k, ys))"

definition join_left :: "block list \<Rightarrow> u64 \<Rightarrow> u64 \<Rightarrow> block list \<times> u64 \<times> u64" where
  "join_left xs a n =
     (if xs \<noteq> [] \<and> \<not> snd (snd (last xs))
      then (butlast xs, fst (last xs), n + fst (snd (last xs))) else (xs, a, n))"

text \<open>The blocks after the block \<open>(a, n)\<close> between \<open>xs\<close> and \<open>ys\<close> has been freed.\<close>

definition release :: "block list \<Rightarrow> u64 \<Rightarrow> u64 \<Rightarrow> block list \<Rightarrow> block list" where
  "release xs a n ys =
     (let (n, ys) = join_right n ys; (xs, a, n) = join_left xs a n in xs @ (a, n, False) # ys)"

lemma tiles_join:
  assumes t: "tiles lo (xs @ (a, n, u) # (q, k, v) # ys) hi" and hi: "hi < 2 ^ 60"
  shows "tiles lo (xs @ (a, n + k, w) # ys) hi"
proof -
  note sp = tiles_split [OF t]
  have "unat n + unat k < 2 ^ 64" using sp hi tiles_split(4) [of lo "xs @ [(a, n, u)]" q k v ys hi] t by auto
  then have "unat (n + k) = unat n + unat k" by (rule unat_add)
  then show ?thesis using t by (auto simp: tiles_append algebra_simps)
qed

lemma tiles_any: "tiles lo (xs @ (a, n, u) # ys) hi \<Longrightarrow> tiles lo (xs @ (a, n, v) # ys) hi"
  by (auto simp: tiles_append)

lemma tiles_join_right:
  assumes "tiles lo (xs @ (a, n, u) # ys) hi" "hi < 2 ^ 60" "join_right n ys = (n', ys')"
  shows "tiles lo (xs @ (a, n', w) # ys') hi"
  using assms tiles_join [of lo xs a n u] tiles_any [of lo xs a n u _ hi w]
  by (cases ys) (auto split: if_splits)

lemma tiles_join_left:
  assumes t: "tiles lo (xs @ (a, n, u) # ys) hi" and hi: "hi < 2 ^ 60"
    and j: "join_left xs a n = (xs', a', n')"
  shows "tiles lo (xs' @ (a', n', w) # ys) hi"
proof (cases "xs \<noteq> [] \<and> \<not> snd (snd (last xs))")
  case True
  then obtain zs p d where xs: "xs = zs @ [(p, d, False)]" by (cases xs rule: rev_cases) auto
  have "tiles lo (zs @ (p, d + n, w) # ys) hi"
    by (rule tiles_join [OF _ hi, of _ zs p d False a n u]) (use t xs in simp)
  then show ?thesis using j xs by (auto simp: join_left_def add.commute)
next
  case False
  then have "join_left xs a n = (xs, a, n)" unfolding join_left_def by (rule if_not_P)
  then show ?thesis using j tiles_any [OF t] by simp
qed

lemma coalesced_join_right:
  assumes "coalesced (xs @ (a, n, True) # ys)" "join_right n ys = (n', ys')"
  shows "coalesced (xs @ (a, n', True) # ys') \<and> (ys' = [] \<or> snd (snd (hd ys')))"
  using assms unfolding coalesced_def
  by (cases ys; cases "tl ys") (auto simp: successively_append_iff successively_Cons split: if_splits)

lemma coalesced_join_left:
  assumes c: "coalesced (xs @ (a, n, True) # ys)" "ys = [] \<or> snd (snd (hd ys))"
    and j: "join_left xs a n = (xs', a', n')"
  shows "coalesced (xs' @ (a', n', False) # ys)"
proof (cases "xs \<noteq> [] \<and> \<not> snd (snd (last xs))")
  case True
  then obtain zs p d where xs: "xs = zs @ [(p, d, False)]" by (cases xs rule: rev_cases) auto
  then have "xs' = zs" "a' = p" using j by (auto simp: join_left_def)
  with c xs show ?thesis unfolding coalesced_def
    by (cases ys; cases zs rule: rev_cases) (auto simp: successively_append_iff successively_Cons)
next
  case False
  then have "join_left xs a n = (xs, a, n)" unfolding join_left_def by (rule if_not_P)
  moreover have "xs = [] \<or> snd (snd (last xs))" using False by blast
  ultimately show ?thesis using c j unfolding coalesced_def
    by (cases ys; cases xs rule: rev_cases) (auto simp: successively_append_iff successively_Cons)
qed

lemma used_join_right: "join_right n ys = (n', ys') \<Longrightarrow> used_blocks ys' = used_blocks ys"
  by (cases ys) (auto split: if_splits)

lemma used_join_left: "join_left xs a n = (xs', a', n') \<Longrightarrow> used_blocks xs' = used_blocks xs"
  by (cases xs rule: rev_cases) (auto simp: join_left_def split: if_splits)

lemma free_join_right:
  "join_right n ys = (n', ys') \<Longrightarrow> set (free_blocks ys') \<subseteq> set (free_blocks ys)"
  by (cases ys) (auto split: if_splits)

lemma free_join_left:
  "join_left xs a n = (xs', a', n') \<Longrightarrow> set (free_blocks xs') \<subseteq> set (free_blocks xs)"
  by (cases xs rule: rev_cases) (auto simp: join_left_def split: if_splits)

lemma release_ok:
  assumes t: "tiles lo (xs @ (a, n, True) # ys) hi" "hi < 2 ^ 60" "coalesced (xs @ (a, n, True) # ys)"
  shows "tiles lo (release xs a n ys) hi" "coalesced (release xs a n ys)"
    "used_blocks (release xs a n ys) = used_blocks (xs @ ys)"
proof -
  obtain n' ys' where r: "join_right n ys = (n', ys')" by fastforce
  obtain xs' a' n2 where l: "join_left xs a n' = (xs', a', n2)" using prod_cases3 by blast
  have rel: "release xs a n ys = xs' @ (a', n2, False) # ys'" by (simp add: release_def r l)
  show "tiles lo (release xs a n ys) hi"
    unfolding rel by (rule tiles_join_left [OF tiles_join_right [OF t(1,2) r] t(2) l])
  show "coalesced (release xs a n ys)"
    unfolding rel using coalesced_join_right [OF t(3) r] coalesced_join_left [OF _ _ l] by blast
  show "used_blocks (release xs a n ys) = used_blocks (xs @ ys)"
    unfolding rel by (simp add: used_join_right [OF r] used_join_left [OF l])
qed

lemma holds_neq0: "holds m tr xs \<Longrightarrow> (a, d) \<in> set xs \<Longrightarrow> a \<noteq> 0"
  using wfl_okp [OF holds_wfl, of m tr xs a] by force

lemma merge_right_step:
  assumes h: "holds m tr (A @ free_blocks ys)"
  shows "\<exists>m1. (if rnb ys \<noteq> 0 then do {
          let sz = n + nd_data m (rnb ys);
          (m, dest) \<leftarrow> avl_delete_node m tr (rnb ys);
          Some (avl_move m tr dest (rnb ys), sz) }
        else Some (m, n)) = Some (m1, fst (join_right n ys)) \<and>
    holds m1 tr (A @ free_blocks (snd (join_right n ys))) \<and>
    frame_eq tr (map fst (A @ free_blocks ys)) m m1"
proof (cases "ys \<noteq> [] \<and> \<not> snd (snd (hd ys))")
  case True
  then obtain q k zs where ys: "ys = (q, k, False) # zs" by (cases ys) auto
  have "q \<noteq> 0" "nd_data m q = k" using holds_neq0 [OF h] holds_data [OF h] ys by auto
  moreover obtain m1 where "take_node m tr q = Some m1" "holds m1 tr (A @ free_blocks zs)"
    "frame_eq tr (map fst (A @ free_blocks ys)) m m1"
    using holds_take [of m tr A q k "free_blocks zs"] h ys by auto
  ultimately show ?thesis using ys
    by (auto simp: rnb_def take_node_def Let_def split: bind_splits)
next
  case False
  then have "rnb ys = 0" "join_right n ys = (n, ys)" by (auto simp: rnb_def) (cases ys; auto)
  with h show ?thesis by simp
qed

lemma merge_left_step:
  assumes h: "holds m tr (free_blocks xs @ B)"
    and e: "xs \<noteq> [] \<Longrightarrow> fst (last xs) + 8 * fst (snd (last xs)) = a"
  shows "\<exists>m1 xs' a' n'. join_left xs a n = (xs', a', n') \<and>
    (if lnb xs \<noteq> 0 then do {
          let addr = a - 8 * nd_data m (lnb xs);
          let sz = n + nd_data m (lnb xs);
          (m, dest) \<leftarrow> avl_delete_node m tr (lnb xs);
          Some (avl_move m tr dest (lnb xs), addr, sz) }
        else Some (m, a, n)) = Some (m1, a', n') \<and>
    holds m1 tr (free_blocks xs' @ B) \<and> frame_eq tr (map fst (free_blocks xs @ B)) m m1"
proof (cases "xs \<noteq> [] \<and> \<not> snd (snd (last xs))")
  case True
  then obtain q k zs where xs: "xs = zs @ [(q, k, False)]" by (cases xs rule: rev_cases) auto
  have "q \<noteq> 0" "nd_data m q = k" using holds_neq0 [OF h] holds_data [OF h] xs by auto
  moreover obtain m1 where "take_node m tr q = Some m1" "holds m1 tr (free_blocks zs @ B)"
    "frame_eq tr (map fst (free_blocks xs @ B)) m m1"
    using holds_take [of m tr "free_blocks zs" q k B] h xs by auto
  moreover have "a - 8 * k = q" using e xs by auto
  ultimately show ?thesis using xs
    by (auto simp: lnb_def join_left_def take_node_def Let_def split: bind_splits)
next
  case False
  from False have "lnb xs = 0" unfolding lnb_def by (rule if_not_P)
  moreover from False have "join_left xs a n = (xs, a, n)" unfolding join_left_def by (rule if_not_P)
  ultimately show ?thesis using h by simp
qed

subsection \<open>Freeing\<close>

lemma blk_sub: "(b, k) \<in> set (free_blocks bs) \<Longrightarrow> blk b k \<subseteq> free_area bs"
  by (auto simp: free_area_def)

lemma free_area_append [simp]: "free_area (xs @ ys) = free_area xs \<union> free_area ys"
  by (auto simp: free_area_def)

lemma free_area_Cons [simp]:
  "free_area ((a, n, u) # ys) = (if u then free_area ys else blk a n \<union> free_area ys)"
  by (auto simp: free_area_def)

lemma last_ends:
  "tiles lo (xs @ (a, n, u) # ys) hi \<Longrightarrow> hi < 2 ^ 60 \<Longrightarrow> xs \<noteq> [] \<Longrightarrow>
   fst (last xs) + 8 * fst (snd (last xs)) = a"
proof -
  assume t: "tiles lo (xs @ (a, n, u) # ys) hi" and hi: "hi < 2 ^ 60" and "xs \<noteq> []"
  then obtain q k v zs where xs: "xs = zs @ [(q, k, v)]" by (cases xs rule: rev_cases) auto
  then have "unat q + 8 * unat k = unat a" using tiles_split(1) [OF t] by (auto simp: tiles_append)
  moreover have "unat a < 2 ^ 64" by (rule unat_less_2p64)
  ultimately have "unat (q + 8 * k) = unat a" using unat_end [of q k] by simp
  then show ?thesis using xs by (simp add: word_unat_eq_iff)
qed

lemma avl_merge_mem:
  assumes h: "heap_ok m h (xs @ (a, n, True) # ys)"
  shows "\<exists>m'. avl_merge m (fmds_ptr h) a n = Some m' \<and>
    holds m' (fmds_ptr h) (free_blocks (release xs a n ys)) \<and>
    same_except (insert (fmds_ptr h) (free_area (xs @ ys) \<union> blk a n)) m m'"
proof -
  let ?bs = "xs @ (a, n, True) # ys" and ?hi = "unat (m (heap_end h))" and ?tr = "fmds_ptr h"
  let ?A = "insert ?tr (free_area (xs @ ys) \<union> blk a n)"
  note hh = heap_okD(1-3) [OF h]
  obtain n1 ys' where r: "join_right n ys = (n1, ys')" by fastforce
  have h0: "holds m ?tr (free_blocks xs @ free_blocks ys)" using heap_okD(5) [OF h] by simp
  obtain m1 where s1: "(if rnb ys \<noteq> 0 then do {
          let sz = n + nd_data m (rnb ys);
          (m, dest) \<leftarrow> avl_delete_node m ?tr (rnb ys);
          Some (avl_move m ?tr dest (rnb ys), sz) }
        else Some (m, n)) = Some (m1, n1)" "holds m1 ?tr (free_blocks xs @ free_blocks ys')"
      "frame_eq ?tr (map fst (free_blocks xs @ free_blocks ys)) m m1"
    using merge_right_step [OF h0, of n] r by auto
  obtain m2 xs' a' n2 where l: "join_left xs a n1 = (xs', a', n2)"
      and s2: "(if lnb xs \<noteq> 0 then do {
          let addr = a - 8 * nd_data m1 (lnb xs);
          let sz = n1 + nd_data m1 (lnb xs);
          (m, dest) \<leftarrow> avl_delete_node m1 ?tr (lnb xs);
          Some (avl_move m ?tr dest (lnb xs), addr, sz) }
        else Some (m1, a, n1)) = Some (m2, a', n2)" "holds m2 ?tr (free_blocks xs' @ free_blocks ys')"
      "frame_eq ?tr (map fst (free_blocks xs @ free_blocks ys')) m1 m2"
    using merge_left_step [OF s1(2) last_ends [OF hh(3,2)], of n1] by auto
  have rel: "release xs a n ys = xs' @ (a', n2, False) # ys'" by (simp add: release_def r l)
  have t': "tiles (unat h + 64) (xs' @ (a', n2, False) # ys') ?hi"
    using release_ok(1) [OF hh(3,2) heap_okD(4) [OF h]] rel by simp
  note pr = put_ready [OF hh(1,2) t']
  obtain m3 where s3: "put_node m2 ?tr a' n2 = Some m3"
      "holds m3 ?tr (free_blocks xs' @ (a', n2) # free_blocks ys')"
      "frame_eq ?tr (map fst (free_blocks xs' @ (a', n2) # free_blocks ys')) m2 m3"
    using holds_put [OF s2(2) pr] by blast
  have ff: "foot b \<subseteq> ?A" if "b \<in> set (map fst (free_blocks xs @ free_blocks ys))" for b
    using foot_free_area [OF hh, of b] that by auto
  have sub: "set (free_blocks ys') \<subseteq> set (free_blocks ys)" "set (free_blocks xs') \<subseteq> set (free_blocks xs)"
    using free_join_right [OF r] free_join_left [OF l] .
  have fa: "foot a' \<subseteq> ?A"
  proof (cases "xs \<noteq> [] \<and> \<not> snd (snd (last xs))")
    case True
    then have "a' \<in> set (map fst (free_blocks xs))"
      using l by (cases xs rule: rev_cases) (auto simp: join_left_def)
    then show ?thesis using ff by auto
  next
    case False
    then have "join_left xs a n1 = (xs, a, n1)" unfolding join_left_def by (rule if_not_P)
    then have "a' = a" using l by simp
    moreover have "foot a \<subseteq> blk a n" by (rule heap_block(6) [OF hh, where u = True]) simp
    ultimately show ?thesis by blast
  qed
  have nodes: "set (map fst (free_blocks xs @ free_blocks ys')) \<subseteq>
      set (map fst (free_blocks xs @ free_blocks ys))"
    "set (map fst (free_blocks xs' @ (a', n2) # free_blocks ys')) \<subseteq>
      insert a' (set (map fst (free_blocks xs @ free_blocks ys)))"
    using sub by auto
  have "same_except ?A m m1" by (rule frame_same_except [OF s1(3)]) (use ff in auto)
  moreover have "same_except ?A m1 m2"
    by (rule frame_same_except [OF s2(3)]) (use ff nodes(1) in blast)+
  moreover have "same_except ?A m2 m3"
    by (rule frame_same_except [OF s3(3)]) (use ff fa nodes(2) in blast)+
  ultimately have "same_except ?A m m3" using same_except_trans by blast
  moreover obtain r0 where "avl_insert_node m2 ?tr a' n2 avl_mem_cmp = Some (m3, r0)"
    using put_node_code [OF s3(1)] by blast
  then have "avl_merge m ?tr a n = Some m3"
    using heap_search [OF h] s1(1) s2(1) by (simp add: avl_merge_def)
  ultimately show ?thesis using s3(2) rel by auto
qed

lemma free_guard:
  assumes h: "unat h mod 8 = 0" "unat e < 2 ^ 60" and t: "tiles (unat h + 64) bs (unat e)"
    and a: "(a, n, u) \<in> set bs"
  shows "\<not> (a + 8 < h + 64 \<or> h + 8 * e \<le> a + 8)"
proof -
  note ha = heap_block(1-3) [OF h t a]
  have "unat h + 64 < 2 ^ 64" "unat a + 8 < 2 ^ 64" "unat h + 8 * unat e < 2 ^ 64"
    using ha h(2) by simp_all
  then have "unat (h + 64) = unat h + 64" "unat (a + 8) = unat a + 8"
    "unat (h + 8 * e) = unat h + 8 * unat e"
    using unat_add [of h 64] unat_add [of a 8] unat_end [of h e] by simp_all
  then show ?thesis using ha by (auto simp: word_less_nat_alt word_le_nat_alt)
qed

lemma free_mem:
  assumes h: "heap_ok m h (xs @ (a, n, True) # ys)"
  shows "\<exists>m'. free m h (a + 8) = Some m' \<and> heap_ok m' h (release xs a n ys) \<and>
    same_except (free_area (xs @ ys) \<union> blk a n \<union> ctl_cells h) m m'"
proof -
  let ?bs = "xs @ (a, n, True) # ys" and ?hi = "unat (m (heap_end h))" and ?rs = "release xs a n ys"
  let ?A = "free_area (xs @ ys) \<union> blk a n \<union> ctl_cells h"
  note hh = heap_okD(1-3) [OF h]
  have ia: "(a, n, True) \<in> set ?bs" by simp
  note rs = release_ok [OF hh(3,2) heap_okD(4) [OF h]]
  note ha = heap_block [OF hh ia]
  have low: "unat h + 64 < 2 ^ 60" using ha(1,3) hh(2) by linarith
  obtain m1 where m1: "avl_merge m (fmds_ptr h) a n = Some m1" "holds m1 (fmds_ptr h) (free_blocks ?rs)"
    "same_except (insert (fmds_ptr h) (free_area (xs @ ys) \<union> blk a n)) m m1"
    using avl_merge_mem [OF h] by blast
  define m2 where "m2 = m1(true_num_alloced h := m1 (true_num_alloced h) - 1)"
  define m3 where "m3 = m2(words_used h := m2 (words_used h) - n)"
  have "m a = n" using heap_okD(6) [OF h, of a n] by simp
  then have code: "free m h (a + 8) = Some m3"
    using m1(1) free_guard [OF hh ia]
    by (simp add: free_def hds_sz_def umds_sz_def m2_def m3_def)
  have cell: "x \<notin> free_area (xs @ ys) \<union> blk a n" if "x \<in> insert (heap_end h) (ctl_cells h)" for x
  proof -
    have "x \<notin> blk a n" using cells_low [OF low that] ha(1) by (simp add: blk_def)
    with cells_not_free [OF hh low that] show ?thesis by simp
  qed
  have eq1: "m1 x = m x" if "x \<in> {heap_end h, true_num_alloced h, words_used h}" for x
    using that cell [of x] cells_distinct by (intro same_exceptD [OF m1(3)]) (auto simp: ctl_cells_def)
  have m3: "m3 (heap_end h) = m (heap_end h)"
    "m3 (true_num_alloced h) = m (true_num_alloced h) - 1" "m3 (words_used h) = m (words_used h) - n"
    using eq1 cells_distinct by (auto simp: m3_def m2_def)
  have se: "same_except ?A m m3"
    using same_except_mono [OF m1(3), of ?A] by (auto simp: m3_def m2_def ctl_cells_def same_except_write)
  have hdr: "m3 b = k" if ub: "(b, k) \<in> set (used_blocks ?rs)" for b k
  proof -
    have b: "(b, k, True) \<in> set xs \<union> set ys" "(b, k) \<in> set (used_blocks ?bs)"
      using ub rs(3) by (auto simp: in_used_blocks)
    then have "(b, k, True) \<in> set ?bs" by auto
    note hb = heap_block [OF hh this]
    have bb: "b \<in> blk b k" using hb(2) by (intro blk_self) linarith
    have "b \<notin> free_area ?bs" by (rule used_not_free [OF hh b(2) bb])
    moreover have "b \<notin> blk a n" using tiles_sep(2) [OF hh(3,2) b(1)] bb by blast
    moreover have "b \<notin> ctl_cells h" using high_not_cell [OF low hb(1)] by blast
    ultimately have "m3 b = m b" by (intro same_exceptD [OF se]) auto
    then show ?thesis using heap_okD(6) [OF h b(2)] by simp
  qed
  have ho: "holds m3 (fmds_ptr h) (free_blocks ?rs)"
  proof (rule holds_same [OF m1(2)])
    show "same_except {true_num_alloced h, words_used h} m1 m3"
      by (simp add: m3_def m2_def same_except_write)
    show "fmds_ptr h \<notin> {true_num_alloced h, words_used h}" using cells_distinct by simp
    show "\<forall>(b, d) \<in> set (free_blocks ?rs). foot b \<inter> {true_num_alloced h, words_used h} = {}"
      using node_clear(1) [OF hh(1,2) rs(1)] by (fastforce simp: ctl_cells_def)
  qed
  have cnt: "m (true_num_alloced h) = of_nat (length (used_blocks xs @ used_blocks ys)) + 1"
    "m (words_used h) = sum_list (map snd (used_blocks xs @ used_blocks ys)) + n"
    using heap_okD(7,8) [OF h] by (simp_all add: algebra_simps)
  have "heap_ok m3 h ?rs" unfolding heap_ok_def m3
    using hh(1,2) rs ho hdr cnt by auto
  with code se show ?thesis by blast
qed

end
