(* ===== verification/Heap_Client.thy ===== *)
theory Heap_Client
  imports Heap_Free
begin

text \<open>
  The heap as its clients see it: a set of live blocks, each with the address \<open>alloc\<close> returned and its
  size in words, the size word included. The locale states what the clients rely on; it is
  interpreted on \<open>alloc\<close> and \<open>free\<close>.
\<close>

text \<open>The words of a block that belong to the client.\<close>

definition payload :: "u64 \<Rightarrow> u64 \<Rightarrow> u64 set" where
  "payload p s = {x. unat p \<le> unat x \<and> unat x < unat p + 8 * (unat s - 1)}"

text \<open>The words of all blocks of a set.\<close>

definition area :: "(u64 \<times> u64) set \<Rightarrow> u64 set" where
  "area L = (\<Union>(p, s) \<in> L. payload p s)"

lemma area_simps [simp]:
  "area {} = {}" "area (insert (p, s) L) = payload p s \<union> area L" "area (K \<union> L) = area K \<union> area L"
  by (auto simp: area_def)

lemma in_area: "x \<in> area L \<longleftrightarrow> (\<exists>(p, s) \<in> L. x \<in> payload p s)"
  by (auto simp: area_def)

lemma area_mono: "K \<subseteq> L \<Longrightarrow> area K \<subseteq> area L"
  by (auto simp: area_def)

text \<open>The words of all blocks, and those of \<open>B\<close>, are as they were.\<close>

definition keeps :: "u64 set \<Rightarrow> (u64 \<times> u64) set \<Rightarrow> mem \<Rightarrow> mem \<Rightarrow> bool" where
  "keeps B L m m' \<longleftrightarrow> (\<forall>x \<in> B \<union> area L. m' x = m x)"

lemma keeps_refl [simp]: "keeps B L m m"
  by (simp add: keeps_def)

lemma keeps_trans: "keeps B L m m' \<Longrightarrow> keeps B L m' m'' \<Longrightarrow> keeps B L m m''"
  by (simp add: keeps_def)

lemma keepsD: "keeps B L m m' \<Longrightarrow> (p, s) \<in> L \<Longrightarrow> x \<in> payload p s \<Longrightarrow> m' x = m x"
  unfolding keeps_def area_def by blast

lemma keeps_subset: "keeps B L m m' \<Longrightarrow> K \<subseteq> L \<Longrightarrow> keeps B K m m'"
  unfolding keeps_def area_def by blast

lemma keeps_same: "same_except A m m' \<Longrightarrow> (B \<union> area L) \<inter> A = {} \<Longrightarrow> keeps B L m m'"
  unfolding keeps_def same_except_def by blast

subsection \<open>The interface\<close>

locale allocator =
  fixes inv :: "mem \<Rightarrow> (u64 \<times> u64) set \<Rightarrow> bool"
    and outside :: "u64 set"
    and alloc_op :: "mem \<Rightarrow> u64 \<Rightarrow> (mem \<times> u64) option"
    and free_op :: "mem \<Rightarrow> u64 \<Rightarrow> mem option"
  assumes alloc_law: "inv m L \<Longrightarrow> \<exists>m' p. alloc_op m n = Some (m', p) \<and>
      (p = 0 \<and> m' = m \<or>
       (\<exists>s. need n \<le> s \<and> p \<noteq> 0 \<and> p \<notin> fst ` L \<and> inv m' (insert (p, s) L) \<and> keeps outside L m m'))"
    and free_law: "inv m (insert (p, s) L) \<Longrightarrow> p \<notin> fst ` L \<Longrightarrow>
      \<exists>m'. free_op m p = Some m' \<and> inv m' L \<and> keeps outside L m m'"
    and write_law: "inv m L \<Longrightarrow> x \<in> outside \<union> area L \<Longrightarrow> inv (m(x := v)) L"
    and apart: "inv m L \<Longrightarrow> (p, s) \<in> L \<Longrightarrow> (q, k) \<in> L \<Longrightarrow> p \<noteq> q \<Longrightarrow> payload p s \<inter> payload q k = {}"
    and outside_law: "inv m L \<Longrightarrow> area L \<inter> outside = {}"
    and one_size: "inv m L \<Longrightarrow> (p, s) \<in> L \<Longrightarrow> (p, k) \<in> L \<Longrightarrow> s = k"
begin

text \<open>Any number of writes to the words of live blocks, and outside the heap, keep the invariant.\<close>

lemma writes:
  assumes "inv m L" "same_except (outside \<union> area L) m m'"
  shows "inv m' L"
proof -
  have *: "finite D \<Longrightarrow> {x. f x \<noteq> m x} = D \<Longrightarrow> same_except (outside \<union> area L) m f \<Longrightarrow> inv f L" for D f
  proof (induction D arbitrary: f rule: finite_induct)
    case empty
    then have "f x = m x" for x by blast
    then have "f = m" by (rule ext)
    with assms(1) show ?case by simp
  next
    case (insert y D)
    let ?m = "f(y := m y)"
    have y: "y \<in> outside \<union> area L" using insert.prems unfolding same_except_def by blast
    have "{x. ?m x \<noteq> m x} = {x. f x \<noteq> m x} - {y}" by (simp add: set_eq_iff)
    also have "\<dots> = D" using insert.prems(1) insert.hyps(2) by simp
    finally have "inv ?m L" using insert.prems(2) by (intro insert.IH) (simp_all add: same_except_def)
    from write_law [OF this y, of "f y"] show ?case by simp
  qed
  show ?thesis by (rule * [OF finite refl assms(2)])
qed

text \<open>A block is apart from all others.\<close>

lemma apart_area:
  assumes "inv m (insert (p, s) L)" "p \<notin> fst ` L"
  shows "payload p s \<inter> area L = {}"
proof -
  have "payload p s \<inter> payload q k = {}" if "(q, k) \<in> L" for q k
  proof -
    have "p \<noteq> q" using assms(2) that by force
    then show ?thesis using apart [OF assms(1)] that by blast
  qed
  then show ?thesis unfolding area_def by blast
qed

lemma apart_areas:
  assumes "inv m (K \<union> L)" "fst ` K \<inter> fst ` L = {}"
  shows "area K \<inter> area L = {}"
proof -
  have "payload p s \<inter> payload q k = {}" if "(p, s) \<in> K" "(q, k) \<in> L" for p s q k
  proof -
    have "p \<noteq> q" using assms(2) that by force
    then show ?thesis using apart [OF assms(1)] that by blast
  qed
  then show ?thesis unfolding area_def by blast
qed

text \<open>Allocation followed by the release of the same block changes no live block.\<close>

lemma alloc_then_free:
  assumes "inv m L" "alloc_op m n = Some (m1, p)" "p \<noteq> 0"
  shows "\<exists>m2. free_op m1 p = Some m2 \<and> inv m2 L \<and> keeps outside L m m2"
proof -
  obtain s where s: "p \<notin> fst ` L" "inv m1 (insert (p, s) L)" "keeps outside L m m1"
    using alloc_law [OF assms(1), of n] assms(2,3) by auto
  from free_law [OF s(2,1)] s(3) show ?thesis using keeps_trans by blast
qed

text \<open>The contents of a block move to a new block, and the old block is freed.\<close>

lemma move_block:
  assumes i: "inv m (insert (a, n) L)" "a \<notin> fst ` L" and al: "alloc_op m k = Some (m1, p)" "p \<noteq> 0"
    and c: "\<And>s. need k \<le> s \<Longrightarrow> inv m1 (insert (p, s) (insert (a, n) L)) \<Longrightarrow> p \<noteq> a \<Longrightarrow>
      same_except (payload p s) m1 m2"
  shows "\<exists>m3 s. free_op m2 a = Some m3 \<and> need k \<le> s \<and> p \<notin> fst ` L \<and> p \<noteq> a \<and>
    inv m1 (insert (p, s) (insert (a, n) L)) \<and> inv m3 (insert (p, s) L) \<and> keeps outside L m m3 \<and>
    keeps outside {(a, n)} m m1 \<and> keeps outside {(p, s)} m2 m3"
proof -
  obtain s where s: "need k \<le> s" "p \<notin> fst ` (insert (a, n) L)"
    "inv m1 (insert (p, s) (insert (a, n) L))" "keeps outside (insert (a, n) L) m m1"
    using alloc_law [OF i(1), of k] al by auto
  have pa: "p \<noteq> a" "p \<notin> fst ` L" using s(2) by auto
  note se = c [OF s(1,3) pa(1)]
  have w: "inv m2 (insert (p, s) (insert (a, n) L))"
    by (rule writes [OF s(3)]) (rule same_except_mono [OF se], auto)
  have "payload p s \<inter> area (insert (a, n) L) = {}" by (rule apart_area [OF s(3,2)])
  moreover have "payload p s \<inter> outside = {}" using outside_law [OF s(3)] by auto
  ultimately have w2: "keeps outside L m1 m2" by (intro keeps_same [OF se]) auto
  have "inv m2 (insert (a, n) (insert (p, s) L))" using w by (simp add: insert_commute)
  moreover have "a \<notin> fst ` (insert (p, s) L)" using pa i(2) by auto
  ultimately obtain m3 where m3: "free_op m2 a = Some m3" "inv m3 (insert (p, s) L)"
    "keeps outside (insert (p, s) L) m2 m3" using free_law by blast
  have "keeps outside L m m3"
    using keeps_trans w2 keeps_subset [OF s(4)] keeps_subset [OF m3(3)] by (meson subset_insertI)
  moreover have "keeps outside {(a, n)} m m1" "keeps outside {(p, s)} m2 m3"
    using keeps_subset [OF s(4)] keeps_subset [OF m3(3)] by auto
  ultimately show ?thesis using m3(1,2) s(1,3) pa by blast
qed

end

subsection \<open>The heap of the program\<close>

text \<open>
  What lies below the blocks and is not the allocator's: the program, its global variables and its
  stack, and the fields of the header that the allocator leaves alone, those of the collector
  among them.
\<close>

definition below :: "u64 \<Rightarrow> u64 set" where
  "below h = {x. unat x < unat h + 64} - insert (heap_end h) (ctl_cells h)"

definition live :: "block list \<Rightarrow> (u64 \<times> u64) set" where
  "live bs = (\<lambda>(a, s). (a + 8, s)) ` set (used_blocks bs)"

definition heap_inv :: "u64 \<Rightarrow> mem \<Rightarrow> (u64 \<times> u64) set \<Rightarrow> bool" where
  "heap_inv h m L \<longleftrightarrow> (\<exists>bs. heap_ok m h bs \<and> L = live bs)"

lemma in_live: "(p, s) \<in> live bs \<longleftrightarrow> (p - 8, s, True) \<in> set bs"
proof -
  have "(p, s) \<in> live bs \<longleftrightarrow> (\<exists>a. p = a + 8 \<and> (a, s, True) \<in> set bs)"
    unfolding live_def in_used_blocks [symmetric] by (auto simp: image_iff Bex_def)
  also have "\<dots> \<longleftrightarrow> (p - 8, s, True) \<in> set bs" by (metis add_diff_cancel diff_add_cancel)
  finally show ?thesis .
qed

lemma live_simps [simp]:
  "live [] = {}" "live (xs @ ys) = live xs \<union> live ys"
  "live ((a, n, u) # bs) = (if u then insert (a + 8, n) (live bs) else live bs)"
  by (auto simp: live_def)

lemma block_unat:
  assumes h: "heap_ok m h bs" and b: "(a, n, u) \<in> set bs"
  shows "unat (a + 8) = unat a + 8" "4 \<le> unat n" "unat h + 64 \<le> unat a" "unat a + 8 * unat n < 2 ^ 60"
proof -
  note hb = heap_block(1-3) [OF heap_okD(1-3) [OF h] b]
  show "4 \<le> unat n" "unat h + 64 \<le> unat a" by (fact hb)+
  show lt: "unat a + 8 * unat n < 2 ^ 60" using hb(3) heap_okD(2) [OF h] by linarith
  have "unat a + 64 < 2 ^ 64" using lt by simp
  then show "unat (a + 8) = unat a + 8" by (rule unat_add_lit)
qed

lemma payload_blk:
  assumes h: "heap_ok m h bs" and b: "(a, n, u) \<in> set bs"
  shows "payload (a + 8) n \<subseteq> blk a n" "a \<notin> payload (a + 8) n"
  using block_unat [OF assms] by (auto simp: payload_def blk_def)

lemma block_eq:
  assumes h: "heap_ok m h bs" and b: "(a, n, u) \<in> set bs" "(c, k, v) \<in> set bs"
    and x: "x \<in> blk a n" "x \<in> blk c k"
  shows "a = c \<and> n = k \<and> u = v"
proof -
  obtain xs ys where bs: "bs = xs @ (a, n, u) # ys" using split_list [OF b(1)] by metis
  note t = heap_okD(3) [OF h, unfolded bs]
  consider "(c, k, v) \<in> set xs" | "(c, k, v) = (a, n, u)" | "(c, k, v) \<in> set ys" using b(2) bs by auto
  then show ?thesis
  proof cases
    case 1 from tiles_disjoint(1) [OF t this] x show ?thesis by (simp add: blk_def)
  next
    case 3 from tiles_disjoint(2) [OF t this] x show ?thesis by (simp add: blk_def)
  qed simp
qed

lemma heap_low:
  assumes h: "heap_ok m h bs" and x: "x \<in> below h"
  shows "x \<notin> free_area bs" "x \<notin> ctl_cells h"
proof -
  have x: "unat x < unat h + 64" "x \<notin> ctl_cells h" using x by (simp_all add: below_def)
  show "x \<notin> free_area bs"
  proof
    assume "x \<in> free_area bs"
    then obtain a n where "(a, n, False) \<in> set bs" "x \<in> blk a n"
      by (auto simp: free_area_def in_free_blocks)
    with block_unat(3) [OF h] x(1) show False by (fastforce simp: blk_def)
  qed
qed (use x in \<open>simp add: below_def\<close>)

lemma heap_keeps:
  assumes h: "heap_ok m h bs" and se: "same_except (free_area bs \<union> B \<union> ctl_cells h) m m'"
    and L: "L \<subseteq> live bs" and B: "\<And>p s. (p, s) \<in> L \<Longrightarrow> blk (p - 8) s \<inter> B = {}" "B \<inter> below h = {}"
  shows "keeps (below h) L m m'"
proof -
  have "m' x = m x" if p: "(p, s) \<in> L" "x \<in> payload p s" for p s x
  proof -
    have b: "(p - 8, s, True) \<in> set bs" using L in_live p(1) by blast
    have xb: "x \<in> blk (p - 8) s" using payload_blk(1) [OF h b] p(2) by auto
    have "(p - 8, s) \<in> set (used_blocks bs)" using b by (simp add: in_used_blocks)
    from used_not_free [OF heap_okD(1-3) [OF h] this xb] have "x \<notin> free_area bs" .
    moreover have "x \<notin> B" using B(1) [OF p(1)] xb by blast
    moreover have "x \<notin> ctl_cells h"
    proof -
      note bu = block_unat [OF h b]
      have "unat h + 64 \<le> unat x" using bu(3) xb by (simp add: blk_def)
      moreover have "unat h + 64 < 2 ^ 60" using bu(3,4) by linarith
      ultimately show ?thesis using high_not_cell by blast
    qed
    ultimately show ?thesis using se by (simp add: same_except_def)
  qed
  moreover have "m' x = m x" if "x \<in> below h" for x
    using heap_low [OF h that] B(2) that se by (intro same_exceptD [OF se]) blast
  ultimately show ?thesis by (auto simp: keeps_def in_area)
qed

lemma live_carve:
  "live (carve xs a s ys k) = insert (a + 8, if k + min_alloc_sz \<le> s then k else s) (live (xs @ ys))"
  by (auto simp: carve_def)

lemma live_release:
  assumes "heap_ok m h (xs @ (a, n, True) # ys)"
  shows "live (release xs a n ys) = live (xs @ ys)"
  unfolding live_def release_ok(3) [OF heap_okD(3,2,4) [OF assms]] ..

lemma fresh_block:
  assumes h: "heap_ok m h (xs @ (a, n, u) # ys)"
  shows "a + 8 \<notin> fst ` live (xs @ ys)"
proof
  assume "a + 8 \<in> fst ` live (xs @ ys)"
  then obtain s where "(a + 8, s) \<in> live (xs @ ys)" by force
  then have b: "(a, s, True) \<in> set xs \<union> set ys" by (simp only: in_live) simp
  moreover have "4 \<le> unat n" "4 \<le> unat s"
    using block_unat(2) [OF h, of a n u] block_unat(2) [OF h, of a s True] b by auto
  ultimately show False using tiles_disjoint [OF heap_okD(3) [OF h], of a s True] by auto
qed

lemma alloc_inv:
  assumes "heap_inv h m L"
  shows "\<exists>m' p. alloc m h n = Some (m', p) \<and> (p = 0 \<and> m' = m \<or>
    (\<exists>s. need n \<le> s \<and> p \<noteq> 0 \<and> p \<notin> fst ` L \<and> heap_inv h m' (insert (p, s) L) \<and> keeps (below h) L m m'))"
proof -
  obtain bs where bs: "heap_ok m h bs" "L = live bs" using assms by (auto simp: heap_inv_def)
  from alloc_mem [OF bs(1), of n] show ?thesis
  proof
    assume "(\<forall>(a, s) \<in> set (free_blocks bs). s < need n) \<and> alloc m h n = Some (m, 0)"
    then show ?thesis by blast
  next
    assume "\<exists>xs a s ys m'. bs = xs @ (a, s, False) # ys \<and> need n \<le> s \<and>
       alloc m h n = Some (m', a + 8) \<and> heap_ok m' h (carve xs a s ys (need n)) \<and>
       same_except (free_area bs \<union> ctl_cells h) m m'"
    then obtain xs a s ys m' where a: "bs = xs @ (a, s, False) # ys" "need n \<le> s"
       "alloc m h n = Some (m', a + 8)" "heap_ok m' h (carve xs a s ys (need n))"
       "same_except (free_area bs \<union> ctl_cells h) m m'" by blast
    let ?s = "if need n + min_alloc_sz \<le> s then need n else s"
    have L: "L = live (xs @ ys)" using bs(2) a(1) by simp
    have "heap_inv h m' (insert (a + 8, ?s) L)"
      unfolding heap_inv_def L live_carve [symmetric] using a(4) by blast
    moreover have "keeps (below h) L m m'"
      by (rule heap_keeps [OF bs(1), where B = "{}"]) (use a(5) bs(2) in simp_all)
    moreover have "a + 8 \<notin> fst ` L" unfolding L by (rule fresh_block) (use bs(1) a(1) in simp)
    moreover have "a + 8 \<noteq> 0" using block_unat(1) [OF bs(1), of a s False] a(1) by auto
    moreover have "need n \<le> ?s" using a(2) by simp
    ultimately show ?thesis using a(3) by blast
  qed
qed

lemma free_inv:
  assumes i: "heap_inv h m (insert (p, s) L)" and p: "p \<notin> fst ` L"
  shows "\<exists>m'. free m h p = Some m' \<and> heap_inv h m' L \<and> keeps (below h) L m m'"
proof -
  obtain bs where bs: "heap_ok m h bs" "insert (p, s) L = live bs" using i by (auto simp: heap_inv_def)
  have b: "(p - 8, s, True) \<in> set bs" using bs(2) in_live by blast
  obtain xs ys where e: "bs = xs @ (p - 8, s, True) # ys" using split_list [OF b] by metis
  note ok = bs(1) [unfolded e]
  have "p \<notin> fst ` live (xs @ ys)" using fresh_block [OF ok] by simp
  moreover have "insert (p, s) L = insert (p, s) (live (xs @ ys))" using bs(2) e by simp
  ultimately have L: "L = live (xs @ ys)" using p by (metis (no_types, lifting) fst_conv image_insert insert_eq_iff insert_iff rev_image_eqI)
  obtain m' where m': "free m h p = Some m'" "heap_ok m' h (release xs (p - 8) s ys)"
    "same_except (free_area (xs @ ys) \<union> blk (p - 8) s \<union> ctl_cells h) m m'"
    using free_mem [OF ok] by auto
  have "heap_inv h m' L" unfolding heap_inv_def using m'(2) live_release [OF ok] L by blast
  moreover have "keeps (below h) L m m'"
  proof (rule heap_keeps [OF bs(1), where B = "blk (p - 8) s"])
    show "same_except (free_area bs \<union> blk (p - 8) s \<union> ctl_cells h) m m'" using m'(3) e by simp
    show "L \<subseteq> live bs" using bs(2) by blast
    show "blk (p - 8) s \<inter> below h = {}"
      using block_unat(3) [OF bs(1) b] by (auto simp: blk_def below_def)
    fix q k assume q: "(q, k) \<in> L"
    then have qb: "(q - 8, k, True) \<in> set bs" using bs(2) in_live by blast
    have "q \<noteq> p" using q p by force
    then have "q - 8 \<noteq> p - 8" by simp
    then show "blk (q - 8) k \<inter> blk (p - 8) s = {}" using block_eq [OF bs(1) qb b] by blast
  qed
  ultimately show ?thesis using m'(1) by blast
qed

lemma write_ok:
  assumes ok: "heap_ok m h bs" and p: "(p, s) \<in> live bs" and x: "x \<in> payload p s"
  shows "heap_ok (m(x := v)) h bs"
proof -
  have b: "(p - 8, s, True) \<in> set bs" using p in_live by blast
  note pb = payload_blk [OF ok b, simplified]
  have xb: "x \<in> blk (p - 8) s" using pb(1) x by auto
  note bu = block_unat [OF ok b]
  have low: "unat h + 64 < 2 ^ 60" using bu(3,4) by linarith
  have "unat h + 64 \<le> unat x" using bu(3) xb by (simp add: blk_def)
  then have cells: "x \<notin> insert (heap_end h) (ctl_cells h)" by (rule high_not_cell [OF low])
  have nf: "x \<notin> free_area bs"
    by (rule used_not_free [OF heap_okD(1-3) [OF ok] _ xb]) (use b in \<open>simp add: in_used_blocks\<close>)
  have hd: "m(x := v) \<noteq> m \<or> True" "(m(x := v)) a = n" if "(a, n) \<in> set (used_blocks bs)" for a n
  proof -
    have ab: "(a, n, True) \<in> set bs" using that by (simp add: in_used_blocks)
    have "unat n \<noteq> 0" using block_unat(2) [OF ok ab] by linarith
    then have aa: "a \<in> blk a n" by (rule blk_self)
    have "x \<noteq> a"
    proof
      assume "x = a"
      then have "p - 8 = a" using block_eq [OF ok b ab] xb aa by blast
      with pb(2) x \<open>x = a\<close> show False by simp
    qed
    then show "(m(x := v)) a = n" using heap_okD(6) [OF ok that] by simp
  qed simp
  have hl: "holds (m(x := v)) (fmds_ptr h) (free_blocks bs)"
  proof (rule holds_same [OF heap_okD(5) [OF ok], where A = "{x}"])
    show "\<forall>(a, d) \<in> set (free_blocks bs). foot a \<inter> {x} = {}"
    proof (safe)
      fix a d assume ad: "(a, d) \<in> set (free_blocks bs)" "x \<in> foot a"
      then have "(a, d, False) \<in> set bs" by (simp add: in_free_blocks)
      then have "foot a \<subseteq> blk a d" by (rule heap_block(6) [OF heap_okD(1-3) [OF ok]])
      with blk_sub [OF ad(1)] ad(2) nf show "x \<in> {}" by blast
    qed
    show "fmds_ptr h \<notin> {x}" using cells by (auto simp: ctl_cells_def)
  qed (simp add: same_except_def)
  have c: "(m(x := v)) y = m y" if "y \<in> insert (heap_end h) (ctl_cells h)" for y
    using that cells by auto
  show ?thesis
    unfolding heap_ok_def
  proof (intro conjI)
    show "\<forall>(a, n) \<in> set (used_blocks bs). (m(x := v)) a = n" using hd(2) by blast
  qed (use heap_okD [OF ok] hl c in \<open>simp_all add: ctl_cells_def del: fun_upd_apply\<close>)
qed

lemma heap_ok_writes:
  assumes "heap_ok m h bs" "\<forall>(x, v) \<in> set ws. x \<in> area (live bs)"
  shows "heap_ok (fold (\<lambda>(x, v) f. f(x := v)) ws m) h bs"
  using assms
proof (induction ws arbitrary: m)
  case (Cons w ws)
  obtain x v where w: "w = (x, v)" by fastforce
  with Cons.prems(2) obtain p s where "(p, s) \<in> live bs" "x \<in> payload p s" by (auto simp: in_area)
  then have "heap_ok (m(x := v)) h bs" by (rule write_ok [OF Cons.prems(1)])
  from Cons.IH [OF this] Cons.prems(2) w show ?case by simp
qed simp

lemma write_inv:
  assumes "heap_inv h m L" "(p, s) \<in> L" "x \<in> payload p s"
  shows "heap_inv h (m(x := v)) L"
  using assms write_ok unfolding heap_inv_def by blast

text \<open>Writing below the blocks changes nothing of the heap.\<close>

lemma write_below_ok:
  assumes bs: "heap_ok m h bs" and x: "x \<in> below h"
  shows "heap_ok (m(x := v)) h bs"
proof -
  let ?m = "m(x := v)"
  note t = heap_okD(3) [OF bs]
  have x: "unat x < unat h + 64" "x \<notin> insert (heap_end h) (ctl_cells h)"
    using x by (simp_all add: below_def)
  have high: "?m y = m y" if "unat h + 64 \<le> unat y" for y using that x(1) by auto
  have cells: "?m (heap_end h) = m (heap_end h)" "?m (fmds_ptr h) = m (fmds_ptr h)"
    "?m (true_num_alloced h) = m (true_num_alloced h)" "?m (words_used h) = m (words_used h)"
    using x(2) by (auto simp: ctl_cells_def)
  have blocks: "unat h + 64 \<le> unat a" "foot a \<subseteq> blk a n" if "(a, n, u) \<in> set bs" for a n u
    using heap_block(1,6) [OF heap_okD(1-3) [OF bs] that] by blast+
  have hl: "holds ?m (fmds_ptr h) (free_blocks bs)"
  proof (rule holds_same [OF heap_okD(5) [OF bs], where A = "{x}"])
    show "\<forall>(a, d) \<in> set (free_blocks bs). foot a \<inter> {x} = {}"
      using blocks x(1) by (fastforce simp: in_free_blocks blk_def)
    show "fmds_ptr h \<notin> {x}" using x(2) by (auto simp: ctl_cells_def)
  qed (simp add: same_except_def)
  have hd: "?m a = n" if "(a, n) \<in> set (used_blocks bs)" for a n
  proof -
    have "unat h + 64 \<le> unat a" using blocks(1) [of a n True] that by (simp add: in_used_blocks)
    then show ?thesis using high heap_okD(6) [OF bs that] by simp
  qed
  then have hd: "\<forall>(a, n) \<in> set (used_blocks bs). ?m a = n" by blast
  show ?thesis
    unfolding heap_ok_def cells using heap_okD [OF bs] hl hd by blast
qed

lemma write_below: "heap_inv h m L \<Longrightarrow> x \<in> below h \<Longrightarrow> heap_inv h (m(x := v)) L"
  using write_below_ok unfolding heap_inv_def by blast

lemma live_below:
  assumes "heap_inv h m L"
  shows "area L \<inter> below h = {}"
proof -
  obtain bs where bs: "heap_ok m h bs" "L = live bs" using assms by (auto simp: heap_inv_def)
  have "unat h + 64 \<le> unat x" if p: "(p, s) \<in> L" "x \<in> payload p s" for p s x
  proof -
    have b: "(p - 8, s, True) \<in> set bs" using bs(2) p(1) in_live by blast
    from payload_blk(1) [OF bs(1) b] block_unat(3) [OF bs(1) b] p(2) show ?thesis
      by (auto simp: blk_def)
  qed
  then show ?thesis by (fastforce simp: below_def in_area)
qed

lemma write_any:
  assumes "heap_inv h m L" "x \<in> below h \<union> area L"
  shows "heap_inv h (m(x := v)) L"
  using assms write_below write_inv by (auto simp: in_area)

lemma live_apart:
  assumes i: "heap_inv h m L" and p: "(p, s) \<in> L" "(q, k) \<in> L" "p \<noteq> q"
  shows "payload p s \<inter> payload q k = {}"
proof -
  obtain bs where bs: "heap_ok m h bs" "L = live bs" using i by (auto simp: heap_inv_def)
  have b: "(p - 8, s, True) \<in> set bs" "(q - 8, k, True) \<in> set bs" using bs(2) p in_live by blast+
  have "p - 8 \<noteq> q - 8" using p(3) by simp
  with block_eq [OF bs(1) b] payload_blk(1) [OF bs(1) b(1)] payload_blk(1) [OF bs(1) b(2)]
  show ?thesis by auto
qed

lemma live_size:
  assumes i: "heap_inv h m L" and p: "(p, s) \<in> L" "(p, k) \<in> L"
  shows "s = k"
proof -
  obtain bs where bs: "heap_ok m h bs" "L = live bs" using i by (auto simp: heap_inv_def)
  with p have "(p - 8, s, True) \<in> set bs" "(p - 8, k, True) \<in> set bs" using in_live by blast+
  with tiles_unique [OF heap_okD(3) [OF bs(1)]] show ?thesis by blast
qed

subsection \<open>Facts about live blocks\<close>

lemma pows: "(2::nat) ^ 61 = 2 * 2 ^ 60" "(2::nat) ^ 64 = 16 * 2 ^ 60" "(8::nat) < 2 ^ 60"
  by simp_all

lemma live_facts:
  assumes i: "heap_inv h m L" and p: "(p, s) \<in> L"
  shows "m (p - 8) = s" "4 \<le> unat s" "unat p + 8 * unat s < 2 ^ 61" "unat h + 72 \<le> unat p"
    "(q, k) \<in> L \<Longrightarrow> p - 8 \<notin> payload q k"
proof -
  obtain bs where bs: "heap_ok m h bs" "L = live bs" using i by (auto simp: heap_inv_def)
  have b: "(p - 8, s, True) \<in> set bs" using bs(2) p in_live by blast
  note bu = block_unat(2-4) [OF bs(1) b]
  have up: "unat p = unat (p - 8) + 8" using block_unat(1) [OF bs(1) b] by simp
  show "m (p - 8) = s" using heap_okD(6) [OF bs(1)] b by (simp add: in_used_blocks)
  show "4 \<le> unat s" "unat p + 8 * unat s < 2 ^ 61" "unat h + 72 \<le> unat p" using bu pows up by linarith+
  assume q: "(q, k) \<in> L"
  have qb: "(q - 8, k, True) \<in> set bs" using bs(2) q in_live by blast
  have "unat s \<noteq> 0" using bu(1) by linarith
  then have own: "p - 8 \<in> blk (p - 8) s" by (rule blk_self)
  show "p - 8 \<notin> payload q k"
  proof
    assume x: "p - 8 \<in> payload q k"
    then have "p - 8 \<in> blk (q - 8) k" using payload_blk(1) [OF bs(1) qb] by auto
    with block_eq [OF bs(1) b qb own] have "p = q" "s = k" by auto
    with payload_blk(2) [OF bs(1) qb] x show False by simp
  qed
qed

text \<open>The word with index \<open>i\<close> of a block.\<close>

lemma in_payload:
  assumes "unat p + 8 * unat s < 2 ^ 61" "unat i + 1 < unat s"
  shows "unat (p + 8 * i) = unat p + 8 * unat i" "p + 8 * i \<in> payload p s"
proof -
  have "unat (8 * i) = 8 * unat i" using assms pows by (intro unat_mult8) linarith
  then show "unat (p + 8 * i) = unat p + 8 * unat i"
    using assms pows by (subst unat_add) linarith+
  then show "p + 8 * i \<in> payload p s" using assms(2) by (simp add: payload_def)
qed

interpretation heap: allocator "heap_inv h" "below h" "\<lambda>m n. alloc m h n" "\<lambda>m p. free m h p" for h
proof
  fix m L n show "heap_inv h m L \<Longrightarrow> \<exists>m' p. alloc m h n = Some (m', p) \<and>
      (p = 0 \<and> m' = m \<or>
       (\<exists>s. need n \<le> s \<and> p \<noteq> 0 \<and> p \<notin> fst ` L \<and> heap_inv h m' (insert (p, s) L) \<and> keeps (below h) L m m'))"
    by (rule alloc_inv)
qed (fact free_inv write_any live_apart live_below live_size)+

end
