(* ===== verification/Avl_Order.thy ===== *)
theory Avl_Order
  imports Avl_Index
begin

text \<open>
  AVL trees ordered by the data of their nodes. A comparison function reads a key from the data of a
  tree node and a key from the data of the node it is compared with (for most functions the
  same); the locale states that its result is the order of these keys. Insertion and search are
  proved once for all such functions.
\<close>

text \<open>The result of a comparison function for two keys.\<close>

definition three_way :: "'k :: linorder \<Rightarrow> 'k \<Rightarrow> u64" where
  "three_way x y = (if x < y then 1 else if x = y then 0 else -1)"

lemma three_way_simps [simp]:
  "three_way x y = 0 \<longleftrightarrow> x = y" "three_way x y = 1 \<longleftrightarrow> x < y" "three_way x y = -1 \<longleftrightarrow> y < x"
  by (auto simp: three_way_def)

lemma three_way_values: "three_way x y = -1 \<or> three_way x y = 0 \<or> three_way x y = 1"
  by (simp add: three_way_def)

definition sorted_by :: "(u64 \<Rightarrow> 'k :: linorder) \<Rightarrow> (u64 \<times> u64) list \<Rightarrow> bool" where
  "sorted_by f xs \<longleftrightarrow> sorted_wrt (\<lambda>p q. f (snd p) < f (snd q)) xs"

lemma sorted_by_simps [simp]:
  "sorted_by f []" "sorted_by f [p]"
  "sorted_by f (xs @ ys) \<longleftrightarrow> sorted_by f xs \<and> sorted_by f ys \<and>
     (\<forall>p \<in> set xs. \<forall>q \<in> set ys. f (snd p) < f (snd q))"
  "sorted_by f (p # ys) \<longleftrightarrow> (\<forall>q \<in> set ys. f (snd p) < f (snd q)) \<and> sorted_by f ys"
  by (auto simp: sorted_by_def sorted_wrt_append)

lemma sorted_by_inj: "sorted_by f xs \<Longrightarrow> p \<in> set xs \<Longrightarrow> q \<in> set xs \<Longrightarrow> f (snd p) = f (snd q) \<Longrightarrow> p = q"
  by (induction xs) auto

lemma sorted_by_cong: "\<forall>p \<in> set xs. f (snd p) = g (snd p) \<Longrightarrow> sorted_by f xs \<longleftrightarrow> sorted_by g xs"
  by (induction xs) auto

locale key_order =
  fixes cmp :: cmp and nkey pkey :: "mem \<Rightarrow> u64 \<Rightarrow> 'k :: linorder"
  assumes cmp_key: "cmp m n1 n2 = three_way (nkey m (nd_data m n1)) (pkey m (nd_data m n2))"
begin

lemma cmp_is_key:
  assumes "\<forall>(a, d) \<in> set xs. nd_data m a = d \<and> nkey m d = f d" "pkey m (nd_data m x) = k"
  shows "cmp_is cmp m x (\<lambda>a d. three_way (f d) k) xs"
  using assms three_way_values by (fastforce simp: cmp_is_def cmp_key)

lemma cmp_ok_key:
  assumes "sorted_by f xs"
  shows "cmp_ok (\<lambda>a d. three_way (f d) k) xs"
  unfolding cmp_ok_def
proof
  show "sorted_wrt (\<lambda>(a, d) (a', d'). three_way (f d) k = 1 \<or> three_way (f d') k = -1) xs"
    using assms unfolding sorted_by_def
    by (rule sorted_wrt_mono_rel [rotated]) (auto dest: order.strict_trans1 simp: not_less)
qed (use three_way_values in blast)

text \<open>A search returns the address of the node with the key sought, or null when there is none.\<close>

lemma find_key:
  assumes h: "holds m tr xs" and s: "sepl find_node (map fst xs)" "sorted_by f xs"
    and k: "\<forall>(a, d) \<in> set xs. nkey (find_mem m data) d = f d" "pkey (find_mem m data) data = k"
  shows "\<exists>p. avl_find m tr data cmp = Some p \<and>
    (p = 0 \<and> (\<forall>(a, d) \<in> set xs. f d \<noteq> k) \<or> (\<exists>d. (p, d) \<in> set xs \<and> f d = k \<and> p \<noteq> 0))"
proof -
  obtain t where t: "tree_in m tr t" "avl t" "inorder t = xs" using h by (rule holdsE)
  let ?c = "\<lambda>a d. three_way (f d) k"
  have fs: "sepl find_node (addrs t)" using s(1) t(3) by (auto simp: sepl_def set_addrs)
  then have "tree_at (find_mem m data) 0 t" using t(1) by (simp add: tree_in_def find_mem_def)
  then have "\<forall>(a, d) \<in> set xs. nd_data (find_mem m data) a = d" using t(3) tree_at_data by blast
  then have c: "cmp_is cmp (find_mem m data) find_node ?c (inorder t)"
    using k t(3) by (intro cmp_is_key) (auto simp: find_mem_def)
  obtain D u where l: "locate ?c t [] = (D, u)" by fastforce
  note lf = locate_finds [OF cmp_ok_key [of f "inorder t" k] l]
  have so: "sorted_by f (inorder t)" using s(2) t(3) by simp
  have r: "avl_find m tr data cmp = Some (root u)" by (rule avl_find_mem [OF t(1) fs l c])
  show ?thesis
  proof (cases u)
    case Lf
    then show ?thesis using r lf(1) [OF so] t(3) by fastforce
  next
    case (Nd l' a b d r')
    have "f d = k" using lf(2) [OF so Nd] by simp
    moreover have "(a, d) \<in> set xs"
      using locate_plug [OF l] inorder_plug [of D u] Nd t(3) by simp
    moreover have "a \<noteq> 0" using wfl_okp [OF holds_wfl [OF h], of a] \<open>(a, d) \<in> set xs\<close> by force
    ultimately show ?thesis using r Nd by auto
  qed
qed

end

text \<open>Insertion needs the same key for both nodes.\<close>

locale key_tree = key_order cmp key key
  for cmp :: cmp and key :: "mem \<Rightarrow> u64 \<Rightarrow> 'k :: linorder"
begin

lemma insert_key:
  assumes h: "holds m tr xs" and s: "sorted_by (key m) xs"
    and x: "okp x" "tr \<notin> foot x" "sepl x (map fst xs)"
    and k: "\<forall>(a, d) \<in> set xs. key (init_node m x data) d = key m d" "key (init_node m x data) data = key m data"
  shows "\<exists>m' r ys. avl_insert_node m tr x data cmp = Some (m', r) \<and> holds m' tr ys \<and>
    sorted_by (key m) ys \<and> frame_eq tr (x # map fst xs) m m' \<and>
    (if \<exists>(a, d) \<in> set xs. key m d = key m data then r = 1 \<and> ys = xs
     else r = 0 \<and> (\<exists>us vs. xs = us @ vs \<and> ys = us @ (x, data) # vs))"
proof -
  obtain t where t: "tree_in m tr t" "avl t" "inorder t = xs" using h by (rule holdsE)
  let ?c = "\<lambda>a d. three_way (key m d) (key m data)" and ?m = "init_node m x data"
  have sx: "sepl x (addrs t)" using x(3) t(3) by (auto simp: sepl_def set_addrs)
  then have "tree_at ?m 0 t" using t(1) by (simp add: tree_in_def)
  then have "\<forall>(a, d) \<in> set xs. nd_data ?m a = d" using t(3) tree_at_data by blast
  then have c: "cmp_is cmp ?m x ?c (inorder t)"
    using k t(3) by (intro cmp_is_key) auto
  have so: "cmp_ok ?c (inorder t)" using s t(3) cmp_ok_key by simp
  obtain D u where l: "locate ?c t [] = (D, u)" by fastforce
  have ex: "(\<exists>(a, d) \<in> set xs. key m d = key m data) \<longleftrightarrow> u \<noteq> Lf"
    using locate_finds(1) [OF so l] t(3) by simp
  have fr: "frame_eq tr (x # addrs t) = frame_eq tr (x # map fst xs)"
    using frame_map_fst [OF t(3), of tr "[x]"] by simp
  show ?thesis
  proof (cases "u = Lf")
    case False
    have "frame_eq tr (x # map fst xs) m ?m" by simp
    moreover have "holds ?m tr xs"
      using t x(2) sx by (auto simp: holds_def tree_in_def)
    ultimately show ?thesis
      using avl_insert_node_dup [OF t(1) x(1,2) sx c l False] ex False s by auto
  next
    case True
    then have new: "\<forall>(a, d) \<in> set (inorder t). ?c a d \<noteq> 0" using ex t(3) by auto
    from insert_new_mem [OF t(1,2) x(1,2) sx c so new] obtain m' t' us vs where
      m': "avl_insert_node m tr x data cmp = Some (m', 0)" "tree_in m' tr t'" "avl t'"
        "inorder t = us @ vs" "inorder t' = us @ (x, data) # vs"
        "\<forall>(a, d) \<in> set us. ?c a d = 1" "\<forall>(a, d) \<in> set vs. ?c a d = -1"
        "frame_eq tr (x # addrs t) m m'" by blast
    have "sorted_by (key m) (us @ (x, data) # vs)"
      using s t(3) m'(4,6,7) by fastforce
    moreover have "holds m' tr (us @ (x, data) # vs)" using m'(2,3,5) by (auto simp: holds_def)
    moreover have "\<not> (\<exists>(a, d) \<in> set xs. key m d = key m data)" using ex True by simp
    moreover have "frame_eq tr (x # map fst xs) m m'" "xs = us @ vs" using m'(4,8) t(3) fr by simp_all
    ultimately show ?thesis
      by (intro exI [of _ m'] exI [of _ 0] exI [of _ "us @ (x, data) # vs"]) (use m'(1) in auto)
  qed
qed

end

text \<open>The order of the words themselves.\<close>

interpretation basic: key_tree avl_basic_cmp "\<lambda>m d. d"
  by unfold_locales (simp add: avl_basic_cmp_def three_way_def)

end
