(* ===== verification/Avl_Alloc.thy ===== *)
theory Avl_Alloc
  imports Heap_Client Avl_Order
begin

text \<open>
  AVL trees whose nodes are blocks of the heap: \<open>avl_insert\<close> and \<open>avl_delete\<close>, which allocate and free
  the nodes. The sets of the interpreter and the collector's set are such trees.
\<close>

subsection \<open>Trees of live blocks\<close>

text \<open>
  The nodes of the tree with root cell \<open>tr\<close> are live blocks of at least five words, apart from the
  blocks \<open>L\<close> of the other clients; the root cell is a word of one of those or lies below the heap.
\<close>

definition node_blocks :: "(u64 \<times> u64) set \<Rightarrow> (u64 \<times> u64) list \<Rightarrow> bool" where
  "node_blocks N xs \<longleftrightarrow> fst ` N = set (map fst xs) \<and> (\<forall>(p, s) \<in> N. 5 \<le> unat s)"

definition nodes_ok :: "u64 \<Rightarrow> mem \<Rightarrow> (u64 \<times> u64) set \<Rightarrow> (u64 \<times> u64) set \<Rightarrow> u64 \<Rightarrow> (u64 \<times> u64) list \<Rightarrow> bool" where
  "nodes_ok h m N L tr xs \<longleftrightarrow> heap_inv h m (N \<union> L) \<and> fst ` N \<inter> fst ` L = {} \<and> node_blocks N xs \<and>
     tr \<in> below h \<union> area L"

definition alloc_tree :: "u64 \<Rightarrow> mem \<Rightarrow> u64 \<Rightarrow> (u64 \<times> u64) list \<Rightarrow> (u64 \<times> u64) set \<Rightarrow> bool" where
  "alloc_tree h m tr xs L \<longleftrightarrow> (\<exists>N. nodes_ok h m N L tr xs \<and> holds m tr xs)"

lemma nodes_okD:
  assumes "nodes_ok h m N L tr xs"
  shows "heap_inv h m (N \<union> L)" "fst ` N \<inter> fst ` L = {}" "node_blocks N xs" "tr \<in> below h \<union> area L"
  using assms unfolding nodes_ok_def by blast+

lemma nodes_ok_same:
  "nodes_ok h m N L tr xs \<Longrightarrow> set (map fst xs) = set (map fst ys) \<Longrightarrow> nodes_ok h m N L tr ys"
  unfolding nodes_ok_def node_blocks_def by (elim conjE, intro conjI) simp_all

text \<open>The words of the other clients, the root cell excepted, are as they were.\<close>

definition undisturbed :: "u64 \<Rightarrow> u64 \<Rightarrow> (u64 \<times> u64) set \<Rightarrow> mem \<Rightarrow> mem \<Rightarrow> bool" where
  "undisturbed h tr L m m' \<longleftrightarrow> (\<forall>x \<in> below h \<union> area L. x \<noteq> tr \<longrightarrow> m' x = m x)"

lemma undisturbed_refl [simp]: "undisturbed h tr L m m"
  by (simp add: undisturbed_def)

lemma undisturbed_trans:
  "undisturbed h tr L m m' \<Longrightarrow> undisturbed h tr L m' m'' \<Longrightarrow> undisturbed h tr L m m''"
  by (simp add: undisturbed_def)

lemma keeps_undisturbed: "keeps (below h) K m m' \<Longrightarrow> L \<subseteq> K \<Longrightarrow> undisturbed h tr L m m'"
  using area_mono [of L K] unfolding keeps_def undisturbed_def by (meson UnE UnI1 UnI2 subsetD)

lemma need_node: "need 4 = 5"
  by (simp add: need_def umds_sz_def min_alloc_sz_def)

lemma foot_payload:
  assumes "heap_inv h m K" "(p, s) \<in> K" "5 \<le> unat s"
  shows "foot p \<subseteq> payload p s" "okp p"
proof -
  note f = live_facts(3,4) [OF assms(1,2)]
  have "unat p + 64 < 2 ^ 64" using f(1) assms(3) pows by linarith
  note u = unat_add_lit(1-3) [OF this]
  show "foot p \<subseteq> payload p s" using u assms(3) by (auto simp: foot_def payload_def)
  obtain bs where bs: "heap_ok m h bs" "K = live bs" using assms(1) by (auto simp: heap_inv_def)
  have b: "(p - 8, s, True) \<in> set bs" using bs(2) assms(2) in_live by blast
  have "unat (p - 8) mod 8 = 0" by (rule heap_block(4) [OF heap_okD(1-3) [OF bs(1)] b])
  then have "unat p mod 8 = 0" using block_unat(1) [OF bs(1) b] by simp
  then have "al p" by (rule al_mod)
  moreover have "p \<noteq> 0" using f(2) by auto
  ultimately show "okp p" unfolding okp_def by blast
qed

lemma nodes_area:
  assumes "nodes_ok h m N L tr xs" "a \<in> set (map fst xs)"
  shows "foot a \<subseteq> area N"
proof -
  note n = nodes_okD [OF assms(1)]
  have "a \<in> fst ` N" using n(3) assms(2) unfolding node_blocks_def by simp
  then obtain s where s: "(a, s) \<in> N" by force
  with n(3) have "5 \<le> unat s" unfolding node_blocks_def by blast
  from foot_payload(1) [OF n(1) _ this] s show ?thesis by (auto simp: area_def)
qed

lemma nodes_apart:
  assumes "nodes_ok h m N L tr xs"
  shows "area N \<inter> (below h \<union> area L) = {}"
proof -
  note n = nodes_okD [OF assms]
  have "area N \<inter> area L = {}" by (rule heap.apart_areas [OF n(1,2)])
  moreover have "area (N \<union> L) \<inter> below h = {}" by (rule live_below [OF n(1)])
  ultimately show ?thesis by auto
qed

text \<open>What changes only nodes and the root cell keeps the heap and disturbs no other client.\<close>

lemma frame_step:
  assumes n: "nodes_ok h m N L tr xs" and f: "frame_eq tr ys m m'" and s: "set ys \<subseteq> set (map fst xs)"
  shows "nodes_ok h m' N L tr xs" "undisturbed h tr L m m'"
proof -
  note d = nodes_okD [OF n]
  have se: "same_except (insert tr (area N)) m m'"
    by (rule frame_same_except [OF f]) (use nodes_area [OF n] s in blast)+
  have "heap_inv h m' (N \<union> L)"
    by (rule heap.writes [OF d(1)]) (rule same_except_mono [OF se], use d(4) in auto)
  then show "nodes_ok h m' N L tr xs" using d unfolding nodes_ok_def by blast
  show "undisturbed h tr L m m'"
    unfolding undisturbed_def
  proof (intro ballI impI)
    fix x assume "x \<in> below h \<union> area L" "x \<noteq> tr"
    then have "x \<notin> insert tr (area N)" using nodes_apart [OF n] by blast
    then show "m' x = m x" using se unfolding same_except_def by blast
  qed
qed

text \<open>What the heap keeps is kept of the tree.\<close>

lemma holds_kept:
  assumes t: "holds m tr xs" and n: "nodes_ok h c N L tr xs" and k: "keeps (below h) (N \<union> L) m m'"
  shows "holds m' tr xs"
proof (rule holds_same [OF t, where A = "- (below h \<union> area (N \<union> L))"])
  have "foot a \<inter> - (below h \<union> area (N \<union> L)) = {}" if "(a, d) \<in> set xs" for a d
  proof -
    have "a \<in> set (map fst xs)" using that by force
    from nodes_area [OF n this] show ?thesis by auto
  qed
  then show "\<forall>(a, d) \<in> set xs. foot a \<inter> - (below h \<union> area (N \<union> L)) = {}" by blast
  show "tr \<notin> - (below h \<union> area (N \<union> L))" using nodes_okD(4) [OF n] by auto
  show "same_except (- (below h \<union> area (N \<union> L))) m m'"
    using k unfolding same_except_def keeps_def by blast
qed

text \<open>The other clients may write to their words, and to what lies below the heap.\<close>

lemma alloc_tree_write:
  assumes T: "alloc_tree h m tr xs L" and x: "x \<in> below h \<union> area L" "x \<noteq> tr"
  shows "alloc_tree h (m(x := v)) tr xs L"
proof -
  obtain N where n: "nodes_ok h m N L tr xs" and t: "holds m tr xs"
    using T unfolding alloc_tree_def by blast
  have "x \<in> below h \<union> area (N \<union> L)" using x(1) by auto
  from write_any [OF nodes_okD(1) [OF n] this] nodes_okD(2-4) [OF n]
  have n': "nodes_ok h (m(x := v)) N L tr xs" unfolding nodes_ok_def by blast
  have "holds (m(x := v)) tr xs"
  proof (rule holds_same [OF t, where A = "{x}"])
    have "x \<notin> foot a" if "(a, d) \<in> set xs" for a d
    proof -
      have "a \<in> set (map fst xs)" using that by force
      from nodes_area [OF n this] nodes_apart [OF n] x(1) show ?thesis by blast
    qed
    then show "\<forall>(a, d) \<in> set xs. foot a \<inter> {x} = {}" by blast
  qed (use x(2) in \<open>auto simp: same_except_def\<close>)
  with n' show ?thesis unfolding alloc_tree_def by blast
qed

text \<open>A new node is apart from the tree and its root cell.\<close>

lemma new_node:
  assumes n: "nodes_ok h m N L tr xs" and t: "holds m tr xs"
    and al: "alloc m h 4 = Some (m1, x)" "x \<noteq> 0"
  shows "\<exists>q. nodes_ok h m1 (insert (x, q) N) L tr ((x, d) # xs) \<and> holds m1 tr xs \<and>
    undisturbed h tr L m m1 \<and> x \<notin> fst ` (N \<union> L) \<and>
    okp x \<and> tr \<notin> foot x \<and> sepl x (map fst xs)"
proof -
  note d = nodes_okD [OF n]
  obtain q where q: "need 4 \<le> q" "x \<notin> fst ` (N \<union> L)" "heap_inv h m1 (insert (x, q) (N \<union> L))"
    "keeps (below h) (N \<union> L) m m1"
    using alloc_inv [OF d(1), of 4] al by auto
  have q5: "5 \<le> unat q" using q(1) need_node by (simp add: word_le_nat_alt)
  have k: "holds m1 tr xs" "undisturbed h tr L m m1"
    by (rule holds_kept [OF t n q(4)], rule keeps_undisturbed [OF q(4)], simp)
  note f = foot_payload [OF q(3) insertI1 q5]
  have n1: "nodes_ok h m1 (insert (x, q) N) L tr ((x, d) # xs)"
    unfolding nodes_ok_def
  proof (intro conjI)
    show "heap_inv h m1 (insert (x, q) N \<union> L)" using q(3) by simp
    show "fst ` insert (x, q) N \<inter> fst ` L = {}" using d(2) q(2) by auto
    show "node_blocks (insert (x, q) N) ((x, d) # xs)" using d(3) q5 by (simp add: node_blocks_def)
  qed (rule d(4))
  have "foot x \<subseteq> area (insert (x, q) N)" by (rule nodes_area [OF n1]) simp
  then have out: "tr \<notin> foot x" using nodes_apart [OF n1] d(4) by blast
  have "payload x q \<inter> area (N \<union> L) = {}" by (rule heap.apart_area [OF q(3,2)])
  then have "foot x \<inter> foot a = {}" if "a \<in> set (map fst xs)" for a
    using nodes_area [OF n that] f(1) by auto
  then have "sepl x (map fst xs)" unfolding sepl_def sep_def by blast
  with n1 k q(2) f(2) out show ?thesis by blast
qed

text \<open>A block that is no longer a node is freed.\<close>

lemma drop_node:
  assumes n: "nodes_ok h m (insert (x, q) N) L tr ys" and t: "holds m tr xs"
    and x: "x \<notin> fst ` N" "node_blocks N xs"
  shows "\<exists>m'. free m h x = Some m' \<and> nodes_ok h m' N L tr xs \<and> holds m' tr xs \<and> undisturbed h tr L m m'"
proof -
  note d = nodes_okD [OF n]
  have i: "heap_inv h m (insert (x, q) (N \<union> L))" using d(1) by simp
  have "x \<notin> fst ` (N \<union> L)" using x(1) d(2) by auto
  from free_inv [OF i this] obtain m' where m': "free m h x = Some m'" "heap_inv h m' (N \<union> L)"
    "keeps (below h) (N \<union> L) m m'" by blast
  have "fst ` N \<inter> fst ` L = {}" using d(2) by auto
  then have n': "nodes_ok h m' N L tr xs" using m'(2) x(2) d(4) unfolding nodes_ok_def by blast
  have "holds m' tr xs" by (rule holds_kept [OF t n' m'(3)])
  moreover have "undisturbed h tr L m m'" by (rule keeps_undisturbed [OF m'(3)]) simp
  ultimately show ?thesis using m'(1) n' by blast
qed

subsection \<open>Removing a node\<close>

text \<open>
  \<open>avl_delete_node\<close> returns the node that is to be freed, which is not always the one asked for: the data
  of another may have moved. The sequence of the data loses exactly the item of the node.
\<close>

lemma holds_delete:
  assumes "holds m tr (xs @ (a, d) # ys)"
  shows "\<exists>m' s zs. avl_delete_node m tr a = Some (m', s) \<and> holds m' tr zs \<and>
    map snd zs = map snd (xs @ ys) \<and> s \<in> set (map fst (xs @ (a, d) # ys)) \<and>
    set (map fst zs) = set (map fst (xs @ (a, d) # ys)) - {s} \<and>
    frame_eq tr (map fst (xs @ (a, d) # ys)) m m'"
proof -
  obtain t where t: "tree_in m tr t" "avl t" "inorder t = xs @ (a, d) # ys"
    using assms by (rule holdsE)
  obtain C l b r where p: "t = plug C (Nd l a b d r)" "xs = before C @ inorder l"
    "ys = inorder r @ after C" using tree_split [OF t(1,3)] by metis
  obtain t1 s where del: "del_at C (Nd l a b d r) = (t1, s)" by fastforce
  obtain m1 where m1: "avl_delete_node m tr a = Some (m1, s)" "tree_in m1 tr t1"
      "frame_eq tr (addrs t) m m1"
    using avl_delete_node_mem [of m tr C l a b d r] t(1,2) p(1) del by auto
  have "avl t1" using avl_del_at [of C l a b d r] t(2) p(1) del by simp
  with m1(2) have h: "holds m1 tr (inorder t1)" unfolding holds_def by blast
  have fr: "frame_eq tr (map fst (xs @ (a, d) # ys)) m m1"
    using m1(3) frame_map_fst [OF t(3), of tr "[]"] by simp
  have di: "distinct (map fst (xs @ (a, d) # ys))" using inorder_distinct [OF t(1)] t(3) by simp
  have "map snd (inorder t1) = map snd (xs @ ys) \<and> s \<in> set (map fst (xs @ (a, d) # ys)) \<and>
    set (map fst (inorder t1)) = set (map fst (xs @ (a, d) # ys)) - {s}"
    using inorder_del_at [OF t(2) [unfolded p(1)] del]
  proof (elim disjE exE conjE)
    assume "s = a" "inorder t1 = before C @ inorder l @ inorder r @ after C"
    then show ?thesis using di p(2,3) by auto
  next
    fix ds zs
    assume "inorder r = (s, ds) # zs" "inorder t1 = before C @ inorder l @ (a, ds) # zs @ after C"
    then show ?thesis using di p(2,3) by auto
  next
    fix ds
    assume "r = Lf" "inorder l = [(s, ds)]" "inorder t1 = before C @ (a, ds) # after C"
    then show ?thesis using di p(2,3) by auto
  qed
  with m1(1) h fr show ?thesis by blast
qed

lemma sorted_by_snd: "sorted_by f xs \<longleftrightarrow> sorted_wrt (\<lambda>d e. f d < f e) (map snd xs)"
  by (simp add: sorted_by_def sorted_wrt_map)

subsection \<open>Insertion and deletion\<close>

context key_tree
begin

text \<open>
  The keys must not depend on the root cell or on words of the heap that belong to no client:
  \<open>st\<close> says that they are the same in every memory that leaves the clients undisturbed.
\<close>

lemma insert_new_node:
  assumes n: "nodes_ok h m (insert (x, q) N) L tr ((x, data) # xs)" and t: "holds m tr xs"
    and s: "sorted_by (key m) xs" and x: "okp x" "tr \<notin> foot x" "sepl x (map fst xs)"
    and st: "\<And>m' d. undisturbed h tr L m m' \<Longrightarrow> d \<in> insert data (snd ` set xs) \<Longrightarrow> key m' d = key m d"
  shows "\<exists>m' r ys. avl_insert_node m tr x data cmp = Some (m', r) \<and> holds m' tr ys \<and>
    sorted_by (key m) ys \<and> nodes_ok h m' (insert (x, q) N) L tr ((x, data) # xs) \<and>
    undisturbed h tr L m m' \<and>
    (if key m data \<in> key m ` snd ` set xs then r = 1 \<and> ys = xs
     else r = 0 \<and> (\<exists>us vs. xs = us @ vs \<and> ys = us @ (x, data) # vs))"
proof -
  have "frame_eq tr (x # map fst xs) m (init_node m x data)" by simp
  note u = frame_step(2) [OF n this, simplified]
  have k: "\<forall>(a, d) \<in> set xs. key (init_node m x data) d = key m d"
    "key (init_node m x data) data = key m data"
  proof -
    show "\<forall>(a, d) \<in> set xs. key (init_node m x data) d = key m d"
    proof clarify
      fix a d assume "(a, d) \<in> set xs"
      then have "d \<in> insert data (snd ` set xs)" by force
      from st [OF u this] show "key (init_node m x data) d = key m d" .
    qed
    show "key (init_node m x data) data = key m data" by (rule st [OF u insertI1])
  qed
  have e: "(\<exists>(a, d) \<in> set xs. key m d = key m data) \<longleftrightarrow> key m data \<in> key m ` snd ` set xs"
    by (force simp: image_image)
  obtain m' r ys where i: "avl_insert_node m tr x data cmp = Some (m', r)" "holds m' tr ys"
    "sorted_by (key m) ys" "frame_eq tr (x # map fst xs) m m'"
    "if \<exists>(a, d) \<in> set xs. key m d = key m data then r = 1 \<and> ys = xs
     else r = 0 \<and> (\<exists>us vs. xs = us @ vs \<and> ys = us @ (x, data) # vs)"
    using insert_key [OF t s x k] by blast
  note fs = frame_step [OF n i(4), simplified]
  show ?thesis
    by (intro exI [of _ m'] exI [of _ r] exI [of _ ys] conjI) (fact i fs i(5) [unfolded e])+
qed

text \<open>
  \<open>avl_insert\<close> puts a new node at its place in the order, or frees the node it allocated when the key
  is there already, or fails without any change when the heap has no room.
\<close>

lemma avl_insert_tree:
  assumes T: "alloc_tree h m tr xs L" and s: "sorted_by (key m) xs"
    and k: "\<forall>m'. undisturbed h tr L m m' \<longrightarrow> (\<forall>d \<in> insert data (snd ` set xs). key m' d = key m d)"
  shows "\<exists>m' r ys. avl_insert m h tr data cmp = Some (m', r) \<and> alloc_tree h m' tr ys L \<and>
    sorted_by (key m') ys \<and> undisturbed h tr L m m' \<and>
    (r = 1 \<and> ys = xs \<and> (key m data \<in> key m ` snd ` set xs \<or> alloc m h 4 = Some (m, 0)) \<or> r = 0 \<and> key m data \<notin> key m ` snd ` set xs \<and>
       (\<exists>x us vs. xs = us @ vs \<and> ys = us @ (x, data) # vs))"
proof -
  have st: "key m' d = key m d" if "undisturbed h tr L m m'" "d \<in> insert data (snd ` set xs)" for m' d
    using k that by blast
  obtain N where n: "nodes_ok h m N L tr xs" and t: "holds m tr xs"
    using T unfolding alloc_tree_def by blast
  obtain m1 x where al: "alloc m h 4 = Some (m1, x)" and none: "x = 0 \<Longrightarrow> m1 = m"
    using alloc_inv [OF nodes_okD(1) [OF n], of 4] by blast
  have sorted: "sorted_by (key m') ys" if "undisturbed h tr L m m'" "sorted_by (key m) ys"
      "snd ` set ys \<subseteq> insert data (snd ` set xs)" for m' ys
    using that(2) sorted_by_cong [of ys "key m'" "key m"] st [OF that(1)] that(3) by blast
  show ?thesis
  proof (cases "x = 0")
    case True
    then have "avl_insert m h tr data cmp = Some (m, 1)" using al none by (simp add: avl_insert_def)
    moreover have "alloc m h 4 = Some (m, 0)" using al none True by simp
    ultimately show ?thesis using T s by fastforce
  next
    case x0: False
    obtain q where q: "nodes_ok h m1 (insert (x, q) N) L tr ((x, data) # xs)" "holds m1 tr xs"
      "undisturbed h tr L m m1" "x \<notin> fst ` (N \<union> L)" "okp x" "tr \<notin> foot x" "sepl x (map fst xs)"
      using new_node [OF n t al x0] by blast
    have st1: "key m' d = key m1 d"
      if "undisturbed h tr L m1 m'" "d \<in> insert data (snd ` set xs)" for m' d
      using st [OF undisturbed_trans [OF q(3) that(1)] that(2)] st [OF q(3) that(2)] by simp
    have k1: "key m1 ` snd ` set xs = key m ` snd ` set xs" "key m1 data = key m data"
      using st [OF q(3)] by (simp_all cong: image_cong)
    obtain m2 r ys where i: "avl_insert_node m1 tr x data cmp = Some (m2, r)" "holds m2 tr ys"
      "sorted_by (key m1) ys" "nodes_ok h m2 (insert (x, q) N) L tr ((x, data) # xs)"
      "undisturbed h tr L m1 m2"
      "if key m data \<in> key m ` snd ` set xs then r = 1 \<and> ys = xs
       else r = 0 \<and> (\<exists>us vs. xs = us @ vs \<and> ys = us @ (x, data) # vs)"
      using insert_new_node [OF q(1,2) sorted [OF q(3) s] q(5-7) st1] unfolding k1 by blast
    note u2 = undisturbed_trans [OF q(3) i(5)]
    show ?thesis
    proof (cases "key m data \<in> key m ` snd ` set xs")
      case True
      then have r: "r = 1" "ys = xs" using i(6) by simp_all
      obtain m3 where m3: "free m2 h x = Some m3" "nodes_ok h m3 N L tr xs" "holds m3 tr xs"
        "undisturbed h tr L m2 m3"
        using drop_node [OF i(4) i(2) [unfolded r(2)]] q(4) nodes_okD(3) [OF n] by auto
      note u3 = undisturbed_trans [OF u2 m3(4)]
      have "alloc_tree h m3 tr xs L" unfolding alloc_tree_def using m3(2,3) by blast
      moreover have "sorted_by (key m3) xs" by (rule sorted [OF u3 s]) blast
      moreover have "avl_insert m h tr data cmp = Some (m3, 1)"
        using al x0 i(1) r(1) m3(1) by (simp add: avl_insert_def)
      ultimately show ?thesis using u3 True by blast
    next
      case False
      then obtain us vs where r: "r = 0" "xs = us @ vs" "ys = us @ (x, data) # vs" using i(6) by auto
      have "nodes_ok h m2 (insert (x, q) N) L tr ys"
        by (rule nodes_ok_same [OF i(4)]) (use r in auto)
      then have "alloc_tree h m2 tr ys L" unfolding alloc_tree_def using i(2) by blast
      moreover have "sorted_by (key m) ys"
        using i(3) sorted_by_cong [of ys "key m" "key m1"] st [OF q(3)] r by auto
      then have "sorted_by (key m2) ys" by (rule sorted [OF u2]) (use r in auto)
      moreover have "avl_insert m h tr data cmp = Some (m2, 0)"
        using al x0 i(1) r(1) by (simp add: avl_insert_def)
      ultimately show ?thesis using u2 False r by blast
    qed
  qed
qed

end

text \<open>Removal of a node that was found: both callers take it out of the tree and free what is left over.\<close>

lemma delete_found:
  assumes T: "alloc_tree h m tr xs L" and d: "xs = us @ (p, d) # vs"
  shows "\<exists>m1 x m2 zs. avl_delete_node m tr p = Some (m1, x) \<and> x \<noteq> 0 \<and> free m1 h x = Some m2 \<and>
    alloc_tree h m2 tr zs L \<and> map snd zs = map snd (us @ vs) \<and> undisturbed h tr L m m2"
proof -
  obtain N where n: "nodes_ok h m N L tr xs" and t: "holds m tr xs"
    using T unfolding alloc_tree_def by blast
  obtain m1 x zs where m1: "avl_delete_node m tr p = Some (m1, x)" "holds m1 tr zs"
    "map snd zs = map snd (us @ vs)" "x \<in> set (map fst xs)" "set (map fst zs) = set (map fst xs) - {x}"
    "frame_eq tr (map fst xs) m m1"
    using holds_delete [OF t [unfolded d]] unfolding d [symmetric] by blast
  note n1 = frame_step [OF n m1(6) order.refl]
  note i1 = nodes_okD [OF n1(1)]
  have fN: "fst ` N = set (map fst xs)" "\<forall>(p, s) \<in> N. 5 \<le> unat s"
    using i1(3) unfolding node_blocks_def by blast+
  have "x \<in> fst ` N" using m1(4) fN(1) by simp
  then obtain q where "(x, q) \<in> N" by force
  then obtain K where K: "N = insert (x, q) K" "(x, q) \<notin> K" using mk_disjoint_insert by metis
  have x: "x \<notin> fst ` K"
  proof
    assume "x \<in> fst ` K"
    then obtain k where "(x, k) \<in> K" "k \<noteq> q" using K(2) by force
    then show False using heap.one_size [OF i1(1), of x q k] K(1) by blast
  qed
  then have "fst ` K = fst ` N - {x}" using K(1) by auto
  then have "fst ` K = set (map fst zs)" using fN(1) m1(5) by simp
  then have "node_blocks K zs" using fN(2) K(1) unfolding node_blocks_def by blast
  from drop_node [OF n1(1) [unfolded K(1)] m1(2) x this] obtain m2 where m2: "free m1 h x = Some m2"
    "nodes_ok h m2 K L tr zs" "holds m2 tr zs" "undisturbed h tr L m1 m2" by blast
  have "x \<noteq> 0" using wfl_okp [OF holds_wfl [OF t] m1(4)] by simp
  moreover have "alloc_tree h m2 tr zs L" unfolding alloc_tree_def using m2(2,3) by blast
  moreover have "undisturbed h tr L m m2" by (rule undisturbed_trans [OF n1(2) m2(4)])
  ultimately show ?thesis using m1(1,3) m2(1) by blast
qed

context key_order
begin

text \<open>A search on a tree of heap blocks; the node of the search stands below the heap.\<close>

lemma find_tree:
  assumes T: "alloc_tree h m tr xs L" and s: "sorted_by f xs" and fn: "foot find_node \<subseteq> below h"
    and k: "\<forall>(a, d) \<in> set xs. nkey (find_mem m data) d = f d" "pkey (find_mem m data) data = k"
  shows "\<exists>p. avl_find m tr data cmp = Some p \<and>
    (p = 0 \<and> k \<notin> f ` snd ` set xs \<or> p \<noteq> 0 \<and> (\<exists>us d vs. xs = us @ (p, d) # vs \<and> f d = k))"
proof -
  obtain N where n: "nodes_ok h m N L tr xs" and t: "holds m tr xs"
    using T unfolding alloc_tree_def by blast
  have "sep find_node a" if "a \<in> set (map fst xs)" for a
    using nodes_area [OF n that] nodes_apart [OF n] fn unfolding sep_def by blast
  then have fs: "sepl find_node (map fst xs)" by (simp add: sepl_def)
  from find_key [OF t fs s k] obtain p where p: "avl_find m tr data cmp = Some p"
    "p = 0 \<and> (\<forall>(a, d) \<in> set xs. f d \<noteq> k) \<or> (\<exists>d. (p, d) \<in> set xs \<and> f d = k \<and> p \<noteq> 0)" by blast
  show ?thesis
  proof (cases "p = 0")
    case True
    then have "k \<notin> f ` snd ` set xs" using p(2) by auto
    then show ?thesis using p(1) True by blast
  next
    case False
    then show ?thesis using p by (metis split_list)
  qed
qed

text \<open>
  \<open>avl_delete\<close> removes the item with the key sought and frees one node, or fails without any change
  when no item has this key.
\<close>

lemma avl_delete_tree:
  assumes T: "alloc_tree h m tr xs L" and s: "sorted_by f xs" and fn: "foot find_node \<subseteq> below h"
    and k: "\<forall>(a, d) \<in> set xs. nkey (find_mem m data) d = f d" "pkey (find_mem m data) data = k"
  shows "\<exists>m' r ys. avl_delete m h tr data cmp = Some (m', r) \<and> alloc_tree h m' tr ys L \<and>
    sorted_by f ys \<and> undisturbed h tr L m m' \<and>
    (r = 1 \<and> m' = m \<and> ys = xs \<and> k \<notin> f ` snd ` set xs \<or>
     r = 0 \<and> (\<exists>us d vs. map snd xs = us @ d # vs \<and> f d = k \<and> map snd ys = us @ vs))"
proof -
  obtain p where p: "avl_find m tr data cmp = Some p"
    "p = 0 \<and> k \<notin> f ` snd ` set xs \<or> p \<noteq> 0 \<and> (\<exists>us d vs. xs = us @ (p, d) # vs \<and> f d = k)"
    using find_tree [OF assms] by blast
  show ?thesis
  proof (cases "p = 0")
    case True
    then have "avl_delete m h tr data cmp = Some (m, 1)" using p(1) by (simp add: avl_delete_def)
    then show ?thesis using T s p(2) True by fastforce
  next
    case False
    then obtain us d vs where d: "xs = us @ (p, d) # vs" "f d = k" using p(2) by blast
    obtain m1 x m2 zs where z: "avl_delete_node m tr p = Some (m1, x)" "x \<noteq> 0" "free m1 h x = Some m2"
      "alloc_tree h m2 tr zs L" "map snd zs = map snd (us @ vs)" "undisturbed h tr L m m2"
      using delete_found [OF T d(1)] by blast
    have "avl_delete m h tr data cmp = Some (m2, 0)" using p(1) False z(1-3) by (simp add: avl_delete_def)
    moreover have "sorted_by f zs" using s z(5) d(1) by (auto simp: sorted_by_snd sorted_wrt_append)
    moreover have "map snd xs = map snd us @ d # map snd vs" "map snd zs = map snd us @ map snd vs"
      using d(1) z(5) by simp_all
    ultimately show ?thesis using z(4,6) d(2) by blast
  qed
qed

end

end
