(* ===== verification/Obj_Set.thy ===== *)
theory Obj_Set
  imports Avl_Alloc Objects "HOL-Library.List_Lexorder" "HOL-Library.Product_Lexorder"
begin

text \<open>
  Sets of objects: the order \<open>obj_cmp\<close> puts on objects, the interpretation of the ordered trees for the
  three comparison functions of the sets, and what \<open>set_add\<close>, \<open>in_set\<close> and \<open>set_get_value\<close> rely on.
\<close>

subsection \<open>The order of objects\<close>

text \<open>The words in use of an object, and the key by which it is compared: their number comes first.\<close>

definition obj_words :: "mem \<Rightarrow> u64 \<Rightarrow> u64 list" where
  "obj_words m p = map (\<lambda>i. m (contents p (of_nat i))) [0..<unat (m (osize p))]"

definition obj_key :: "mem \<Rightarrow> u64 \<Rightarrow> u64 \<times> u64 list" where
  "obj_key m p = (m (osize p), obj_words m p)"

lemma obj_key_eq: "obj_key m p = obj_key m' q \<longleftrightarrow> obj_words m p = obj_words m' q"
proof
  assume "obj_words m p = obj_words m' q"
  then have "length (obj_words m p) = length (obj_words m' q)" by simp
  then have "m (osize p) = m' (osize q)" by (simp add: obj_words_def word_unat_eq_iff)
  with \<open>obj_words m p = obj_words m' q\<close> show "obj_key m p = obj_key m' q" by (simp add: obj_key_def)
qed (simp add: obj_key_def)

lemma three_way_Cons:
  "three_way (x # xs) (y # ys :: u64 list) = (if x < y then 1 else if y < x then -1 else three_way xs ys)"
  by (auto simp: three_way_def)

lemma three_way_Pair:
  "three_way (x, xs) (y :: u64, ys :: u64 list) = (if x < y then 1 else if y < x then -1 else three_way xs ys)"
  by (auto simp: three_way_def)

lemma obj_cmp_from_words:
  assumes "m (osize p1) = m (osize p2)"
  shows "unat i \<le> unat (m (osize p1)) \<Longrightarrow>
    obj_cmp_from m p1 p2 i = three_way (drop (unat i) (obj_words m p1)) (drop (unat i) (obj_words m p2))"
proof (induction "unat (m (osize p1)) - unat i" arbitrary: i)
  case 0
  then have "unat i = unat (m (osize p1))" by simp
  then show ?case using assms
    by (subst obj_cmp_from.simps) (simp add: obj_words_def three_way_def word_less_nat_alt)
next
  case (Suc k)
  then have lt: "unat i < unat (m (osize p1))" by simp
  then have i: "i < m (osize p1)" by (simp add: word_less_nat_alt)
  have d: "drop (unat i) (obj_words m p) = m (contents p i) # drop (unat (i + 1)) (obj_words m p)"
    if "m (osize p) = m (osize p1)" for p
    using that lt by (subst Cons_nth_drop_Suc [symmetric]) (simp_all add: obj_words_def unat_suc [OF i])
  have ih: "obj_cmp_from m p1 p2 (i + 1) =
      three_way (drop (unat (i + 1)) (obj_words m p1)) (drop (unat (i + 1)) (obj_words m p2))"
    using Suc.hyps(2) lt by (intro Suc.hyps(1)) (simp_all add: unat_suc [OF i])
  show ?case
    unfolding d [OF refl] d [OF assms [symmetric]] three_way_Cons using i ih
    by (subst obj_cmp_from.simps) simp
qed

lemma obj_cmp_key: "obj_cmp m p1 p2 = three_way (obj_key m p1) (obj_key m p2)"
  using obj_cmp_from_words [of m p1 p2 0]
  by (auto simp: obj_cmp_def obj_key_def three_way_Pair not_less antisym_conv3)

lemma obj_cmp_zero: "obj_cmp m p1 p2 = 0 \<longleftrightarrow> obj_words m p1 = obj_words m p2"
  by (simp add: obj_cmp_key obj_key_eq)

text \<open>The three comparison functions of the sets.\<close>

interpretation objects: key_tree set_cmp obj_key
  by unfold_locales (simp add: set_cmp_def obj_cmp_key)

interpretation pairs: key_tree set_keycmp "\<lambda>m p. obj_key m (m (contents p 0))"
  by unfold_locales (simp add: set_keycmp_def obj_cmp_key)

interpretation lookup: key_order set_keyfind_cmp "\<lambda>m p. obj_key m (m (contents p 0))" obj_key
  by unfold_locales (simp add: set_keyfind_cmp_def obj_cmp_key)

subsection \<open>Objects as clients of the heap\<close>

text \<open>An object is a live block that is large enough for its words in use.\<close>

definition is_obj :: "mem \<Rightarrow> (u64 \<times> u64) set \<Rightarrow> u64 \<Rightarrow> bool" where
  "is_obj m L p \<longleftrightarrow> (\<exists>s. (p + 8, s) \<in> L \<and> unat (m (osize p)) + 4 \<le> unat s)"

text \<open>The words the key of an object depends on.\<close>

definition key_cells :: "mem \<Rightarrow> u64 \<Rightarrow> u64 set" where
  "key_cells m p = insert (osize p) ((\<lambda>i. contents p (of_nat i)) ` {..<unat (m (osize p))})"

lemma obj_key_same:
  assumes "\<forall>x \<in> key_cells m p. m' x = m x"
  shows "obj_key m' p = obj_key m p"
  using assms by (auto simp: obj_key_def obj_words_def key_cells_def)

lemma is_obj_cells:
  assumes i: "heap_inv h m L" and s: "(p + 8, s) \<in> L" "unat (m (osize p)) + 4 \<le> unat s"
  shows "key_cells m p \<subseteq> payload (p + 8) s" "refcount p \<in> payload (p + 8) s" "refcount p \<notin> key_cells m p"
    "unat j < unat (m (osize p)) \<Longrightarrow> contents p j \<in> payload (p + 8) s"
proof -
  note f = live_facts(2,3) [OF i s(1)]
  have w: "unat (p + 8 + 8 * j) = unat (p + 8) + 8 * unat j" "p + 8 + 8 * j \<in> payload (p + 8) s"
    if "unat j + 1 < unat s" for j using in_payload [OF f(2) that] by blast+
  have o: "osize p = p + 8 + 8 * 2" "refcount p = p + 8 + 8 * 0" by (simp_all add: osize_def refcount_def)
  have c: "contents p j = p + 8 + 8 * (3 + j)" for j by (simp add: contents_def algebra_simps)
  have uj: "unat (3 + j) = 3 + unat j" if "unat j < unat (m (osize p))" for j :: u64
  proof -
    have "3 + unat j < 2 ^ 64" using that s(2) unat_less_2p64 [of s] by linarith
    then show ?thesis by (simp add: unat_word_ariths)
  qed
  show cj: "contents p j \<in> payload (p + 8) s" if "unat j < unat (m (osize p))" for j
    unfolding c by (rule w(2)) (use that uj [OF that] s(2) in linarith)
  show "refcount p \<in> payload (p + 8) s" unfolding o by (rule w(2)) (use f(1) in simp)
  have os: "osize p \<in> payload (p + 8) s" unfolding o by (rule w(2)) (use f(1) in simp)
  have nat: "unat (of_nat k :: u64) < unat (m (osize p))" if "k < unat (m (osize p))" for k
    using that unat_less_2p64 [of "m (osize p)"] by (simp add: unat_of_nat take_bit_nat_eq_self)
  show "key_cells m p \<subseteq> payload (p + 8) s" unfolding key_cells_def using os cj nat by blast
  have "refcount p \<noteq> contents p j" if "unat j < unat (m (osize p))" for j
  proof
    assume e: "refcount p = contents p j"
    have "unat (3 + j) + 1 < unat s" using uj [OF that] that s(2) by linarith
    from w(1) [OF this] have "unat (refcount p) = unat (p + 8) + 8 * unat (3 + j)" unfolding e c by simp
    then show False using uj [OF that] by (simp add: refcount_def)
  qed
  moreover have "refcount p \<noteq> osize p" by (simp add: refcount_def osize_def)
  ultimately show "refcount p \<notin> key_cells m p" unfolding key_cells_def using nat by blast
qed

text \<open>Words that no part of an object's key lies on may change.\<close>

lemma is_obj_mono: "is_obj m L d \<Longrightarrow> L \<subseteq> K \<Longrightarrow> is_obj m K d"
  unfolding is_obj_def by blast

lemma is_objE:
  assumes "is_obj m L p"
  obtains s where "(p + 8, s) \<in> L" "unat (m (osize p)) + 4 \<le> unat s"
  using assms unfolding is_obj_def by blast

lemma obj_cells_apart:
  assumes i: "heap_inv h m L" and s: "is_obj m L s" "m (osize s) \<noteq> 0" and d: "is_obj m L d" "d \<noteq> s"
  shows "contents s 0 \<notin> key_cells m d" "contents s 0 \<noteq> refcount d" "contents s 0 \<in> area L"
proof -
  obtain k where k: "(s + 8, k) \<in> L" "unat (m (osize s)) + 4 \<le> unat k" using s(1) by (rule is_objE)
  obtain q where q: "(d + 8, q) \<in> L" "unat (m (osize d)) + 4 \<le> unat q" using d(1) by (rule is_objE)
  have "unat (0 :: u64) < unat (m (osize s))" using s(2) by (simp add: unat_gt_0)
  note c = is_obj_cells(4) [OF i k this]
  have "s + 8 \<noteq> d + 8" using d(2) by simp
  from live_apart [OF i k(1) q(1) this] c is_obj_cells(1,2) [OF i q]
  show "contents s 0 \<notin> key_cells m d" "contents s 0 \<noteq> refcount d" by auto
  show "contents s 0 \<in> area L" using c k(1) by (auto simp: area_def)
qed

lemma key_cells_area:
  assumes "heap_inv h m K" "L \<subseteq> K" "is_obj m L d"
  shows "key_cells m d \<subseteq> area L" "refcount d \<in> area L"
proof -
  obtain q where q: "(d + 8, q) \<in> L" "unat (m (osize d)) + 4 \<le> unat q" using assms(3) by (rule is_objE)
  then have "(d + 8, q) \<in> K" using assms(2) by blast
  from is_obj_cells(1,2) [OF assms(1) this q(2)] q(1)
  show "key_cells m d \<subseteq> area L" "refcount d \<in> area L" by (auto simp: area_def)
qed

lemma key_cells_apart:
  assumes i: "heap_inv h m L" and o: "is_obj m L p" "is_obj m L d" "d \<noteq> p"
  shows "key_cells m p \<inter> key_cells m d = {}"
proof -
  obtain k where k: "(p + 8, k) \<in> L" "unat (m (osize p)) + 4 \<le> unat k" using o(1) by (rule is_objE)
  obtain q where q: "(d + 8, q) \<in> L" "unat (m (osize d)) + 4 \<le> unat q" using o(2) by (rule is_objE)
  have "p + 8 \<noteq> d + 8" using o(3) by simp
  from live_apart [OF i k(1) q(1) this] is_obj_cells(1) [OF i k] is_obj_cells(1) [OF i q] show ?thesis by blast
qed

subsection \<open>Sets\<close>

text \<open>
  The object \<open>s\<close> is a set with the elements \<open>ds\<close>, in the order of their keys: its first word is
  the root cell of a tree of heap blocks whose data are distinct objects.
\<close>

definition set_of :: "u64 \<Rightarrow> mem \<Rightarrow> (u64 \<times> u64) set \<Rightarrow> u64 \<Rightarrow> u64 list \<Rightarrow> bool" where
  "set_of h m L s ds \<longleftrightarrow> (\<exists>xs. alloc_tree h m (contents s 0) xs L \<and> map snd xs = ds \<and>
     sorted_wrt (\<lambda>d e. obj_key m d < obj_key m e) ds \<and>
     is_obj m L s \<and> m (osize s) \<noteq> 0 \<and> (\<forall>d \<in> set ds. is_obj m L d \<and> d \<noteq> s))"

lemma set_ofE:
  assumes "set_of h m L s ds"
  obtains xs K where "alloc_tree h m (contents s 0) xs L" "map snd xs = ds" "sorted_by (obj_key m) xs"
    "is_obj m L s" "m (osize s) \<noteq> 0" "\<forall>d \<in> set ds. is_obj m L d \<and> d \<noteq> s" "heap_inv h m K" "L \<subseteq> K"
proof -
  obtain xs where xs: "alloc_tree h m (contents s 0) xs L" "map snd xs = ds"
    "sorted_wrt (\<lambda>d e. obj_key m d < obj_key m e) ds"
    "is_obj m L s" "m (osize s) \<noteq> 0" "\<forall>d \<in> set ds. is_obj m L d \<and> d \<noteq> s"
    using assms unfolding set_of_def by blast
  have "sorted_by (obj_key m) xs" using xs(2,3) by (simp add: sorted_by_snd)
  moreover obtain N where "heap_inv h m (N \<union> L)" using xs(1) nodes_okD(1) unfolding alloc_tree_def by blast
  ultimately show thesis using that xs(1,2,4-6) by blast
qed

lemma set_ofI:
  assumes "alloc_tree h m (contents s 0) xs L" "sorted_by (obj_key m) xs" "is_obj m L s" "m (osize s) \<noteq> 0"
    "\<forall>d \<in> snd ` set xs. is_obj m L d \<and> d \<noteq> s"
  shows "set_of h m L s (map snd xs)"
  unfolding set_of_def using assms by (intro exI [of _ xs]) (simp add: sorted_by_snd)

text \<open>An operation of a set on memory: words of the other clients are as they were.\<close>

lemma undisturbedD: "undisturbed h tr L m m' \<Longrightarrow> x \<in> area L \<Longrightarrow> x \<noteq> tr \<Longrightarrow> m' x = m x"
  unfolding undisturbed_def by blast

lemma obj_undisturbed:
  assumes i: "heap_inv h m K" "L \<subseteq> K" and s: "is_obj m L s" "m (osize s) \<noteq> 0" and d: "is_obj m L d" "d \<noteq> s"
    and u: "undisturbed h (contents s 0) L m m'"
  shows "obj_key m' d = obj_key m d" "is_obj m' L d" "m' (refcount d) = m (refcount d)"
proof -
  note K = is_obj_mono [OF s(1) i(2)] is_obj_mono [OF d(1) i(2)]
  note a = obj_cells_apart(1,2) [OF i(1) K(1) s(2) K(2) d(2)] and k = key_cells_area [OF i d(1)]
  have e: "m' x = m x" if "x \<in> key_cells m d" for x
  proof (rule undisturbedD [OF u])
    show "x \<in> area L" by (rule subsetD [OF k(1) that])
    show "x \<noteq> contents s 0" using a(1) that by auto
  qed
  then show "obj_key m' d = obj_key m d" by (intro obj_key_same) simp
  have "m' (osize d) = m (osize d)" by (rule e) (simp add: key_cells_def)
  then show "is_obj m' L d" using d(1) by (simp add: is_obj_def)
  show "m' (refcount d) = m (refcount d)" by (rule undisturbedD [OF u k(2)]) (use a(2) in simp)
qed

lemma set_undisturbed:
  assumes i: "heap_inv h m K" "L \<subseteq> K" and s: "is_obj m L s" and u: "undisturbed h (contents s 0) L m m'"
  shows "is_obj m' L s" "m' (osize s) = m (osize s)"
proof -
  have "osize s \<in> area L" using key_cells_area(1) [OF i s] unfolding key_cells_def by blast
  moreover have "osize s \<noteq> contents s 0" by (simp add: osize_def contents_def)
  ultimately show e: "m' (osize s) = m (osize s)" using u unfolding undisturbed_def by simp
  then show "is_obj m' L s" using s by (simp add: is_obj_def)
qed

text \<open>A tree of the set after an operation that disturbed no other client is a set again.\<close>

lemma set_of_after:
  assumes i: "heap_inv h m K" "L \<subseteq> K" and s: "is_obj m L s" "m (osize s) \<noteq> 0"
    and u: "undisturbed h (contents s 0) L m m'"
    and t: "alloc_tree h m' (contents s 0) ys L" "sorted_by (obj_key m') ys"
    and d: "\<forall>d \<in> snd ` set ys. is_obj m L d \<and> d \<noteq> s"
  shows "set_of h m' L s (map snd ys)"
proof (rule set_ofI [OF t])
  show "is_obj m' L s" "m' (osize s) \<noteq> 0" using set_undisturbed [OF i s(1) u] s(2) by simp_all
  show "\<forall>d \<in> snd ` set ys. is_obj m' L d \<and> d \<noteq> s"
    using obj_undisturbed(2) [OF i s _ _ u] d by blast
qed

text \<open>A search reads the same keys, although it writes its node.\<close>

lemma find_mem_below: "foot find_node \<subseteq> below h \<Longrightarrow> x \<notin> below h \<Longrightarrow> find_mem m data x = m x"
  by (auto simp: find_mem_def foot_def set_nd_prev_def set_nd_left_def set_nd_right_def set_nd_data_def)

lemma find_mem_key:
  assumes i: "heap_inv h m K" "L \<subseteq> K" and d: "is_obj m L d" and f: "foot find_node \<subseteq> below h"
  shows "obj_key (find_mem m data) d = obj_key m d"
proof (rule obj_key_same, rule ballI)
  fix x assume "x \<in> key_cells m d"
  then have "x \<in> area K" using key_cells_area(1) [OF i d] area_mono [OF i(2)] by blast
  then have "x \<notin> below h" using live_below [OF i(1)] by blast
  then show "find_mem m data x = m x" by (rule find_mem_below [OF f])
qed

subsection \<open>The operations of sets\<close>

text \<open>The count of references to an object is no part of a key.\<close>

lemma refcount_no_key:
  assumes i: "heap_inv h m K" and d: "is_obj m K d" and e: "is_obj m K e"
  shows "refcount d \<notin> key_cells m e"
proof -
  obtain q where q: "(e + 8, q) \<in> K" "unat (m (osize e)) + 4 \<le> unat q" using e by (rule is_objE)
  obtain k where k: "(d + 8, k) \<in> K" "unat (m (osize d)) + 4 \<le> unat k" using d by (rule is_objE)
  show ?thesis
  proof (cases "e = d")
    case True
    then show ?thesis using is_obj_cells(3) [OF i k] by simp
  next
    case False
    then have "e + 8 \<noteq> d + 8" by simp
    from live_apart [OF i q(1) k(1) this] is_obj_cells(1) [OF i q] is_obj_cells(2) [OF i k]
    show ?thesis by blast
  qed
qed

lemma refcount_write:
  assumes i: "heap_inv h m K" and d: "is_obj m K d" and e: "is_obj m K e"
  shows "obj_key (m(refcount d := v)) e = obj_key m e" "(m(refcount d := v)) (osize e) = m (osize e)"
proof -
  have "refcount d \<notin> key_cells m e" by (rule refcount_no_key [OF assms])
  then have e: "\<forall>x \<in> key_cells m e. (m(refcount d := v)) x = m x" by auto
  then show "obj_key (m(refcount d := v)) e = obj_key m e" by (rule obj_key_same)
  show "(m(refcount d := v)) (osize e) = m (osize e)" by (rule bspec [OF e]) (simp add: key_cells_def)
qed

text \<open>Counting a reference to an object leaves a set and all keys as they are.\<close>

lemma set_of_refcount:
  assumes S: "set_of h m L s ds" and d: "is_obj m L d" "d \<noteq> s"
  shows "set_of h (m(refcount d := v)) L s ds"
proof -
  let ?m = "m(refcount d := v)"
  obtain xs K where xs: "alloc_tree h m (contents s 0) xs L" "map snd xs = ds" "sorted_by (obj_key m) xs"
    "is_obj m L s" "m (osize s) \<noteq> 0" "\<forall>d \<in> set ds. is_obj m L d \<and> d \<noteq> s" "heap_inv h m K" "L \<subseteq> K"
    using S by (rule set_ofE)
  note mono = is_obj_mono [OF _ xs(8)]
  have ds: "\<forall>d \<in> snd ` set xs. is_obj m L d \<and> d \<noteq> s" using xs(6) unfolding xs(2) [symmetric] by simp
  note w = refcount_write [OF xs(7) mono [OF d(1)] mono]
  have o: "is_obj ?m L e" if "is_obj m L e" for e
    using that w(2) [OF that, of v] by (simp add: is_obj_def)
  have "set_of h ?m L s (map snd xs)"
  proof (rule set_ofI)
    show "alloc_tree h ?m (contents s 0) xs L"
      using key_cells_area(2) [OF xs(7,8) d(1)]
        obj_cells_apart(2) [OF xs(7) mono [OF xs(4)] xs(5) mono [OF d(1)] d(2)]
      by (intro alloc_tree_write [OF xs(1)]) auto
    have "obj_key ?m (snd p) = obj_key m (snd p)" if "p \<in> set xs" for p
      using that ds by (intro w(1)) blast
    then show "sorted_by (obj_key ?m) xs" using xs(3) sorted_by_cong [of xs "obj_key ?m" "obj_key m"] by blast
    show "is_obj ?m L s" by (rule o [OF xs(4)])
    show "?m (osize s) \<noteq> 0" unfolding w(2) [OF xs(4)] by (rule xs(5))
    show "\<forall>d \<in> snd ` set xs. is_obj ?m L d \<and> d \<noteq> s" using ds o by blast
  qed
  then show ?thesis unfolding xs(2) .
qed

text \<open>Adding an object to a set.\<close>

lemma set_add_ok:
  assumes S: "set_of h m L s ds" and d: "is_obj m L d" "d \<noteq> s"
  shows "\<exists>m' r es. set_add m h s d set_cmp = Some (m', r) \<and> set_of h m' L s es \<and>
    m' (refcount d) = m (refcount d) + 1 \<and>
    (\<forall>e. is_obj m L e \<and> e \<noteq> s \<longrightarrow> obj_key m' e = obj_key m e) \<and>
    (r = 1 \<and> es = ds \<and> (obj_key m d \<in> obj_key m ` set ds \<or> alloc (m(refcount d := m (refcount d) + 1)) h 4 = Some (m(refcount d := m (refcount d) + 1), 0)) \<or>
     r = 0 \<and> obj_key m d \<notin> obj_key m ` set ds \<and>
       (\<exists>us vs. ds = us @ vs \<and> es = us @ d # vs))"
proof -
  let ?v = "m (refcount d) + 1"
  let ?m = "m(refcount d := ?v)"
  note S1 = set_of_refcount [OF S d, of ?v]
  obtain K0 where K0: "heap_inv h m K0" "L \<subseteq> K0" using S by (rule set_ofE)
  have w: "obj_key ?m e = obj_key m e" "is_obj ?m L e" if "is_obj m L e" for e
  proof -
    note r = refcount_write [OF K0(1) is_obj_mono [OF d(1) K0(2)] is_obj_mono [OF that K0(2)], of ?v]
    show "obj_key ?m e = obj_key m e" by (rule r(1))
    show "is_obj ?m L e" using that r(2) by (simp add: is_obj_def)
  qed
  have d0: "d \<noteq> 0"
  proof
    assume "d = 0"
    then obtain q where "(8, q) \<in> K0" using is_obj_mono [OF d(1) K0(2)] unfolding is_obj_def by auto
    from live_facts(4) [OF K0(1) this] show False by simp
  qed
  obtain xs K where xs: "alloc_tree h ?m (contents s 0) xs L" "map snd xs = ds" "sorted_by (obj_key ?m) xs"
    "is_obj ?m L s" "?m (osize s) \<noteq> 0" "\<forall>d \<in> set ds. is_obj ?m L d \<and> d \<noteq> s" "heap_inv h ?m K" "L \<subseteq> K"
    using S1 by (rule set_ofE)
  have sd: "snd ` set xs = set ds" unfolding xs(2) [symmetric] by simp
  have in_L: "is_obj ?m L e \<and> e \<noteq> s" if "e \<in> insert d (snd ` set xs)" for e
    using that xs(6) w(2) [OF d(1)] d(2) unfolding sd by blast
  have st: "\<forall>m'. undisturbed h (contents s 0) L ?m m' \<longrightarrow>
      (\<forall>e \<in> insert d (snd ` set xs). obj_key m' e = obj_key ?m e)"
  proof (intro allI impI ballI)
    fix m' e
    assume u: "undisturbed h (contents s 0) L ?m m'" and e: "e \<in> insert d (snd ` set xs)"
    show "obj_key m' e = obj_key ?m e"
      using in_L [OF e] by (elim conjE) (rule obj_undisturbed(1) [OF xs(7,8,4,5) _ _ u])
  qed
  obtain m' r ys where i: "avl_insert ?m h (contents s 0) d set_cmp = Some (m', r)"
    "alloc_tree h m' (contents s 0) ys L" "sorted_by (obj_key m') ys" "undisturbed h (contents s 0) L ?m m'"
    "r = 1 \<and> ys = xs \<and> (obj_key ?m d \<in> obj_key ?m ` snd ` set xs \<or> alloc ?m h 4 = Some (?m, 0)) \<or> r = 0 \<and> obj_key ?m d \<notin> obj_key ?m ` snd ` set xs \<and>
       (\<exists>x us vs. xs = us @ vs \<and> ys = us @ (x, d) # vs)"
    using objects.avl_insert_tree [OF xs(1,3) st] by (elim exE conjE) (rule that)
  note after = obj_undisturbed [OF xs(7,8,4,5) _ _ i(4)]
  have sub: "snd ` set ys \<subseteq> insert d (snd ` set xs)" using i(5) by auto
  have kd: "obj_key ?m d = obj_key m d" by (rule w(1) [OF d(1)])
  have ki: "obj_key ?m ` snd ` set xs = obj_key m ` set ds"
    unfolding sd
  proof (rule image_cong [OF refl])
    fix e assume "e \<in> set ds"
    then have "is_obj m L e" using set_ofE [OF S] by metis
    then show "obj_key ?m e = obj_key m e" by (rule w(1))
  qed
  have es: "r = 1 \<and> map snd ys = ds \<and> (obj_key m d \<in> obj_key m ` set ds \<or> alloc (m(refcount d := m (refcount d) + 1)) h 4 = Some (m(refcount d := m (refcount d) + 1), 0)) \<or>
     r = 0 \<and> obj_key m d \<notin> obj_key m ` set ds \<and> (\<exists>us vs. ds = us @ vs \<and> map snd ys = us @ d # vs)"
    using i(5) unfolding ki kd
  proof (elim disjE conjE exE)
    fix x us vs assume "r = 0" "obj_key m d \<notin> obj_key m ` set ds" "xs = us @ vs" "ys = us @ (x, d) # vs"
    moreover from this have "ds = map snd us @ map snd vs" "map snd ys = map snd us @ d # map snd vs"
      using xs(2) by simp_all
    ultimately show ?thesis by blast
  qed (use xs(2) in blast)+
  show ?thesis
  proof (intro exI conjI)
    show "set_add m h s d set_cmp = Some (m', r)"
      unfolding set_add_def Let_def using d0 i(1) by simp
    show "set_of h m' L s (map snd ys)"
      by (rule set_of_after [OF xs(7,8,4,5) i(4,2,3)]) (use in_L sub in blast)
    show "m' (refcount d) = m (refcount d) + 1"
      using after(3) [OF w(2) [OF d(1)] d(2)] by simp
    show "\<forall>e. is_obj m L e \<and> e \<noteq> s \<longrightarrow> obj_key m' e = obj_key m e"
      using after(1) w by simp
  qed (rule es)
qed

text \<open>Looking for an object that is equal to the given one.\<close>

lemma set_find:
  assumes S: "set_of h m L s ds" and d: "is_obj m L d" and f: "foot find_node \<subseteq> below h"
  shows "\<exists>p xs. avl_find m (contents s 0) d set_cmp = Some p \<and> alloc_tree h m (contents s 0) xs L \<and>
    map snd xs = ds \<and> (p = 0 \<and> obj_key m d \<notin> obj_key m ` set ds \<or>
      p \<noteq> 0 \<and> (\<exists>us e vs. xs = us @ (p, e) # vs \<and> obj_key m e = obj_key m d))"
proof -
  obtain xs K where xs: "alloc_tree h m (contents s 0) xs L" "map snd xs = ds" "sorted_by (obj_key m) xs"
    "is_obj m L s" "m (osize s) \<noteq> 0" "\<forall>d \<in> set ds. is_obj m L d \<and> d \<noteq> s" "heap_inv h m K" "L \<subseteq> K"
    using S by (rule set_ofE)
  have sd: "snd ` set xs = set ds" unfolding xs(2) [symmetric] by simp
  note k = find_mem_key [OF xs(7,8) _ f, of _ d]
  have "\<forall>(a, e) \<in> set xs. obj_key (find_mem m d) e = obj_key m e"
  proof clarify
    fix a e assume "(a, e) \<in> set xs"
    then have "e \<in> set ds" unfolding sd [symmetric] by force
    then show "obj_key (find_mem m d) e = obj_key m e" using k xs(6) by blast
  qed
  from objects.find_tree [OF xs(1,3) f this k [OF d]] show ?thesis unfolding sd using xs(1,2) by blast
qed

end
