(* ===== verification/Heap_Props.thy ===== *)
theory Heap_Props
  imports Heap_Client Gc
begin

text \<open>
  The properties of the heap: initialisation, allocation, release and reallocation, and what holds
  in every state a client can reach.
\<close>

subsection \<open>Initialisation\<close>

lemma insert_self:
  assumes "m tr = a" "a \<noteq> 0" "tr \<notin> foot a"
  shows "avl_insert_node m tr a d avl_basic_cmp = Some (init_node m a d, 1)"
proof -
  have "avl_descend avl_basic_cmp (init_node m a d) a a 0 0 = Some (a, 0)"
    by (subst avl_descend.simps) (use assms in \<open>simp add: avl_basic_cmp_def\<close>)
  with assms show ?thesis by (simp add: avl_insert_node_def Let_def init_node_def)
qed

lemma heap_setup_ok:
  assumes al: "unat h mod 8 = 0" and sz: "12 \<le> unat sz" "unat h + 8 * unat sz < 2 ^ 60"
  shows "\<exists>m'. heap_setup m h sz = Some m' \<and> heap_ok m' h [(h + 64, sz - 8, False)] \<and>
    same_except (blk h 12) m m'"
proof -
  let ?a = "h + 64" and ?d = "sz - 8"
  have lt: "unat h + 64 < 2 ^ 64" using sz by simp
  note add = unat_add_lit [OF lt]
  have a0: "?a \<noteq> 0" using add(7) by (metis add_is_0 unat_0 zero_neq_numeral)
  have d: "unat ?d = unat sz - 8" using sz by (simp add: unat_sub word_le_nat_alt)
  have e: "unat (h + 8 * sz) = unat h + 8 * unat sz"
    using sz pows by (subst unat_add; subst unat_mult8) linarith+
  define m1 where "m1 = m(heap_end h := h + 8 * sz, heap_prev h := 0, heap_next h := 0,
    fmds_ptr h := ?a, true_num_alloced h := 0, gc_num_alloced h := 0, words_used h := 0)"
  have hb: "\<And>x. x \<in> {h, h + 8, h + 16, h + 24, h + 40, h + 48, h + 56} \<Longrightarrow> x \<notin> foot ?a"
    by (auto simp: foot_def add.assoc)
  have m1: "m1 (fmds_ptr h) = ?a" "m1 (heap_end h) = h + 8 * sz"
    "m1 (true_num_alloced h) = 0" "m1 (words_used h) = 0"
    by (simp_all add: m1_def fmds_ptr_def heap_end_def true_num_alloced_def words_used_def
      gc_num_alloced_def heap_prev_def heap_next_def)
  have cells: "fmds_ptr h \<notin> foot ?a" "heap_end h \<notin> foot ?a" "true_num_alloced h \<notin> foot ?a"
    "words_used h \<notin> foot ?a"
    using hb by (simp_all add: fmds_ptr_def heap_end_def true_num_alloced_def words_used_def)
  let ?m = "init_node m1 ?a ?d"
  have code: "heap_setup m h sz = Some ?m"
    using insert_self [where m = m1 and tr = "fmds_ptr h" and a = ?a and d = ?d, OF m1(1) a0 cells(1)] m1(1)
    unfolding heap_setup_def Let_def hds_sz_def by (simp add: m1_def [symmetric] del: fun_upd_apply)
  have eqs: "?m (heap_end h) = h + 8 * sz" "?m (true_num_alloced h) = 0" "?m (words_used h) = 0"
    "?m (fmds_ptr h) = ?a"
    using m1 cells by simp_all
  have "unat ?a mod 8 = 0" using al add(7) by presburger
  then have "al ?a" by (rule al_mod)
  with a0 have "okp ?a" unfolding okp_def by (rule conjI)
  moreover have "tree_at ?m 0 (Nd Lf ?a Bal ?d Lf)" by simp
  ultimately have "tree_in ?m (fmds_ptr h) (Nd Lf ?a Bal ?d Lf)"
    using eqs(4) cells(1) by (simp add: tree_in_def)
  then have hl: "holds ?m (fmds_ptr h) [(?a, ?d)]"
    unfolding holds_def by (intro exI [where x = "Nd Lf ?a Bal ?d Lf"]) (simp add: balanced_def)
  have "tiles (unat h + 64) [(?a, ?d, False)] (unat h + 8 * unat sz)"
    unfolding tiles.simps add(7) d using sz(1) by arith
  then have ok: "heap_ok ?m h [(?a, ?d, False)]"
    unfolding heap_ok_def eqs e using al sz(2) hl by (simp add: coalesced_def)
  have "{h, h + 8, h + 16, h + 24, h + 40, h + 48, h + 56} \<subseteq> blk h 12"
    using add lt unat_add [of h 48] by (simp add: blk_def)
  moreover have "foot ?a \<subseteq> blk h 12"
    using foot_unat [of ?a] add(7) sz by (fastforce simp: blk_def)
  ultimately have "same_except (blk h 12) m m1" "x \<in> foot ?a \<Longrightarrow> x \<in> blk h 12" for x
    by (simp_all add: m1_def same_except_write heap_cells heap_prev_def heap_next_def
      gc_num_alloced_def) blast
  then have "same_except (blk h 12) m ?m"
    by (simp add: same_except_def init_node_def nd_defs set_nd_prev_def set_nd_left_def set_nd_right_def
      set_nd_data_def foot_def) 
  with code ok show ?thesis by blast
qed

subsection \<open>Reallocation\<close>

lemma next_index:
  assumes "i < (n :: u64)"
  shows "j < i + 1 \<longleftrightarrow> j < i \<or> j = i" "i + 1 \<le> j \<longleftrightarrow> i < j"
  using unat_suc [OF assms]
  by (simp_all add: word_less_nat_alt word_le_nat_alt word_unat_eq_iff less_Suc_eq Suc_le_eq)

text \<open>
  The copying loop, when the words it writes are none of those it reads: after it the words from \<open>i\<close> on
  are copied and all others are as before.
\<close>

lemma realloc_copy_mem:
  assumes "m (a - 8) - 1 = c"
    and "\<forall>j < umin c k. p + 8 * j \<noteq> a - 8 \<and> (\<forall>l < umin c k. p + 8 * j \<noteq> a + 8 * l)"
    and "\<forall>j < umin c k. \<forall>l < umin c k. j \<noteq> l \<longrightarrow> p + 8 * j \<noteq> p + 8 * l"
  shows "(\<forall>j. i \<le> j \<longrightarrow> j < umin c k \<longrightarrow> realloc_copy m p a k i (p + 8 * j) = m (a + 8 * j)) \<and>
    (\<forall>x. (\<forall>j < umin c k. x \<noteq> p + 8 * j) \<longrightarrow> realloc_copy m p a k i x = m x) \<and>
    (\<forall>j < i. j < umin c k \<longrightarrow> realloc_copy m p a k i (p + 8 * j) = m (p + 8 * j))"
  using assms
proof (induction m p a k i rule: realloc_copy.induct)
  case (1 m p a k i)
  note pr = "1.prems"
  show ?case
  proof (cases "i < umin c k")
    case False
    then have "realloc_copy m p a k i = m"
      using pr(1) by (subst realloc_copy.simps) (simp add: umds_sz_def)
    then show ?thesis using False by auto
  next
    case True
    let ?m = "m(p + 8 * i := m (a + 8 * i))"
    have e: "realloc_copy m p a k i = realloc_copy ?m p a k (i + 1)"
      using True pr(1) by (subst realloc_copy.simps) (simp add: umds_sz_def)
    have c: "?m (a - 8) - 1 = c" using pr(1,2) True by auto
    have g: "i < umin (m (a - 8 * umds_sz) - 1) k" using True pr(1) by (simp add: umds_sz_def)
    note ih = "1.IH" [OF g c pr(2,3)]
    note i1 = next_index [OF True]
    have keep: "realloc_copy ?m p a k (i + 1) x = ?m x" if "\<forall>j < umin c k. x \<noteq> p + 8 * j" for x
      using ih that by blast
    have old: "realloc_copy ?m p a k (i + 1) (p + 8 * j) = ?m (p + 8 * j)"
      if "j < i \<or> j = i" "j < umin c k" for j
      using ih that i1(1) by blast
    have new: "realloc_copy ?m p a k (i + 1) (p + 8 * j) = ?m (a + 8 * j)"
      if "i < j" "j < umin c k" for j
      using ih that i1(2) by blast
    show ?thesis
      unfolding e
    proof (intro conjI allI impI)
      fix j assume j: "i \<le> j" "j < umin c k"
      show "realloc_copy ?m p a k (i + 1) (p + 8 * j) = m (a + 8 * j)"
      proof (cases "j = i")
        case True
        then show ?thesis using old [of j] j(2) by simp
      next
        case False
        then have "i < j" using j(1) by simp
        moreover have "p + 8 * i \<noteq> a + 8 * j" using pr(2) True j(2) by blast
        ultimately show ?thesis using new [of j] j(2) by simp
      qed
    next
      fix x assume x: "\<forall>j < umin c k. x \<noteq> p + 8 * j"
      then have "x \<noteq> p + 8 * i" using True by blast
      then show "realloc_copy ?m p a k (i + 1) x = m x" using keep [OF x] by simp
    next
      fix j assume j: "j < i" "j < umin c k"
      then have "p + 8 * j \<noteq> p + 8 * i" using pr(3) True by blast
      then show "realloc_copy ?m p a k (i + 1) (p + 8 * j) = m (p + 8 * j)" using old [of j] j by simp
    qed
  qed
qed

lemma need_unat: "k + 1 \<noteq> 0 \<Longrightarrow> unat k < unat (need k)"
proof -
  assume "k + 1 \<noteq> 0"
  then have "unat (k + 1) = Suc (unat k)" by (metis add.commute unatSuc)
  then show ?thesis by (auto simp: need_def umds_sz_def min_alloc_sz_def word_less_nat_alt)
qed

text \<open>The block \<open>(a, n)\<close> becomes a block of at least \<open>k\<close> words with the same contents.\<close>

lemma realloc_mem:
  assumes i: "heap_inv h m (insert (a, n) L)" "a \<notin> fst ` L" and k: "k + 1 \<noteq> 0"
  shows "\<exists>m' p. realloc m h a k = Some (m', p) \<and> (p = 0 \<and> m' = m \<or>
    (\<exists>s. need k \<le> s \<and> p \<noteq> 0 \<and> p \<notin> fst ` L \<and> heap_inv h m' (insert (p, s) L) \<and> keeps (below h) L m m' \<and>
      (\<forall>j < umin (n - 1) k. m' (p + 8 * j) = m (a + 8 * j))))"
proof -
  obtain m1 p where al: "alloc m h k = Some (m1, p)" using alloc_inv [OF i(1), of k] by blast
  show ?thesis
  proof (cases "p = 0")
    case True
    then have "m1 = m" using alloc_inv [OF i(1), of k] al by auto
    with True al show ?thesis by (simp add: realloc_def)
  next
    case False
    let ?m2 = "realloc_copy m1 p a k 0" and ?u = "umin (n - 1) k"
    have cp: "(\<forall>j < ?u. ?m2 (p + 8 * j) = m1 (a + 8 * j) \<and> p + 8 * j \<in> payload p s \<and>
        a + 8 * j \<in> payload a n) \<and> (\<forall>x. x \<notin> payload p s \<longrightarrow> ?m2 x = m1 x)"
      if s: "need k \<le> s" "heap_inv h m1 (insert (p, s) (insert (a, n) L))" "p \<noteq> a" for s
    proof -
      have in2: "(p, s) \<in> insert (p, s) (insert (a, n) L)" "(a, n) \<in> insert (p, s) (insert (a, n) L)"
        by simp_all
      note fp = live_facts [OF s(2) in2(1)] and fa = live_facts [OF s(2) in2(2)]
      have n1: "unat (n - 1) = unat n - 1" using fa(2) by (simp add: unat_sub word_le_nat_alt)
      have u: "unat j + 1 < unat s \<and> unat j + 1 < unat n" if "j < ?u" for j
      proof -
        have "unat j < unat k" "unat j < unat (n - 1)"
          using that by (auto simp: umin_def word_less_nat_alt split: if_splits)
        then show ?thesis using n1 need_unat [OF k] s(1) by (simp add: word_le_nat_alt)
      qed
      note pp = in_payload(2) [OF fp(3)] and pa = in_payload(2) [OF fa(3)]
      have mem: "p + 8 * j \<in> payload p s" "a + 8 * j \<in> payload a n" if "j < ?u" for j
        using u [OF that] pp pa by blast+
      have disj: "payload p s \<inter> payload a n = {}" by (rule live_apart [OF s(2) in2 s(3)])
      have hd: "a - 8 \<notin> payload p s" by (rule fa(5) [OF in2(1)])
      have A: "\<forall>j < ?u. p + 8 * j \<noteq> a - 8 \<and> (\<forall>l < ?u. p + 8 * j \<noteq> a + 8 * l)"
      proof (intro allI impI conjI)
        fix j l assume jl: "j < ?u" "l < ?u"
        show "p + 8 * j \<noteq> a + 8 * l" using mem(1) [OF jl(1)] mem(2) [OF jl(2)] disj
          unfolding disjoint_iff by metis
      next
        fix j assume "j < ?u"
        from mem(1) [OF this] hd show "p + 8 * j \<noteq> a - 8" by metis
      qed
      have B: "\<forall>j < ?u. \<forall>l < ?u. j \<noteq> l \<longrightarrow> p + 8 * j \<noteq> p + 8 * l"
      proof (intro allI impI notI)
        fix j l assume jl: "j < ?u" "l < ?u" "j \<noteq> l" "p + 8 * j = p + 8 * l"
        then have "unat (p + 8 * j) = unat (p + 8 * l)" by simp
        then have "unat j = unat l" using in_payload(1) [OF fp(3)] u jl(1,2) by auto
        with jl(3) show False by (simp add: word_unat_eq_iff)
      qed
      have "m1 (a - 8) - 1 = n - 1" using fa(1) by simp
      note r = realloc_copy_mem [where m = m1 and a = a and c = "n - 1" and k = k and p = p and i = 0,
        OF this A B]
      have "?m2 (p + 8 * j) = m1 (a + 8 * j)" if "j < ?u" for j
        using r [THEN conjunct1] that by simp
      moreover have "?m2 x = m1 x" if x: "x \<notin> payload p s" for x
      proof -
        have "\<forall>j < ?u. x \<noteq> p + 8 * j" using mem(1) x by metis
        with r [THEN conjunct2, THEN conjunct1] show ?thesis by simp
      qed
      ultimately show ?thesis using mem by simp
    qed
    have "\<exists>m3 s. free ?m2 h a = Some m3 \<and> need k \<le> s \<and> p \<notin> fst ` L \<and> p \<noteq> a \<and>
      heap_inv h m1 (insert (p, s) (insert (a, n) L)) \<and> heap_inv h m3 (insert (p, s) L) \<and>
      keeps (below h) L m m3 \<and> keeps (below h) {(a, n)} m m1 \<and> keeps (below h) {(p, s)} ?m2 m3"
      by (rule heap.move_block [OF i al False]) (use cp in \<open>simp add: same_except_def\<close>)
    then obtain m3 s where m3: "free ?m2 h a = Some m3" "need k \<le> s" "p \<notin> fst ` L" "p \<noteq> a"
      "heap_inv h m1 (insert (p, s) (insert (a, n) L))" "heap_inv h m3 (insert (p, s) L)"
      "keeps (below h) L m m3" "keeps (below h) {(a, n)} m m1" "keeps (below h) {(p, s)} ?m2 m3" by blast
    have "m3 (p + 8 * j) = m (a + 8 * j)" if j: "j < ?u" for j
    proof -
      from cp [OF m3(2,5,4)] j have c: "?m2 (p + 8 * j) = m1 (a + 8 * j)"
        "p + 8 * j \<in> payload p s" "a + 8 * j \<in> payload a n" by blast+
      have "m3 (p + 8 * j) = ?m2 (p + 8 * j)" by (rule keepsD [OF m3(9) _ c(2)]) simp
      moreover have "m1 (a + 8 * j) = m (a + 8 * j)" by (rule keepsD [OF m3(8) _ c(3)]) simp
      ultimately show ?thesis using c(1) by simp
    qed
    moreover have "realloc m h a k = Some (m3, p)" using al False m3(1) by (simp add: realloc_def)
    ultimately show ?thesis using m3 False by blast
  qed
qed

subsection \<open>What a client can do\<close>

text \<open>
  The states of a heap between its initialisation and the end of the program: memory and the live
  blocks, each with the size the client asked for. The client may allocate (a request for
  \<open>2 ^ 64 - 1\<close> words excepted: the code adds a word to it and gets 0), write to words it asked
  for, reallocate and free.
\<close>

inductive heap_reach :: "u64 \<Rightarrow> mem \<Rightarrow> (u64 \<times> u64) set \<Rightarrow> bool" for h where
  start: "unat h mod 8 = 0 \<Longrightarrow> 12 \<le> unat sz \<Longrightarrow> unat h + 8 * unat sz < 2 ^ 60 \<Longrightarrow>
    heap_setup m h sz = Some m' \<Longrightarrow> heap_reach h m' {}"
| allocate: "heap_reach h m L \<Longrightarrow> n + 1 \<noteq> 0 \<Longrightarrow> alloc m h n = Some (m', p) \<Longrightarrow> p \<noteq> 0 \<Longrightarrow>
    heap_reach h m' (insert (p, n) L)"
| no_room: "heap_reach h m L \<Longrightarrow> alloc m h n = Some (m', 0) \<Longrightarrow> heap_reach h m' L"
| store: "heap_reach h m L \<Longrightarrow> (p, n) \<in> L \<Longrightarrow> i < n \<Longrightarrow> heap_reach h (m(p + 8 * i := v)) L"
| reallocate: "heap_reach h m L \<Longrightarrow> (p, n) \<in> L \<Longrightarrow> k + 1 \<noteq> 0 \<Longrightarrow> realloc m h p k = Some (m', q) \<Longrightarrow>
    q \<noteq> 0 \<Longrightarrow> heap_reach h m' (insert (q, k) (L - {(p, n)}))"
| release: "heap_reach h m L \<Longrightarrow> (p, n) \<in> L \<Longrightarrow> free m h p = Some m' \<Longrightarrow> heap_reach h m' (L - {(p, n)})"

inductive_cases heap_reachE: "heap_reach h m L"

text \<open>Each requested block is a live block of the heap that is large enough, and no two share one.\<close>

definition fits :: "(u64 \<times> u64) set \<Rightarrow> (u64 \<times> u64) set \<Rightarrow> bool" where
  "fits L K \<longleftrightarrow> fst ` L = fst ` K \<and> inj_on fst L \<and>
     (\<forall>p n s. (p, n) \<in> L \<longrightarrow> (p, s) \<in> K \<longrightarrow> unat n < unat s)"

lemma fits_empty [simp]: "fits {} {}"
  by (simp add: fits_def)

lemma not_fst: "p \<notin> fst ` K \<Longrightarrow> (p, s) \<notin> K"
  by force

lemma fits_insert:
  assumes "fits L K" "p \<notin> fst ` K" "unat n < unat s"
  shows "fits (insert (p, n) L) (insert (p, s) K)"
proof -
  have p: "p \<notin> fst ` L" using assms(1,2) by (simp add: fits_def)
  then have "inj_on fst (insert (p, n) L)" using assms(1) by (auto simp: fits_def inj_on_insert)
  moreover have "unat b < unat c" if "(q, b) \<in> insert (p, n) L" "(q, c) \<in> insert (p, s) K" for q b c
  proof (cases "q = p")
    case True
    then have "b = n" "c = s" using that not_fst [OF p] not_fst [OF assms(2)] by auto
    with assms(3) show ?thesis by simp
  next
    case False
    then show ?thesis using that assms(1) by (auto simp: fits_def)
  qed
  ultimately show ?thesis using assms(1) unfolding fits_def by (simp only: image_insert fst_conv) blast
qed

lemma fst_remove: "inj_on fst L \<Longrightarrow> (p, n) \<in> L \<Longrightarrow> fst ` (L - {(p, n)}) = fst ` L - {p}"
  by (simp add: inj_on_image_set_diff [where C = L])

lemma fits_remove:
  assumes "fits L K" "(p, n) \<in> L" "inj_on fst K"
  obtains s K' where "K = insert (p, s) K'" "fits (L - {(p, n)}) K'" "p \<notin> fst ` K'" "unat n < unat s"
proof -
  note f = assms(1) [unfolded fits_def]
  have "p \<in> fst ` K" using f assms(2) by force
  then obtain s where s: "(p, s) \<in> K" by force
  have a: "fst ` (L - {(p, n)}) = fst ` L - {p}" "fst ` (K - {(p, s)}) = fst ` K - {p}"
    using fst_remove [OF _ assms(2)] fst_remove [OF assms(3) s] f by blast+
  have "inj_on fst (L - {(p, n)})" using f by (meson Diff_subset inj_on_subset)
  then have "fits (L - {(p, n)}) (K - {(p, s)})" unfolding fits_def a using f by blast
  moreover have "unat n < unat s" using f assms(2) s by blast
  moreover have "p \<notin> fst ` (K - {(p, s)})" using a(2) by simp
  moreover have "K = insert (p, s) (K - {(p, s)})" using s by blast
  ultimately show thesis using that by blast
qed

lemma live_inj: "heap_inv h m K \<Longrightarrow> inj_on fst K"
  using live_size unfolding inj_on_def by fastforce

lemma alloc_result:
  assumes "heap_inv h m K" "alloc m h n = Some (m', p)"
  shows "p = 0 \<Longrightarrow> m' = m" "p \<noteq> 0 \<Longrightarrow> \<exists>s. need n \<le> s \<and> p \<notin> fst ` K \<and> heap_inv h m' (insert (p, s) K)"
  using alloc_inv [OF assms(1), of n] assms(2) by auto

lemma need_fits: "n + 1 \<noteq> 0 \<Longrightarrow> need n \<le> s \<Longrightarrow> unat n < unat s"
  using need_unat [of n] by (simp add: word_le_nat_alt)

lemma card_live: "tiles lo bs hi \<Longrightarrow> card (live bs) = length (used_blocks bs)"
proof -
  have "tiles lo bs hi \<Longrightarrow> distinct (used_blocks bs)"
  proof (induction bs arbitrary: lo)
    case (Cons b bs)
    obtain a n u where b: "b = (a, n, u)" by (cases b) auto
    with Cons.prems have t: "tiles (lo + 8 * unat n) bs hi" "unat a = lo" "4 \<le> unat n" by auto
    have "(a, n) \<notin> set (used_blocks bs)"
      using tiles_mem [OF t(1), of a n True] t(2,3) by (auto simp: in_used_blocks)
    with Cons.IH [OF t(1)] b show ?case by simp
  qed simp
  moreover have "inj_on (\<lambda>(a, s). (a + 8 :: u64, s :: u64)) S" for S by (auto simp: inj_on_def)
  ultimately show "tiles lo bs hi \<Longrightarrow> ?thesis" by (simp add: live_def card_image distinct_card)
qed

lemma heap_invI: "heap_ok m h bs \<Longrightarrow> live bs = L \<Longrightarrow> heap_inv h m L"
  unfolding heap_inv_def by blast

lemma heap_reach_inv: "heap_reach h m L \<Longrightarrow> \<exists>K. heap_inv h m K \<and> fits L K"
proof (induction rule: heap_reach.induct)
  case (start sz m m')
  then obtain m'' where "heap_setup m h sz = Some m''" "heap_ok m'' h [(h + 64, sz - 8, False)]"
    using heap_setup_ok [OF start(1-3), of m] by blast
  then have "heap_ok m' h [(h + 64, sz - 8, False)]" using start(4) by simp
  then have "heap_inv h m' {}" by (rule heap_invI) (simp only: live_simps if_False)
  with fits_empty show ?case by blast
next
  case (allocate m L n m' p)
  then obtain K where K: "heap_inv h m K" "fits L K" by blast
  obtain s where "need n \<le> s" "p \<notin> fst ` K" "heap_inv h m' (insert (p, s) K)"
    using alloc_result(2) [OF K(1) allocate(3,4)] by blast
  then show ?case using fits_insert [OF K(2)] need_fits [OF allocate(2)] by blast
next
  case (no_room m L n m')
  then obtain K where K: "heap_inv h m K" "fits L K" by blast
  then show ?case using alloc_result(1) [OF K(1) no_room(2)] by blast
next
  case (store m L p n i v)
  then obtain K where K: "heap_inv h m K" "fits L K" by blast
  obtain s K' where s: "K = insert (p, s) K'" "unat n < unat s"
    using fits_remove [OF K(2) store(2) live_inj [OF K(1)]] by metis
  have ps: "(p, s) \<in> K" using s(1) by blast
  have "unat i + 1 < unat s" using store(3) s(2) by (simp add: word_less_nat_alt)
  then have "p + 8 * i \<in> payload p s" by (rule in_payload(2) [OF live_facts(3) [OF K(1) ps]])
  from write_inv [OF K(1) ps this] K(2) show ?case by blast
next
  case (reallocate m L p n k m' q)
  then obtain K where K: "heap_inv h m K" "fits L K" by blast
  obtain s K' where s: "K = insert (p, s) K'" "fits (L - {(p, n)}) K'" "p \<notin> fst ` K'"
    using fits_remove [OF K(2) reallocate(2) live_inj [OF K(1)]] by metis
  obtain t where "need k \<le> t" "q \<notin> fst ` K'" "heap_inv h m' (insert (q, t) K')"
    using realloc_mem [OF K(1) [unfolded s(1)] s(3) reallocate(3)] reallocate(4,5) by auto
  then show ?case using fits_insert [OF s(2)] need_fits [OF reallocate(3)] by blast
next
  case (release m L p n m')
  then obtain K where K: "heap_inv h m K" "fits L K" by blast
  obtain s K' where s: "K = insert (p, s) K'" "fits (L - {(p, n)}) K'" "p \<notin> fst ` K'"
    using fits_remove [OF K(2) release(2) live_inj [OF K(1)]] by metis
  have "heap_inv h m' K'" using free_inv [OF K(1) [unfolded s(1)] s(3)] release(3) by auto
  then show ?case using s(2) by blast
qed

subsection \<open>A small heap\<close>

text \<open>A heap of 100 words, and what allocation does while all free memory is one block at the end.\<close>

lemma alloc_last:
  assumes h: "heap_ok m h (us @ [(a, s, False)])" and us: "free_blocks us = []"
    and n: "need n + min_alloc_sz \<le> s" "need n \<le> s"
  shows "\<exists>m'. alloc m h n = Some (m', a + 8) \<and>
    heap_ok m' h (us @ [(a, need n, True), (a + 8 * need n, s - need n, False)])"
  using alloc_mem [OF h, of n]
proof
  assume "(\<forall>(a, s) \<in> set (free_blocks (us @ [(a, s, False)])). s < need n) \<and> alloc m h n = Some (m, 0)"
  with n(2) show ?thesis by (auto simp: not_less [symmetric])
next
  assume "\<exists>xs b t ys m'. us @ [(a, s, False)] = xs @ (b, t, False) # ys \<and> need n \<le> t \<and>
    alloc m h n = Some (m', b + 8) \<and> heap_ok m' h (carve xs b t ys (need n)) \<and>
    same_except (free_area (us @ [(a, s, False)]) \<union> ctl_cells h) m m'"
  then obtain xs b t ys m' where e: "us @ [(a, s, False)] = xs @ (b, t, False) # ys"
    "alloc m h n = Some (m', b + 8)" "heap_ok m' h (carve xs b t ys (need n))" by blast
  have "ys = []"
  proof (rule ccontr)
    assume "ys \<noteq> []"
    then obtain zs z where "ys = zs @ [z]" by (cases ys rule: rev_cases) auto
    then have "us = xs @ (b, t, False) # zs" using e(1) by simp
    with us show False by simp
  qed
  with e n(1) show ?thesis by (simp add: carve_def)
qed

lemma demo_start: "\<exists>m. heap_reach 0x80000 m {} \<and> heap_ok m 0x80000 [(0x80040, 92, False)]"
  using heap_setup_ok [of "0x80000" 100 "\<lambda>_. 0"] heap_reach.start [of "0x80000" 100 "\<lambda>_. 0"] by auto

lemma demo_one:
  "\<exists>m. heap_reach 0x80000 m {(0x80048, 3)} \<and> heap_ok m 0x80000 [(0x80040, 4, True), (0x80060, 88, False)]"
proof -
  obtain m where m: "heap_reach 0x80000 m {}" "heap_ok m 0x80000 ([] @ [(0x80040, 92, False)])"
    using demo_start by auto
  obtain m' where "alloc m 0x80000 3 = Some (m', 0x80048)"
    "heap_ok m' 0x80000 [(0x80040, 4, True), (0x80060, 88, False)]"
    using alloc_last [OF m(2), of 3] by (auto simp: need_def umds_sz_def min_alloc_sz_def)
  with heap_reach.allocate [OF m(1) _ this(1)] show ?thesis by auto
qed

lemma demo_two:
  "\<exists>m. heap_reach 0x80000 m {(0x80068, 3), (0x80048, 3)}"
proof -
  obtain m where m: "heap_reach 0x80000 m {(0x80048, 3)}"
    "heap_ok m 0x80000 ([(0x80040, 4, True)] @ [(0x80060, 88, False)])"
    using demo_one by auto
  obtain m' where "alloc m 0x80000 3 = Some (m', 0x80068)"
    using alloc_last [OF m(2), of 3] by (auto simp: need_def umds_sz_def min_alloc_sz_def)
  with heap_reach.allocate [OF m(1) _ this(1)] show ?thesis by auto
qed

subsection \<open>Sequences of requests\<close>

text \<open>
  A client of the allocator: it holds blocks, each with its address and the size it asked for, and names
  them by their place in the list. A request for a block it does not hold does nothing.
\<close>

datatype request = Alloc u64 | Free nat | Realloc nat u64 | Store nat u64 u64

type_synonym client = "mem \<times> (u64 \<times> u64) list"

fun request_step :: "u64 \<Rightarrow> request \<Rightarrow> client \<Rightarrow> client option" where
  "request_step h (Alloc n) (m, held) = do {
     (m, p) \<leftarrow> alloc m h n;
     Some (m, if p = 0 then held else (p, n) # held) }"
| "request_step h (Free i) (m, held) =
     (if i < length held then do {
        m \<leftarrow> free m h (fst (held ! i));
        Some (m, take i held @ drop (Suc i) held) }
      else Some (m, held))"
| "request_step h (Realloc i n) (m, held) =
     (if i < length held then do {
        (m, p) \<leftarrow> realloc m h (fst (held ! i)) n;
        Some (m, if p = 0 then held else (p, n) # take i held @ drop (Suc i) held) }
      else Some (m, held))"
| "request_step h (Store i j v) (m, held) =
     (if i < length held \<and> j < snd (held ! i) then Some (m(fst (held ! i) + 8 * j := v), held)
      else Some (m, held))"

fun run_requests :: "u64 \<Rightarrow> request list \<Rightarrow> client \<Rightarrow> client option" where
  "run_requests h [] s = Some s"
| "run_requests h (r # rs) s = do { s \<leftarrow> request_step h r s; run_requests h rs s }"

text \<open>The size word of the block must not wrap round.\<close>

fun sensible :: "request \<Rightarrow> bool" where
  "sensible (Alloc n) = (n + 1 \<noteq> 0)"
| "sensible (Realloc i n) = (n + 1 \<noteq> 0)"
| "sensible _ = True"

definition client_ok :: "u64 \<Rightarrow> client \<Rightarrow> bool" where
  "client_ok h s \<longleftrightarrow> heap_reach h (fst s) (set (snd s)) \<and> distinct (map fst (snd s))"

text \<open>What the client holds besides a block.\<close>

lemma held_split:
  assumes "distinct (map fst held)" "i < length held"
  shows "set (take i held @ drop (Suc i) held) = set held - {held ! i}"
    "distinct (map fst (take i held @ drop (Suc i) held))" "held ! i \<in> set held"
proof -
  have h: "held = take i held @ held ! i # drop (Suc i) held" using assms(2) by (rule id_take_nth_drop)
  have "distinct (map fst (take i held @ held ! i # drop (Suc i) held))" using assms(1) h by simp
  then have d: "distinct (map fst (take i held @ drop (Suc i) held))" "held ! i \<notin> set (take i held @ drop (Suc i) held)"
    by (auto simp: image_iff)
  show "distinct (map fst (take i held @ drop (Suc i) held))" by (fact d(1))
  have "set held = insert (held ! i) (set (take i held @ drop (Suc i) held))" by (subst h) simp
  then show "set (take i held @ drop (Suc i) held) = set held - {held ! i}" using d(2) by simp
  show "held ! i \<in> set held" using assms(2) by simp
qed

lemma request_step_ok:
  assumes c: "client_ok h s" and r: "sensible r"
  shows "\<exists>s'. request_step h r s = Some s' \<and> client_ok h s'"
proof -
  obtain m held where s: "s = (m, held)" by fastforce
  have R: "heap_reach h m (set held)" and D: "distinct (map fst held)" using c by (simp_all add: client_ok_def s)
  obtain K where K: "heap_inv h m K" "fits (set held) K" using heap_reach_inv [OF R] by blast
  have fK: "fst ` set held = fst ` K" using K(2) by (simp add: fits_def)
  show ?thesis
  proof (cases r)
    case r: (Alloc n)
    obtain m' p where a: "alloc m h n = Some (m', p)" "p \<noteq> 0 \<Longrightarrow> p \<notin> fst ` K" using alloc_inv [OF K(1), of n] by blast
    have "client_ok h (m', if p = 0 then held else (p, n) # held)"
      using heap_reach.no_room [OF R] heap_reach.allocate [OF R _ a(1)] a \<open>sensible r\<close> D fK
      by (auto simp: client_ok_def r)
    then show ?thesis using a(1) by (simp add: s r)
  next
    case r: (Free i)
    show ?thesis
    proof (cases "i < length held")
      case True
      obtain p n where p: "held ! i = (p, n)" by fastforce
      note sp = held_split [OF D True, unfolded p]
      obtain t K' where t: "K = insert (p, t) K'" "p \<notin> fst ` K'" using fits_remove [OF K(2) sp(3) live_inj [OF K(1)]] by metis
      from free_inv [of h m p t K'] t K(1) obtain m' where m': "free m h p = Some m'" by blast
      have "client_ok h (m', take i held @ drop (Suc i) held)"
        using heap_reach.release [OF R sp(3) m'] sp(1,2) by (simp add: client_ok_def)
      then show ?thesis using True m' p by (simp add: s r)
    qed (use c in \<open>simp add: s r\<close>)
  next
    case r: (Realloc i n)
    show ?thesis
    proof (cases "i < length held")
      case True
      obtain p k where p: "held ! i = (p, k)" by fastforce
      note sp = held_split [OF D True, unfolded p]
      obtain t K' where t: "K = insert (p, t) K'" "p \<notin> fst ` K'" "fits (set held - {(p, k)}) K'"
        using fits_remove [OF K(2) sp(3) live_inj [OF K(1)]] by metis
      have n: "n + 1 \<noteq> 0" using \<open>sensible r\<close> by (simp add: r)
      obtain m' q where q: "realloc m h p n = Some (m', q)" "q = 0 \<and> m' = m \<or> q \<noteq> 0 \<and> q \<notin> fst ` K'"
        using realloc_mem [of h m p t K' n] t(1,2) K(1) n by blast
      show ?thesis
      proof (cases "q = 0")
        case True
        then show ?thesis using q c \<open>i < length held\<close> p by (simp add: s r)
      next
        case False
        have "q \<notin> fst ` set (take i held @ drop (Suc i) held)"
          using q(2) False t(3) unfolding sp(1) fits_def by simp
        then have "client_ok h (m', (q, n) # take i held @ drop (Suc i) held)"
          using heap_reach.reallocate [OF R sp(3) n q(1) False] sp(2)
          by (simp only: client_ok_def fst_conv snd_conv list.set list.map distinct.simps set_map sp(1) simp_thms)
        then show ?thesis using q(1) False \<open>i < length held\<close> p by (simp add: s r)
      qed
    qed (use c in \<open>simp add: s r\<close>)
  next
    case r: (Store i j v)
    obtain p n where p: "held ! i = (p, n)" by fastforce
    show ?thesis
    proof (cases "i < length held \<and> j < n")
      case True
      then have "(p, n) \<in> set held" using p nth_mem by metis
      from heap_reach.store [OF R this, of j v] True D p show ?thesis by (simp add: s r client_ok_def)
    qed (use c p in \<open>auto simp: s r\<close>)
  qed
qed

lemma requests_run:
  "client_ok h s \<Longrightarrow> list_all sensible rs \<Longrightarrow> \<exists>s'. run_requests h rs s = Some s' \<and> client_ok h s'"
proof (induction rs arbitrary: s)
  case (Cons r rs)
  then obtain s1 where "request_step h r s = Some s1" "client_ok h s1" using request_step_ok [of h s r] by auto
  with Cons.IH [of s1] Cons.prems(2) show ?case by simp
qed simp

lemma reach_counter:
  assumes "heap_reach h m L"
  shows "m (true_num_alloced h) = of_nat (card L)"
proof -
  obtain K where K: "heap_inv h m K" "fits L K" using heap_reach_inv [OF assms] by blast
  obtain bs where bs: "heap_ok m h bs" "K = live bs" using K(1) by (auto simp: heap_inv_def)
  have "card L = card K" using K(2) live_inj [OF K(1)] unfolding fits_def by (metis card_image)
  then show ?thesis using heap_okD(7) [OF bs(1)] card_live [OF heap_okD(3) [OF bs(1)]] bs(2) by simp
qed

subsection \<open>The properties\<close>

text \<open>
  C1. \<open>alloc\<close> on a heap that satisfies the invariant always returns. When no free block has the size
  that the request needs, it returns the null pointer and changes nothing. Otherwise it carves the
  block out of a free block that is large enough (or takes the whole block when what remains
  would be too small for a node), returns the address behind its size word, keeps the
  invariant and writes nothing outside the free blocks and the three cells of the header; in
  particular every live block keeps its contents.
\<close>

theorem alloc_correct:
  assumes "heap_ok m h bs"
  shows "(\<forall>(a, s) \<in> set (free_blocks bs). s < need n) \<and> alloc m h n = Some (m, 0) \<or>
    (\<exists>xs a s ys m'. bs = xs @ (a, s, False) # ys \<and> need n \<le> s \<and>
       alloc m h n = Some (m', a + 8) \<and> heap_ok m' h (carve xs a s ys (need n)) \<and>
       same_except (free_area bs \<union> ctl_cells h) m m' \<and> keeps (below h) (live bs) m m')"
proof -
  have "keeps (below h) (live bs) m m'" if "same_except (free_area bs \<union> ctl_cells h) m m'" for m'
    by (rule heap_keeps [OF assms, where B = "{}"]) (use that in simp_all)
  with alloc_mem [OF assms, of n] show ?thesis by blast
qed

theorem alloc_correct_witness:
  "\<exists>m m'. heap_ok m 0x80000 [(0x80040, 92, False)] \<and> alloc m 0x80000 5 = Some (m', 0x80048) \<and>
     heap_ok m' 0x80000 [(0x80040, 6, True), (0x80070, 86, False)]"
proof -
  obtain m where m: "heap_ok m 0x80000 [(0x80040, 92, False)]" using demo_start by blast
  from alloc_correct [OF m, of 5] m show ?thesis
    by (auto simp: Cons_eq_append_conv carve_def need_def umds_sz_def min_alloc_sz_def)
qed

text \<open>
  C2. \<open>free\<close> of a live block always returns, keeps the invariant and joins the block with the free
  blocks directly before and behind it, so that no two free blocks are ever neighbours. It writes
  nothing outside the block, the free blocks and the header; every other live block keeps its
  contents.
\<close>

theorem free_correct:
  assumes "heap_ok m h (xs @ (a, n, True) # ys)"
  shows "\<exists>m'. free m h (a + 8) = Some m' \<and> heap_ok m' h (release xs a n ys) \<and>
    same_except (free_area (xs @ ys) \<union> blk a n \<union> ctl_cells h) m m' \<and> keeps (below h) (live (xs @ ys)) m m'"
proof -
  obtain m' where m': "free m h (a + 8) = Some m'" "heap_ok m' h (release xs a n ys)"
    "same_except (free_area (xs @ ys) \<union> blk a n \<union> ctl_cells h) m m'" using free_mem [OF assms] by blast
  have i: "heap_inv h m (insert (a + 8, n) (live (xs @ ys)))"
    by (rule heap_invI [OF assms]) simp
  have "keeps (below h) (live (xs @ ys)) m m'"
    using free_inv [OF i fresh_block [OF assms]] m'(1) by auto
  with m' show ?thesis by blast
qed

theorem free_correct_witness:
  "\<exists>m m'. heap_ok m 0x80000 [(0x80040, 4, True), (0x80060, 88, False)] \<and>
     free m 0x80000 0x80048 = Some m' \<and> heap_ok m' 0x80000 [(0x80040, 92, False)]"
proof -
  obtain m where m: "heap_ok m 0x80000 ([] @ (0x80040, 4, True) # [(0x80060, 88, False)])"
    using demo_one by auto
  from free_correct [OF m] m show ?thesis by (auto simp: release_def join_left_def)
qed

text \<open>
  C3. No two blocks that a client holds overlap, in any state that is reached from an initialised
  heap by allocating, writing to the words asked for, reallocating and freeing, in any order.
\<close>

theorem heap_reach_disjoint:
  assumes "heap_reach h m L" "(p, n) \<in> L" "(q, k) \<in> L" "(p, n) \<noteq> (q, k)" "i < n" "j < k"
  shows "p + 8 * i \<noteq> q + 8 * j"
proof -
  obtain K where K: "heap_inv h m K" "fits L K" using heap_reach_inv [OF assms(1)] by blast
  obtain s K' where s: "K = insert (p, s) K'" "unat n < unat s"
    using fits_remove [OF K(2) assms(2) live_inj [OF K(1)]] by metis
  obtain t K'' where t: "K = insert (q, t) K''" "unat k < unat t"
    using fits_remove [OF K(2) assms(3) live_inj [OF K(1)]] by metis
  have kk: "(p, s) \<in> K" "(q, t) \<in> K" using s(1) t(1) by blast+
  have "unat i + 1 < unat s" "unat j + 1 < unat t"
    using assms(5,6) s(2) t(2) by (auto simp: word_less_nat_alt)
  then have x: "p + 8 * i \<in> payload p s" "q + 8 * j \<in> payload q t"
    using in_payload(2) live_facts(3) [OF K(1)] kk by blast+
  have "p \<noteq> q" using K(2) assms(2-4) unfolding fits_def inj_on_def by force
  from live_apart [OF K(1) kk this] x show ?thesis by (metis disjoint_iff)
qed

theorem heap_reach_disjoint_witness:
  "\<exists>m. heap_reach 0x80000 m {(0x80068, 3), (0x80048, 3)} \<and> (0x80068 + 8 * 0 :: u64) \<noteq> 0x80048 + 8 * 2"
  using demo_two heap_reach_disjoint [of "0x80000" _ "{(0x80068, 3), (0x80048, 3)}" "0x80068" 3 "0x80048" 3 0 2]
  by auto

text \<open>
  C15. Every sequence of requests runs to its end on a heap that was just initialised: each call of \<open>alloc\<close>,
  \<open>free\<close> and \<open>realloc\<close> returns, whatever came before, also when the heap has become full. What the client
  holds at the end are distinct blocks, as many as the counter says, in a state for which the other
  properties hold. The requests are for less than \<open>2 ^ 64 - 1\<close> words: for that size the sum in \<open>alloc\<close> wraps
  round, the block is too small, and \<open>realloc\<close> writes behind it.
\<close>

theorem requests_complete:
  assumes "unat h mod 8 = 0" "12 \<le> unat sz" "unat h + 8 * unat sz < 2 ^ 60"
    and "list_all sensible rs"
  shows "\<exists>m0 m' held. heap_setup m h sz = Some m0 \<and> run_requests h rs (m0, []) = Some (m', held) \<and>
    heap_reach h m' (set held) \<and> distinct (map fst held) \<and> m' (true_num_alloced h) = of_nat (length held)"
proof -
  obtain m0 where m0: "heap_setup m h sz = Some m0" using heap_setup_ok [OF assms(1-3), of m] by blast
  have "client_ok h (m0, [])"
    using heap_reach.start [OF assms(1-3) m0] by (simp add: client_ok_def)
  from requests_run [OF this assms(4)]
  obtain m' held where r: "run_requests h rs (m0, []) = Some (m', held)" "client_ok h (m', held)" by auto
  have d: "heap_reach h m' (set held)" "distinct (map fst held)" using r(2) by (simp_all add: client_ok_def)
  have "m' (true_num_alloced h) = of_nat (length held)"
    using reach_counter [OF d(1)] distinct_card [of held] distinct_map d(2) by metis
  with m0 r(1) d show ?thesis by blast
qed

theorem requests_complete_witness:
  "\<exists>m0 m' held. heap_setup (\<lambda>_. 0) 0x80000 100 = Some m0 \<and>
     run_requests 0x80000 [Alloc 3, Store 0 1 7, Alloc 1000, Alloc 5, Realloc 1 9, Free 0] (m0, []) = Some (m', held) \<and>
     distinct (map fst held) \<and> m' (true_num_alloced 0x80000) = of_nat (length held)"
  using requests_complete [of "0x80000" 100 "[Alloc 3, Store 0 1 7, Alloc 1000, Alloc 5, Realloc 1 9, Free 0]" "\<lambda>_. 0"]
  by auto

text \<open>C16. The counter of the header is the number of blocks the client holds.\<close>

theorem heap_reach_counter:
  assumes "heap_reach h m L"
  shows "m (true_num_alloced h) = of_nat (card L)"
  by (rule reach_counter [OF assms])

theorem heap_reach_counter_witness:
  "\<exists>m. heap_reach 0x80000 m {(0x80068, 3), (0x80048, 3)} \<and> m (true_num_alloced 0x80000) = 2"
  using demo_two heap_reach_counter [of "0x80000" _ "{(0x80068, 3), (0x80048, 3)}"] by fastforce

text \<open>
  C7. \<open>realloc\<close> of a live block returns the null pointer and changes nothing, or returns a block that is
  large enough, holds the old contents as far as both sizes reach, and replaces the old block;
  all other live blocks keep their contents. The size is any but \<open>2 ^ 64 - 1\<close> words, for which the sum in
  \<open>alloc\<close> wraps round.
\<close>

theorem realloc_correct:
  assumes "heap_inv h m (insert (a, n) L)" "a \<notin> fst ` L" "k + 1 \<noteq> 0"
  shows "\<exists>m' p. realloc m h a k = Some (m', p) \<and> (p = 0 \<and> m' = m \<or>
    (\<exists>s. need k \<le> s \<and> p \<noteq> 0 \<and> p \<notin> fst ` L \<and> heap_inv h m' (insert (p, s) L) \<and> keeps (below h) L m m' \<and>
      (\<forall>j < umin (n - 1) k. m' (p + 8 * j) = m (a + 8 * j))))"
  by (rule realloc_mem [OF assms])

theorem realloc_correct_witness:
  "\<exists>m m' p. heap_inv 0x80000 m {(0x80048, 4)} \<and> realloc m 0x80000 0x80048 10 = Some (m', p) \<and> p \<noteq> 0 \<and>
     m' p = m 0x80048"
proof -
  obtain m where m: "heap_ok m 0x80000 ([(0x80040, 4, True)] @ [(0x80060, 88, False)])" using demo_one by auto
  then have i: "heap_inv 0x80000 m {(0x80048, 4)}" by (rule heap_invI) simp
  obtain m1 where a: "alloc m 0x80000 10 = Some (m1, 0x80068)"
    using alloc_last [OF m, of 10] by (auto simp: need_def umds_sz_def min_alloc_sz_def)
  obtain m' p where r: "realloc m 0x80000 0x80048 10 = Some (m', p)"
    "p = 0 \<and> m' = m \<or> p \<noteq> 0 \<and> (\<forall>j < umin (4 - 1) 10. m' (p + 8 * j) = m (0x80048 + 8 * j))"
    using realloc_correct [of "0x80000" m "0x80048" 4 "{}" 10] i by auto
  have "p \<noteq> 0" using r(1) a by (auto simp: realloc_def Let_def split: bind_splits)
  moreover have "(0 :: u64) < umin (4 - 1) 10" by (simp add: umin_def)
  ultimately show ?thesis using r i by force
qed

text \<open>C18. Freeing a block right after it was allocated changes no live block.\<close>

theorem alloc_free_roundtrip:
  assumes "heap_inv h m L" "alloc m h n = Some (m1, p)" "p \<noteq> 0"
  shows "\<exists>m2. free m1 h p = Some m2 \<and> heap_inv h m2 L \<and> keeps (below h) L m m2"
  by (rule heap.alloc_then_free [OF assms])

theorem alloc_free_roundtrip_witness:
  "\<exists>m m1 m2. alloc m 0x80000 3 = Some (m1, 0x80048) \<and> free m1 0x80000 0x80048 = Some m2 \<and> heap_inv 0x80000 m2 {}"
proof -
  obtain m where m: "heap_ok m 0x80000 ([] @ [(0x80040, 92, False)])" using demo_start by auto
  obtain m1 where m1: "alloc m 0x80000 3 = Some (m1, 0x80048)"
    using alloc_last [OF m, of 3] by (auto simp: need_def umds_sz_def min_alloc_sz_def)
  have "heap_inv 0x80000 m {}" by (rule heap_invI [OF m]) simp
  from alloc_free_roundtrip [OF this m1] m1 show ?thesis by auto
qed

text \<open>
  C17. The initialisation of a heap of at least twelve words at an aligned address establishes the
  invariant with one free block, and writes only the header and the first words of that block.
\<close>

theorem heap_setup_correct:
  assumes "unat h mod 8 = 0" "12 \<le> unat sz" "unat h + 8 * unat sz < 2 ^ 60"
  shows "\<exists>m'. heap_setup m h sz = Some m' \<and> heap_ok m' h [(h + 64, sz - 8, False)] \<and>
    same_except (blk h 12) m m'"
  by (rule heap_setup_ok [OF assms])

theorem heap_setup_correct_witness:
  "\<exists>m'. heap_setup (\<lambda>_. 0) 0x80000 100 = Some m' \<and> heap_ok m' 0x80000 [(0x80040, 92, False)]"
  using heap_setup_correct [of "0x80000" 100 "\<lambda>_. 0"] by auto

text \<open>
  A request for \<open>2 ^ 64 - 1\<close> words is not refused: the size wraps round to 0, and the block
  that is handed out is the one for an empty request.
\<close>

theorem alloc_wraps_around: "alloc m h (-1) = alloc m h 0"
  by (simp add: alloc_def umds_sz_def min_alloc_sz_def)

end
