(* ===== verification/Avl_Props.thy ===== *)
theory Avl_Props
  imports Avl_Alloc Heap_Props
begin

text \<open>
  The properties of the AVL trees: insertion, search and removal on nodes the caller provides, the
  height, the self-check, the search for a large enough node, and insertion and removal with
  nodes from the heap. \<open>holds m tr xs\<close> says that the cell \<open>tr\<close> is the root of a well-formed, balanced tree
  whose nodes and data, from left to right, are \<open>xs\<close>.
\<close>

subsection \<open>Concrete trees\<close>

text \<open>A tree with one node, and one whose second node is its right child.\<close>

definition demo_mem :: mem where
  "demo_mem = (init_node (init_node (\<lambda>_. 0) 0x200 7) 0x300 9)
     (0x100 := 0x200, 0x200 := 1, 0x210 := 0x300, 0x300 := 0x203)"

lemma demo_tree_in: "tree_in demo_mem 0x100 (Nd Lf 0x200 Rh 7 (Nd Lf 0x300 Bal 9 Lf))"
  by (simp add: tree_in_def demo_mem_def okp_def al_def outl_def sepl_def sep_def foot_def
        init_node_def set_nd_prev_def set_nd_left_def set_nd_right_def set_nd_data_def
        nd_prev_def nd_left_def nd_right_def nd_data_def)

lemma demo_tree: "holds demo_mem 0x100 [(0x200, 7), (0x300, 9)]"
  unfolding holds_def
  by (rule exI, intro conjI, rule demo_tree_in) (simp_all add: balanced_def)

lemma demo_root: "demo_mem 0x100 = 0x200"
  by (simp add: demo_mem_def)

lemma empty_tree: "m tr = 0 \<Longrightarrow> holds m tr []"
  unfolding holds_def tree_in_def by (intro exI [of _ Lf]) simp

text \<open>A tree that is not balanced: the right child of the root has a right child itself.\<close>

definition crooked_tree :: tree where
  "crooked_tree = Nd Lf 0x200 Rh 7 (Nd Lf 0x300 Rh 9 (Nd Lf 0x400 Bal 11 Lf))"

definition crooked_mem :: mem where
  "crooked_mem = (init_node demo_mem 0x400 11) (0x300 := 0x201, 0x310 := 0x400, 0x400 := 0x303)"

lemma crooked_tree_in: "tree_in crooked_mem 0x100 crooked_tree"
  by (simp add: tree_in_def crooked_tree_def crooked_mem_def demo_mem_def okp_def al_def outl_def sepl_def sep_def
      foot_def init_node_def set_nd_prev_def set_nd_left_def set_nd_right_def set_nd_data_def
      nd_prev_def nd_left_def nd_right_def nd_data_def)

lemma crooked_root: "crooked_mem 0x100 = 0x200"
  by (simp add: crooked_mem_def demo_mem_def init_node_def set_nd_prev_def set_nd_left_def set_nd_right_def
      set_nd_data_def)

subsection \<open>The height and the self-check\<close>

text \<open>A tree in memory has no more levels than there are aligned addresses.\<close>

lemma height_length: "ht t \<le> length (addrs t)"
  by (induction t) auto

lemma tree_height_small:
  assumes "tree_in m tr t"
  shows "ht t < 2 ^ 63"
proof -
  have w: "wfl tr (addrs t)" using assms by (simp add: tree_in_def)
  have inj: "inj_on (drop_bit 2) (set (addrs t))"
  proof (rule inj_onI)
    fix x y assume x: "x \<in> set (addrs t)" and y: "y \<in> set (addrs t)" and e: "drop_bit 2 x = drop_bit 2 y"
    have low: "\<not> bit z n" if "z \<in> set (addrs t)" "n < 2" for z n
    proof -
      have "z AND 3 = 0" using wfl_okp [OF w that(1)] unfolding okp_def al_def by (rule conjunct2)
      moreover have "mask 2 = (3 :: u64)" by (simp add: mask_eq_exp_minus_1)
      ultimately have "take_bit 2 z = 0" by (simp only: take_bit_eq_mask)
      from arg_cong [OF this, of "\<lambda>w. bit w n"] that(2) show ?thesis by (simp add: bit_take_bit_iff)
    qed
    show "x = y"
    proof (rule bit_word_eqI)
      fix n
      show "bit x n = bit y n"
      proof (cases "n < 2")
        case False
        then have "2 + (n - 2) = n" by simp
        with arg_cong [OF e, of "\<lambda>w. bit w (n - 2)"] show ?thesis by (simp only: bit_drop_bit_eq o_apply)
      qed (use low x y in blast)
    qed
  qed
  have "drop_bit 2 ` set (addrs t) \<subseteq> of_nat ` {..<2 ^ 62 :: nat}"
  proof
    fix z assume "z \<in> drop_bit 2 ` set (addrs t)"
    then obtain x where x: "z = drop_bit 2 x" by blast
    have g: "unat (drop_bit n x) = drop_bit n (unat x)" for n
      by (simp add: unsigned_drop_bit_eq take_bit_nat_eq_self [OF unat_less_2p64])
    have "unat z = unat x div 4" unfolding x g by (simp add: drop_bit_eq_div)
    then have "unat z < 2 ^ 62" using unat_less_2p64 [of x] by (simp add: less_mult_imp_div_less)
    moreover have "z = of_nat (unat z)" by simp
    ultimately show "z \<in> of_nat ` {..<2 ^ 62}" by blast
  qed
  then have "card (drop_bit 2 ` set (addrs t)) \<le> card (of_nat ` {..<2 ^ 62 :: nat} :: u64 set)"
    by (intro card_mono) simp_all
  also have "\<dots> \<le> 2 ^ 62" using card_image_le [of "{..<2 ^ 62 :: nat}"] by simp
  finally have "length (addrs t) \<le> 2 ^ 62"
    using card_image [OF inj] distinct_card [OF addrs_distinct [OF assms]] by simp
  moreover have "(2 :: nat) ^ 62 < 2 ^ 63" by simp
  ultimately show ?thesis using height_length [of t] by linarith
qed

lemma height_step:
  assumes "a < 2 ^ 63" "b < 2 ^ 63"
  shows "(of_nat a - 1 :: u64) = of_nat b \<longleftrightarrow> a = Suc b" "(of_nat b :: u64) = of_nat a - 1 \<longleftrightarrow> a = Suc b"
proof -
  have "(of_nat a - 1 :: u64) = of_nat b \<longleftrightarrow> (of_nat a :: u64) = of_nat (Suc b)"
    unfolding diff_eq_eq by (simp add: add.commute)
  also have "\<dots> \<longleftrightarrow> a = Suc b" using assms by (simp only: word_of_nat_eq_iff) (simp add: take_bit_nat_eq_self)
  finally show *: "(of_nat a - 1 :: u64) = of_nat b \<longleftrightarrow> a = Suc b" .
  show "(of_nat b :: u64) = of_nat a - 1 \<longleftrightarrow> a = Suc b" using * by (simp only: eq_commute [of "of_nat b"])
qed

text \<open>The nodes with a child whose balance factor is wrong.\<close>

fun faults :: "tree \<Rightarrow> u64 set" where
  "faults Lf = {}"
| "faults (Nd l a b d r) = faults l \<union> faults r \<union>
     (if (l = Lf \<and> r = Lf) \<or> balanced b (ht l) (ht r) then {} else {a})"

lemma avl_no_faults: "avl t \<Longrightarrow> faults t = {}"
  by (induction t) auto

lemma faults_nonnull: "wfl tr (addrs t) \<Longrightarrow> 0 \<notin> faults t"
  by (induction t) (auto split: if_splits)

lemma check_balance_factors_faults:
  "tree_at m par t \<Longrightarrow> al par \<Longrightarrow> wfl tr (addrs t) \<Longrightarrow> ht t < 2 ^ 63 \<Longrightarrow>
   \<exists>p. check_balance_factors m (root t) = Some p \<and> (if faults t = {} then p = 0 else p \<in> faults t)"
proof (induction t arbitrary: par)
  case Lf
  show ?case by (subst check_balance_factors.simps) simp
next
  case (Nd l a b d r)
  have nds: "nd_left m a = root l" "nd_right m a = root r" "a \<noteq> 0"
    "root l = 0 \<longleftrightarrow> l = Lf" "root r = 0 \<longleftrightarrow> r = Lf"
    using Nd.prems root_neq0 [of tr l] root_neq0 [of tr r] by auto
  have h: "avl_tree_height m (root l) = Some (of_nat (ht l) - 1)"
    "avl_tree_height m (root r) = Some (of_nat (ht r) - 1)"
    using Nd.prems avl_tree_height_mem [of m a l tr] avl_tree_height_mem [of m a r tr] by auto
  obtain p where p: "check_balance_factors m (root l) = Some p" "if faults l = {} then p = 0 else p \<in> faults l"
    using Nd.IH(1) [of a] Nd.prems by auto
  obtain q where q: "check_balance_factors m (root r) = Some q" "if faults r = {} then q = 0 else q \<in> faults r"
    using Nd.IH(2) [of a] Nd.prems by auto
  have nz: "0 \<notin> faults l" "0 \<notin> faults r" using faults_nonnull [of tr] Nd.prems(3) by auto
  then have pq: "p = 0 \<longleftrightarrow> faults l = {}" "q = 0 \<longleftrightarrow> faults r = {}" using p(2) q(2) by (auto split: if_splits)
  have bf: "balance_factor m a = bval b"
    using Nd.prems by (intro balance_factor_tag [where par = par]) auto
  have lt: "ht l < 2 ^ 63" "ht r < 2 ^ 63" using Nd.prems by auto
  show ?case
  proof (cases "l = Lf \<and> r = Lf")
    case True
    then show ?thesis by (subst check_balance_factors.simps) (simp add: nds)
  next
    case False
    have "check_balance_factors m (root (Nd l a b d r)) =
        Some (if p \<noteq> 0 then p else if q \<noteq> 0 then q else if balanced b (ht l) (ht r) then 0 else a)"
      by (subst check_balance_factors.simps)
        (use False lt in \<open>cases b; auto simp: nds h p(1) q(1) bf balanced_def Let_def height_step\<close>)
    then show ?thesis using False p(2) q(2) pq by auto
  qed
qed

subsection \<open>Trees of the caller's nodes\<close>

text \<open>
  C12. \<open>avl_insert_node\<close> with the order of the words, on a balanced search tree and a new node: when
  the word is there already the result is 1 and the tree keeps its nodes and its shape is
  untouched as a sequence; otherwise the result is 0 and the new node stands at its place. The tree
  is balanced and ordered again, and only the nodes and the root cell are written.
\<close>

theorem avl_insert_node_correct:
  assumes "holds m tr xs" "sorted_by (\<lambda>d. d) xs" "okp x" "tr \<notin> foot x" "sepl x (map fst xs)"
  shows "\<exists>m' r ys. avl_insert_node m tr x data avl_basic_cmp = Some (m', r) \<and> holds m' tr ys \<and>
    sorted_by (\<lambda>d. d) ys \<and> frame_eq tr (x # map fst xs) m m' \<and>
    (if data \<in> snd ` set xs then r = 1 \<and> ys = xs
     else r = 0 \<and> (\<exists>us vs. xs = us @ vs \<and> ys = us @ (x, data) # vs))"
proof -
  have "(\<exists>(a, d) \<in> set xs. d = data) \<longleftrightarrow> data \<in> snd ` set xs" by force
  then show ?thesis using basic.insert_key [OF assms(1,2,3-5), of data] by simp
qed

theorem avl_insert_node_correct_witness:
  "\<exists>m' r ys. avl_insert_node demo_mem 0x100 0x400 8 avl_basic_cmp = Some (m', r) \<and> holds m' 0x100 ys \<and>
     map snd ys = [7, 8, 9] \<and> r = 0"
proof -
  have "sepl 0x400 [0x200, 0x300]" "okp 0x400" "0x100 \<notin> foot 0x400"
    by (simp_all add: sepl_def sep_def foot_def okp_def al_def)
  then obtain m' r ys us vs where i: "avl_insert_node demo_mem 0x100 0x400 8 avl_basic_cmp = Some (m', r)"
      "holds m' 0x100 ys" "sorted_by (\<lambda>d. d) ys" "r = 0" "[(0x200, 7), (0x300, 9)] = us @ vs"
      "ys = us @ (0x400, 8) # vs"
    using avl_insert_node_correct [OF demo_tree, of "0x400" 8] by auto
  from i(3,5,6) have "map snd ys = [7, 8, 9]" by (auto simp: append_eq_Cons_conv Cons_eq_append_conv)
  show ?thesis by (intro exI conjI) fact+
qed

text \<open>
  C25. \<open>avl_find\<close> returns the node of the tree that holds the word sought, and the null pointer when no
  node holds it.
\<close>

theorem avl_find_correct:
  assumes "holds m tr xs" "sepl find_node (map fst xs)" "sorted_by (\<lambda>d. d) xs"
  shows "\<exists>p. avl_find m tr data avl_basic_cmp = Some p \<and>
    (if data \<in> snd ` set xs then (p, data) \<in> set xs \<and> p \<noteq> 0 else p = 0)"
proof -
  obtain p where "avl_find m tr data avl_basic_cmp = Some p"
    "p = 0 \<and> (\<forall>(a, d) \<in> set xs. d \<noteq> data) \<or> (\<exists>d. (p, d) \<in> set xs \<and> d = data \<and> p \<noteq> 0)"
    using basic.find_key [OF assms, of data data] by auto
  moreover from this(2) have "if data \<in> snd ` set xs then (p, data) \<in> set xs \<and> p \<noteq> 0 else p = 0" by force
  ultimately show ?thesis by blast
qed

theorem avl_find_correct_witness:
  "avl_find demo_mem 0x100 9 avl_basic_cmp = Some 0x300 \<and> avl_find demo_mem 0x100 8 avl_basic_cmp = Some 0"
proof -
  have "sepl find_node [0x200, 0x300]" by (simp add: sepl_def sep_def foot_def find_node_def)
  then show ?thesis
    using avl_find_correct [OF demo_tree, of 9] avl_find_correct [OF demo_tree, of 8] by auto
qed

text \<open>
  C13. \<open>avl_delete_node\<close> on a node of a balanced tree: the tree is balanced again, the data are those
  of before without the item of the node, in the same order, and the node returned is exactly the
  one that is no longer part of the tree.
\<close>

theorem avl_delete_node_correct:
  assumes "holds m tr (xs @ (a, d) # ys)"
  shows "\<exists>m' s zs. avl_delete_node m tr a = Some (m', s) \<and> holds m' tr zs \<and>
    map snd zs = map snd (xs @ ys) \<and> s \<in> set (map fst (xs @ (a, d) # ys)) \<and>
    set (map fst zs) = set (map fst (xs @ (a, d) # ys)) - {s} \<and>
    frame_eq tr (map fst (xs @ (a, d) # ys)) m m'"
  by (rule holds_delete [OF assms])

theorem avl_delete_node_correct_witness:
  "\<exists>m' s zs. avl_delete_node demo_mem 0x100 0x200 = Some (m', s) \<and> holds m' 0x100 zs \<and> map snd zs = [9]"
proof -
  have "holds demo_mem 0x100 ([] @ (0x200, 7) # [(0x300, 9)])" using demo_tree by simp
  from avl_delete_node_correct [OF this] obtain m' s zs where
    "avl_delete_node demo_mem 0x100 0x200 = Some (m', s)" "holds m' 0x100 zs" "map snd zs = [9]" by auto
  then show ?thesis by (intro exI conjI)
qed

text \<open>
  C32. \<open>avl_tree_height\<close> returns the number of levels of the tree minus 1 (for any tree in memory, balanced or
  not), and the height of a balanced tree is logarithmic: with \<open>n\<close> nodes it has at most
  \<open>2 * log2 (n + 1)\<close> levels.
\<close>

theorem avl_tree_height_bound:
  assumes "tree_in m tr t"
  shows "avl_tree_height m (m tr) = Some (of_nat (ht t) - 1) \<and> (avl t \<longrightarrow> 2 ^ ht t \<le> (Suc (length (inorder t)))\<^sup>2)"
  using assms avl_tree_height_mem [of m 0 t tr] tree_height_small [OF assms] avl_height_bound [of t]
  by (simp add: tree_in_def)

theorem avl_tree_height_bound_witness:
  "avl_tree_height demo_mem 0x200 = Some 1 \<and> avl_tree_height crooked_mem 0x200 = Some 2"
  using avl_tree_height_bound [OF demo_tree_in] avl_tree_height_bound [OF crooked_tree_in]
  by (simp add: demo_root crooked_root crooked_tree_def)

text \<open>
  C33. The self-check \<open>check_balance_factors\<close>, on any tree in memory: it returns null exactly when the balance
  factor of every node with a child is the difference of the heights of its subtrees, else a node whose
  factor is wrong. So it accepts every balanced tree. Nodes without children are not looked at.
\<close>

theorem balance_factors_checked:
  assumes "tree_in m tr t"
  shows "\<exists>p. check_balance_factors m (m tr) = Some p \<and> (if faults t = {} then p = 0 else p \<in> faults t) \<and>
    (avl t \<longrightarrow> p = 0)"
proof -
  obtain p where p: "check_balance_factors m (root t) = Some p" "if faults t = {} then p = 0 else p \<in> faults t"
    using assms check_balance_factors_faults [of m 0 t tr] tree_height_small [OF assms]
    by (auto simp: tree_in_def al_def)
  moreover have "m tr = root t" using assms by (simp add: tree_in_def)
  moreover have "avl t \<Longrightarrow> p = 0" using p(2) avl_no_faults [of t] by simp
  ultimately show ?thesis by auto
qed

theorem balance_factors_checked_witness:
  "check_balance_factors demo_mem 0x200 = Some 0 \<and> check_balance_factors crooked_mem 0x200 = Some 0x200"
proof -
  have "faults crooked_tree = {0x200}" by (auto simp: crooked_tree_def balanced_def)
  then show ?thesis
    using balance_factors_checked [OF demo_tree_in] balance_factors_checked [OF crooked_tree_in]
    by (simp add: demo_root crooked_root balanced_def)
qed

text \<open>
  C34. \<open>avl_min_ge\<close>, with which \<open>alloc\<close> looks for a free block, finds a node whose data are large
  enough, whatever the order of the tree; it returns the null pointer only when no node is.
\<close>

theorem avl_min_ge_correct:
  assumes "holds m tr xs"
  shows "\<exists>p. avl_min_ge m (m tr) n = Some p \<and>
    (p = 0 \<and> (\<forall>(a, d) \<in> set xs. d < n) \<or> (\<exists>d. (p, d) \<in> set xs \<and> n \<le> d))"
proof -
  obtain t where t: "tree_in m tr t" "avl t" "inorder t = xs" using assms by (rule holdsE)
  then have "avl_min_ge m (m tr) n = Some (min_ge t n)" "wfl tr (addrs t)"
    using avl_min_ge_mem [of m 0 t tr n] by (simp_all add: tree_in_def)
  with min_ge_none [of tr t n] min_ge_some [of t n] t(3) show ?thesis by blast
qed

theorem avl_min_ge_correct_witness:
  "avl_min_ge demo_mem 0x200 8 = Some 0x300 \<and> avl_min_ge demo_mem 0x200 10 = Some 0"
  using avl_min_ge_correct [OF demo_tree, of 8] avl_min_ge_correct [OF demo_tree, of 10]
  by (auto simp: demo_root)

end
