(* ===== verification/Set_Props.thy ===== *)
theory Set_Props
  imports Obj_Set Avl_Props
begin

text \<open>
  The properties of ordered trees with nodes from the heap and of sets of objects. \<open>set_of h m L s ds\<close> says
  that the object \<open>s\<close> is a set with the elements \<open>ds\<close>, in the order of the objects.
\<close>

subsection \<open>A concrete set\<close>

lemma demo_blocks:
  "\<exists>m. heap_ok m 0x80000 [(0x80040, 5, True), (0x80068, 4, True), (0x80088, 83, False)]"
proof -
  obtain m where m: "heap_ok m 0x80000 ([] @ [(0x80040, 92, False)])" using demo_start by auto
  obtain m1 where "heap_ok m1 0x80000 ([(0x80040, 5, True)] @ [(0x80068, 87, False)])"
    using alloc_last [OF m, of 4] by (auto simp: need_def umds_sz_def min_alloc_sz_def)
  from alloc_last [OF this, of 3] show ?thesis by (auto simp: need_def umds_sz_def min_alloc_sz_def)
qed

lemma demo_set:
  "\<exists>m. set_of 0x80000 m {(0x80048, 5), (0x80070, 4)} 0x80040 [] \<and>
     is_obj m {(0x80048, 5), (0x80070, 4)} 0x80068 \<and>
     (\<forall>v. alloc (m(refcount 0x80068 := v)) 0x80000 4 \<noteq> Some (m(refcount 0x80068 := v), 0))"
proof -
  let ?L = "{(0x80048, 5), (0x80070, 4)} :: (u64 \<times> u64) set"
  let ?bs = "[(0x80040, 5, True), (0x80068, 4, True)] @ [(0x80088, 83, False)] :: block list"
  obtain m where m: "heap_ok m 0x80000 ?bs" using demo_blocks by auto
  let ?m = "m(0x80058 := 1, 0x80060 := 0, 0x80080 := 0)"
  have in_L: "0x80058 \<in> area ?L" "0x80060 \<in> area ?L" "0x80080 \<in> area ?L"
    by (simp_all add: payload_def)
  have live: "live ?bs = ?L" by (simp add: insert_commute)
  have w: "heap_ok (f(x := v)) 0x80000 ?bs" if "heap_ok f 0x80000 ?bs" "x \<in> area ?L" for f x v
    using heap_ok_writes [OF that(1), of "[(x, v)]"] that(2) unfolding live by simp
  have ok: "heap_ok ?m 0x80000 ?bs" by (rule w [OF w [OF w [OF m in_L(1)] in_L(2)] in_L(3)])
  have "heap_inv 0x80000 ?m ({} \<union> ?L)" using heap_invI [OF ok live] by simp
  moreover have "contents 0x80040 0 \<in> area ?L" using in_L by (simp add: contents_def)
  ultimately have "nodes_ok 0x80000 ?m {} ?L (contents 0x80040 0) []"
    unfolding nodes_ok_def node_blocks_def by simp
  moreover have "holds ?m (contents 0x80040 0) []" by (rule empty_tree) (simp add: contents_def)
  ultimately have t: "alloc_tree 0x80000 ?m (contents 0x80040 0) [] ?L" unfolding alloc_tree_def by blast
  have "is_obj ?m ?L 0x80040" unfolding is_obj_def by (rule exI [of _ 5]) (simp add: osize_def)
  moreover have d: "is_obj ?m ?L 0x80068" unfolding is_obj_def by (rule exI [of _ 4]) (simp add: osize_def)
  ultimately have s: "set_of 0x80000 ?m ?L 0x80040 (map snd ([] :: (u64 \<times> u64) list))"
    by (intro set_ofI [OF t]) (simp_all add: osize_def)
  have "alloc (?m(refcount 0x80068 := v)) 0x80000 4 \<noteq> Some (?m(refcount 0x80068 := v), 0)" for v
  proof -
    have "refcount 0x80068 \<in> area ?L" by (simp add: payload_def refcount_def)
    from w [OF ok this, of v] show ?thesis
      using alloc_last [of "?m(refcount 0x80068 := v)" "0x80000" "[(0x80040, 5, True), (0x80068, 4, True)]" "0x80088" 83 4]
      by (auto simp: need_def umds_sz_def min_alloc_sz_def)
  qed
  with s d show ?thesis by (intro exI [of _ ?m]) simp
qed

text \<open>The same set with the second object as its element.\<close>

lemma demo_member:
  "\<exists>m. set_of 0x80000 m {(0x80048, 5), (0x80070, 4)} 0x80040 [0x80068] \<and>
     is_obj m {(0x80048, 5), (0x80070, 4)} 0x80068"
proof -
  obtain m where m: "set_of 0x80000 m {(0x80048, 5), (0x80070, 4)} 0x80040 []"
    "is_obj m {(0x80048, 5), (0x80070, 4)} 0x80068"
    "\<And>v. alloc (m(refcount 0x80068 := v)) 0x80000 4 \<noteq> Some (m(refcount 0x80068 := v), 0)"
    using demo_set by blast
  obtain m' where m': "set_of 0x80000 m' {(0x80048, 5), (0x80070, 4)} 0x80040 [0x80068]"
    using set_add_ok [OF m(1,2)] m(3) by auto
  moreover from this have "is_obj m' {(0x80048, 5), (0x80070, 4)} 0x80068" by (auto simp: set_of_def)
  ultimately show ?thesis by blast
qed

subsection \<open>The order of objects\<close>

text \<open>
  C24. \<open>obj_cmp\<close> is the order of the sequences of the words in use, shorter sequences first: its result
  says which of the two keys is the smaller one, and is 0 exactly when both objects hold the same
  words.
\<close>

theorem obj_cmp_correct:
  "obj_cmp m p q = three_way (obj_key m p) (obj_key m q) \<and>
   (obj_cmp m p q = 0 \<longleftrightarrow> obj_words m p = obj_words m q)"
  by (simp add: obj_cmp_key [symmetric] obj_cmp_zero)

subsection \<open>Ordered trees with nodes from the heap\<close>

text \<open>
  C19. \<open>avl_insert\<close> on a tree whose nodes are live blocks: it puts a new block with the word at its
  place and returns 0, or returns 1 and leaves the tree as it was (the word is there already, or the
  heap has no room). Tree, heap and the words of all other clients stay intact.
\<close>

theorem avl_insert_heap_correct:
  assumes "alloc_tree h m tr xs L" "sorted_by (\<lambda>d. d) xs"
  shows "\<exists>m' r ys. avl_insert m h tr data avl_basic_cmp = Some (m', r) \<and> alloc_tree h m' tr ys L \<and>
    sorted_by (\<lambda>d. d) ys \<and> undisturbed h tr L m m' \<and>
    (r = 1 \<and> ys = xs \<and> (data \<in> snd ` set xs \<or> alloc m h 4 = Some (m, 0)) \<or> r = 0 \<and> data \<notin> snd ` set xs \<and>
       (\<exists>x us vs. xs = us @ vs \<and> ys = us @ (x, data) # vs))"
  using basic.avl_insert_tree [OF assms, of data] by simp

theorem avl_insert_heap_correct_witness:
  "\<exists>m m' r ys. alloc_tree 0x80000 m 0x80060 [] {(0x80048, 5), (0x80070, 4)} \<and>
     avl_insert m 0x80000 0x80060 7 avl_basic_cmp = Some (m', r) \<and>
     alloc_tree 0x80000 m' 0x80060 ys {(0x80048, 5), (0x80070, 4)} \<and> length ys \<le> 1"
proof -
  obtain m xs where m: "alloc_tree 0x80000 m (contents 0x80040 0) xs {(0x80048, 5), (0x80070, 4)}" "map snd xs = []"
    using demo_set unfolding set_of_def by blast
  have t: "alloc_tree 0x80000 m 0x80060 [] {(0x80048, 5), (0x80070, 4)}" using m by (simp add: contents_def)
  obtain m' r ys where "avl_insert m 0x80000 0x80060 7 avl_basic_cmp = Some (m', r)"
    "alloc_tree 0x80000 m' 0x80060 ys {(0x80048, 5), (0x80070, 4)}" "length ys \<le> 1"
    using avl_insert_heap_correct [OF t, of 7] by auto
  with t show ?thesis by blast
qed

text \<open>
  C20. \<open>avl_delete\<close> removes the word from such a tree and frees exactly one block, or returns 1 and changes
  nothing when the word is not there; all other clients keep their words.
\<close>

theorem avl_delete_heap_correct:
  assumes "alloc_tree h m tr xs L" "sorted_by (\<lambda>d. d) xs" "foot find_node \<subseteq> below h"
  shows "\<exists>m' r ys. avl_delete m h tr data avl_basic_cmp = Some (m', r) \<and> alloc_tree h m' tr ys L \<and>
    sorted_by (\<lambda>d. d) ys \<and> undisturbed h tr L m m' \<and>
    (r = 1 \<and> m' = m \<and> ys = xs \<and> data \<notin> snd ` set xs \<or>
     r = 0 \<and> (\<exists>us vs. map snd xs = us @ data # vs \<and> map snd ys = us @ vs))"
  using basic.avl_delete_tree [OF assms, of data data] by simp

theorem avl_delete_heap_correct_witness:
  "\<exists>m xs m'. alloc_tree 0x80000 m 0x80060 xs {(0x80048, 5), (0x80070, 4)} \<and> map snd xs = [0x80068] \<and>
     avl_delete m 0x80000 0x80060 0x80068 avl_basic_cmp = Some (m', 0) \<and>
     alloc_tree 0x80000 m' 0x80060 [] {(0x80048, 5), (0x80070, 4)}"
proof -
  obtain m where "set_of 0x80000 m {(0x80048, 5), (0x80070, 4)} 0x80040 [0x80068]" using demo_member by blast
  then obtain xs where m: "alloc_tree 0x80000 m (contents 0x80040 0) xs {(0x80048, 5), (0x80070, 4)}"
    "map snd xs = [0x80068]" by (rule set_ofE)
  have t: "alloc_tree 0x80000 m 0x80060 xs {(0x80048, 5), (0x80070, 4)}" using m(1) by (simp add: contents_def)
  have s: "sorted_by (\<lambda>d. d) xs" unfolding sorted_by_snd m(2) by simp
  have f: "foot find_node \<subseteq> below 0x80000" by (simp add: foot_def find_node_def below_def ctl_cells_def heap_cells)
  have x: "0x80068 \<in> snd ` set xs" using arg_cong [OF m(2), of set] by simp
  obtain m' r ys where d: "avl_delete m 0x80000 0x80060 0x80068 avl_basic_cmp = Some (m', r)"
    "alloc_tree 0x80000 m' 0x80060 ys {(0x80048, 5), (0x80070, 4)}"
    "r = 1 \<and> m' = m \<and> ys = xs \<and> 0x80068 \<notin> snd ` set xs \<or>
     r = 0 \<and> (\<exists>us vs. map snd xs = us @ 0x80068 # vs \<and> map snd ys = us @ vs)"
    using avl_delete_heap_correct [OF t s f, of "0x80068"] by (elim exE conjE) rule
  from d(3) x obtain us vs where r: "r = 0" "map snd xs = us @ 0x80068 # vs" "map snd ys = us @ vs" by metis
  have "length ys = 0"
    using arg_cong [OF r(2), of length] arg_cong [OF r(3), of length] arg_cong [OF m(2), of length] by simp
  then have "ys = []" by (simp only: length_0_conv)
  with d(1,2) r(1) t m(2) show ?thesis by metis
qed

subsection \<open>Sets\<close>

text \<open>
  C4. \<open>set_add\<close> with the order of the objects: the object becomes an element, at its place, unless an
  equal object is one already or the heap has no room for a node (\<open>alloc\<close> returns null in
  the memory in which the reference is counted already); every other object keeps its words. The count
  of references to the object grows in each of these cases, also when it was not added.
\<close>

theorem set_add_correct:
  assumes "set_of h m L s ds" "is_obj m L d" "d \<noteq> s"
  shows "\<exists>m' r es. set_add m h s d set_cmp = Some (m', r) \<and> set_of h m' L s es \<and>
    m' (refcount d) = m (refcount d) + 1 \<and>
    (\<forall>e. is_obj m L e \<and> e \<noteq> s \<longrightarrow> obj_key m' e = obj_key m e) \<and>
    (r = 1 \<and> es = ds \<and> (obj_key m d \<in> obj_key m ` set ds \<or> 
        alloc (m(refcount d := m (refcount d) + 1)) h 4 = Some (m(refcount d := m (refcount d) + 1), 0)) \<or>
     r = 0 \<and> obj_key m d \<notin> obj_key m ` set ds \<and>
       (\<exists>us vs. ds = us @ vs \<and> es = us @ d # vs))"
  by (rule set_add_ok [OF assms])

theorem set_add_correct_witness:
  "\<exists>m m'. set_of 0x80000 m {(0x80048, 5), (0x80070, 4)} 0x80040 [] \<and>
     set_add m 0x80000 0x80040 0x80068 set_cmp = Some (m', 0) \<and>
     set_of 0x80000 m' {(0x80048, 5), (0x80070, 4)} 0x80040 [0x80068]"
proof -
  obtain m where m: "set_of 0x80000 m {(0x80048, 5), (0x80070, 4)} 0x80040 []"
    "is_obj m {(0x80048, 5), (0x80070, 4)} 0x80068"
    "\<And>v. alloc (m(refcount 0x80068 := v)) 0x80000 4 \<noteq> Some (m(refcount 0x80068 := v), 0)"
    using demo_set by blast
  obtain m' where "set_add m 0x80000 0x80040 0x80068 set_cmp = Some (m', 0)"
    "set_of 0x80000 m' {(0x80048, 5), (0x80070, 4)} 0x80040 [0x80068]"
    using set_add_correct [OF m(1,2)] m(3) by auto
  with m(1) show ?thesis by blast
qed

text \<open>
  C23. \<open>in_set\<close> returns an element with the same words as the given object, and the null pointer when
  there is none.
\<close>

theorem in_set_correct:
  assumes "set_of h m L s ds" "is_obj m L d" "foot find_node \<subseteq> below h"
  shows "\<exists>p. in_set m s d = Some p \<and>
    (p = 0 \<and> obj_words m d \<notin> obj_words m ` set ds \<or> p \<in> set ds \<and> obj_words m p = obj_words m d)"
proof -
  obtain p xs where p: "avl_find m (contents s 0) d set_cmp = Some p" "alloc_tree h m (contents s 0) xs L"
    "map snd xs = ds" "p = 0 \<and> obj_key m d \<notin> obj_key m ` set ds \<or>
      p \<noteq> 0 \<and> (\<exists>us e vs. xs = us @ (p, e) # vs \<and> obj_key m e = obj_key m d)"
    using set_find [OF assms] by blast
  show ?thesis
  proof (cases "p = 0")
    case True
    then have "obj_words m d \<notin> obj_words m ` set ds" using p(4) by (auto simp: image_iff obj_key_eq)
    then show ?thesis using p(1) True by (simp add: in_set_def)
  next
    case False
    then obtain us e vs where e: "xs = us @ (p, e) # vs" "obj_key m e = obj_key m d" using p(4) by blast
    have "nd_data m p = e" using p(2) e(1) holds_data unfolding alloc_tree_def by fastforce
    moreover have "e \<in> set ds" using e(1) p(3) by auto
    ultimately show ?thesis using p(1) False e(2) by (simp add: in_set_def obj_key_eq)
  qed
qed

theorem in_set_correct_witness:
  "\<exists>m. set_of 0x80000 m {(0x80048, 5), (0x80070, 4)} 0x80040 [0x80068] \<and>
     in_set m 0x80040 0x80068 = Some 0x80068"
proof -
  obtain m where m: "set_of 0x80000 m {(0x80048, 5), (0x80070, 4)} 0x80040 [0x80068]"
    "is_obj m {(0x80048, 5), (0x80070, 4)} 0x80068" using demo_member by blast
  have "foot find_node \<subseteq> below 0x80000" by (simp add: foot_def find_node_def below_def ctl_cells_def heap_cells)
  from in_set_correct [OF m this] m(1) show ?thesis by auto
qed

end
