(* ===== verification/Collector.thy ===== *)
theory Collector
  imports Gc Set_Props
begin

text \<open>
  The blocks the collector looks after: \<open>gc_alloc\<close>, \<open>gc_add\<close> and \<open>gc_free\<close> keep the tree of its set, the
  counter of the heap and the set of live blocks in step.
\<close>

subsection \<open>Blocks beside a tree\<close>

text \<open>A client takes a block from the heap of an ordered tree, and gives one back.\<close>

lemma client_asks:
  assumes T: "alloc_tree h m tr xs L"
  shows "\<exists>m1 p. alloc m h n = Some (m1, p) \<and> (p = 0 \<longrightarrow> m1 = m)"
proof -
  obtain N where "nodes_ok h m N L tr xs" using T unfolding alloc_tree_def by blast
  from alloc_inv [OF nodes_okD(1) [OF this], of n] show ?thesis by blast
qed

lemma client_alloc:
  assumes T: "alloc_tree h m tr xs L" and a: "alloc m h n = Some (m1, p)" "p \<noteq> 0"
  shows "\<exists>s. need n \<le> s \<and> p \<notin> fst ` L \<and> alloc_tree h m1 tr xs (insert (p, s) L) \<and> keeps (below h) L m m1"
proof -
  obtain N where n: "nodes_ok h m N L tr xs" and t: "holds m tr xs"
    using T unfolding alloc_tree_def by blast
  note d = nodes_okD [OF n]
  obtain s where s: "need n \<le> s" "p \<notin> fst ` (N \<union> L)" "heap_inv h m1 (insert (p, s) (N \<union> L))"
    "keeps (below h) (N \<union> L) m m1"
    using alloc_inv [OF d(1), of n] a by auto
  have "nodes_ok h m1 N (insert (p, s) L) tr xs"
    using s(2,3) d(2-4) unfolding nodes_ok_def by auto
  moreover have "holds m1 tr xs" by (rule holds_kept [OF t n s(4)])
  ultimately have "alloc_tree h m1 tr xs (insert (p, s) L)" unfolding alloc_tree_def by blast
  moreover have "keeps (below h) L m m1" by (rule keeps_subset [OF s(4)]) simp
  ultimately show ?thesis using s(1,2) by auto
qed

lemma client_free:
  assumes T: "alloc_tree h m tr xs (insert (p, s) L)" and p: "p \<notin> fst ` L" and r: "tr \<in> below h \<union> area L"
  shows "\<exists>m'. free m h p = Some m' \<and> alloc_tree h m' tr xs L \<and> keeps (below h) L m m'"
proof -
  obtain N where n: "nodes_ok h m N (insert (p, s) L) tr xs" and t: "holds m tr xs"
    using T unfolding alloc_tree_def by blast
  note d = nodes_okD [OF n]
  have i: "heap_inv h m (insert (p, s) (N \<union> L))" using d(1) by simp
  have "p \<notin> fst ` (N \<union> L)" using p d(2) by auto
  from free_inv [OF i this] obtain m' where m': "free m h p = Some m'" "heap_inv h m' (N \<union> L)"
    "keeps (below h) (N \<union> L) m m'" by blast
  have n': "nodes_ok h m' N L tr xs" using m'(2) d(2,3) r unfolding nodes_ok_def by auto
  have "holds m' tr xs" by (rule holds_kept [OF t n' m'(3)])
  with n' have "alloc_tree h m' tr xs L" unfolding alloc_tree_def by blast
  moreover have "keeps (below h) L m m'" by (rule keeps_subset [OF m'(3)]) simp
  ultimately show ?thesis using m'(1) by blast
qed

lemma client_apart:
  assumes "alloc_tree h m tr xs L"
  shows "area L \<inter> below h = {}" "\<And>p s K. L = insert (p, s) K \<Longrightarrow> p \<notin> fst ` K \<Longrightarrow> payload p s \<inter> area K = {}"
proof -
  obtain N where n: "nodes_ok h m N L tr xs" using assms unfolding alloc_tree_def by blast
  note d = nodes_okD [OF n]
  show "area L \<inter> below h = {}" using live_below [OF d(1)] by auto
  fix p s K assume L: "L = insert (p, s) K" and p: "p \<notin> fst ` K"
  have "heap_inv h m (insert (p, s) (N \<union> K))" using d(1) L by simp
  moreover have "p \<notin> fst ` (N \<union> K)" using d(2) L p by auto
  ultimately show "payload p s \<inter> area K = {}" using heap.apart_area by fastforce
qed

subsection \<open>The state of the collector\<close>

text \<open>
  The blocks \<open>ps\<close> are collected: the tree of the collector's set holds their addresses in order,
  they are live, and \<^verbatim>\<open>gc_num_alloced\<close> counts them. The root of the tree is a word of a live block that
  is not itself collected.
\<close>

definition uncollected :: "u64 list \<Rightarrow> (u64 \<times> u64) set \<Rightarrow> (u64 \<times> u64) set" where
  "uncollected ps L = {(p, s) \<in> L. p \<notin> set ps}"

definition collected :: "u64 \<Rightarrow> mem \<Rightarrow> (u64 \<times> u64) set \<Rightarrow> u64 list \<Rightarrow> bool" where
  "collected h m L ps \<longleftrightarrow> (\<exists>xs. alloc_tree h m (gc_tree m h) xs L \<and> map snd xs = ps) \<and>
     sorted_wrt (<) ps \<and> set ps \<subseteq> fst ` L \<and> gc_tree m h \<in> area (uncollected ps L) \<and>
     m (gc_num_alloced h) = of_nat (length ps)"

text \<open>What the operations may change: the counter, the root of the tree, and the heap.\<close>

definition collector_keeps :: "u64 \<Rightarrow> (u64 \<times> u64) set \<Rightarrow> mem \<Rightarrow> mem \<Rightarrow> bool" where
  "collector_keeps h L m m' \<longleftrightarrow>
     (\<forall>x \<in> below h \<union> area L. x \<noteq> gc_tree m h \<and> x \<noteq> gc_num_alloced h \<longrightarrow> m' x = m x)"

lemma uncollected_area: "area (uncollected ps L) \<subseteq> area L"
  by (rule area_mono) (auto simp: uncollected_def)

lemma collectedE:
  assumes "collected h m L ps"
  obtains xs where "alloc_tree h m (gc_tree m h) xs L" "map snd xs = ps" "sorted_by (\<lambda>d. d) xs"
    "set ps \<subseteq> fst ` L" "gc_tree m h \<in> area (uncollected ps L)" "gc_tree m h \<in> area L"
    "m (gc_num_alloced h) = of_nat (length ps)"
  using assms uncollected_area [of ps L] unfolding collected_def sorted_by_snd by blast

lemma collectedI:
  assumes "alloc_tree h m (gc_tree m h) xs L" "sorted_by (\<lambda>d. d) xs" "snd ` set xs \<subseteq> fst ` L"
    "gc_tree m h \<in> area (uncollected (map snd xs) L)" "m (gc_num_alloced h) = of_nat (length xs)"
  shows "collected h m L (map snd xs)"
  using assms unfolding collected_def sorted_by_snd by auto

text \<open>The fields of the collector in the header of a heap are not the allocator's.\<close>

lemma collector_cells:
  assumes "alloc_tree h m tr xs L"
  shows "gc_set h \<in> below h" "gc_num_alloced h \<in> below h"
proof -
  obtain bs where b: "heap_ok m h bs"
    using assms unfolding alloc_tree_def nodes_ok_def heap_inv_def by blast
  have lt: "unat h + 64 < 2 ^ 64" using tiles_le [OF heap_okD(3) [OF b]] heap_okD(2) [OF b] by simp
  show "gc_set h \<in> below h" "gc_num_alloced h \<in> below h"
    unfolding below_def
    using lt by (simp_all add: gc_set_def gc_num_alloced_def ctl_cells_def heap_cells unat_word_ariths)
qed

lemma cells_not_root:
  assumes T: "alloc_tree h m tr xs L" and r: "tr \<in> area L"
  shows "gc_set h \<noteq> tr" "gc_num_alloced h \<noteq> tr"
proof -
  have "tr \<notin> below h" using client_apart(1) [OF T] r by (meson disjoint_iff)
  then show "gc_set h \<noteq> tr" "gc_num_alloced h \<noteq> tr" using collector_cells [OF T] by metis+
qed

lemma gc_cells_distinct: "gc_set h \<noteq> gc_num_alloced h"
  by (simp add: gc_set_def gc_num_alloced_def)

subsection \<open>Allocation\<close>

text \<open>Steps that change the tree, the root cell and the counter only.\<close>

lemma collector_keepsI:
  assumes "undisturbed h (gc_tree m h) L m m1" "\<And>x. x \<noteq> gc_num_alloced h \<Longrightarrow> m' x = m1 x"
  shows "collector_keeps h L m m'"
  using assms unfolding collector_keeps_def undisturbed_def by simp

lemma gc_tree_kept:
  assumes "alloc_tree h m (gc_tree m h) xs L" "undisturbed h (gc_tree m h) L m m'" "gc_tree m h \<in> area L"
  shows "gc_tree m' h = gc_tree m h"
proof -
  have "gc_set h \<noteq> gc_tree m h" by (rule cells_not_root(1) [OF assms(1,3)])
  then have "m' (gc_set h) = m (gc_set h)"
    using assms(2) collector_cells(1) [OF assms(1)] unfolding undisturbed_def by blast
  then show ?thesis by (simp add: gc_tree_def)
qed

lemma count_tree:
  assumes T: "alloc_tree h m (gc_tree m h) xs L" and r: "gc_tree m h \<in> area L"
  shows "alloc_tree h (m(gc_num_alloced h := v)) (gc_tree m h) xs L"
    "gc_tree (m(gc_num_alloced h := v)) h = gc_tree m h"
proof -
  have "gc_num_alloced h \<noteq> gc_tree m h" by (rule cells_not_root(2) [OF T r])
  then show "alloc_tree h (m(gc_num_alloced h := v)) (gc_tree m h) xs L"
    using collector_cells(2) [OF T] by (intro alloc_tree_write [OF T]) auto
  show "gc_tree (m(gc_num_alloced h := v)) h = gc_tree m h"
    using gc_cells_distinct by (simp add: gc_tree_def)
qed

lemma gc_count_kept:
  assumes "alloc_tree h m tr xs L" "undisturbed h tr L m m'" "tr \<in> area L"
  shows "m' (gc_num_alloced h) = m (gc_num_alloced h)"
proof -
  have "gc_num_alloced h \<noteq> tr" by (rule cells_not_root(2) [OF assms(1,3)])
  then show ?thesis using assms(2) collector_cells(2) [OF assms(1)] unfolding undisturbed_def by blast
qed

text \<open>The address of a live block that is not collected yet becomes an element, unless the heap has no room.\<close>

lemma collect_block:
  assumes T: "alloc_tree h m (gc_tree m h) xs L" and s: "sorted_by (\<lambda>d. d) xs" "snd ` set xs \<subseteq> fst ` L"
    and r: "gc_tree m h \<in> area (uncollected (map snd xs) L)" "gc_tree m h \<in> area (uncollected (p # map snd xs) L)"
    and c: "m (gc_num_alloced h) = of_nat (length xs)" and p: "p \<in> fst ` L" "p \<notin> snd ` set xs"
  shows "\<exists>m1 k. avl_insert m h (gc_tree m h) p avl_basic_cmp = Some (m1, k) \<and>
    undisturbed h (gc_tree m h) L m m1 \<and>
    (k = 1 \<and> alloc m h 4 = Some (m, 0) \<and> collected h m1 L (map snd xs) \<or>
     k = 0 \<and> (\<exists>us vs. map snd xs = us @ vs \<and>
       collected h (m1(gc_num_alloced h := m1 (gc_num_alloced h) + 1)) L (us @ p # vs)))"
proof -
  have rL: "gc_tree m h \<in> area L" using r(1) uncollected_area by blast
  obtain m1 k ys where i: "avl_insert m h (gc_tree m h) p avl_basic_cmp = Some (m1, k)"
    "alloc_tree h m1 (gc_tree m h) ys L" "sorted_by (\<lambda>d. d) ys" "undisturbed h (gc_tree m h) L m m1"
    "k = 1 \<and> ys = xs \<and> alloc m h 4 = Some (m, 0) \<or> k = 0 \<and> (\<exists>x us vs. xs = us @ vs \<and> ys = us @ (x, p) # vs)"
    using basic.avl_insert_tree [OF T s(1) allI, of p] p(2) by (simp only: image_ident ball_triv simp_thms) blast
  note tr = gc_tree_kept [OF T i(4) rL]
  note cn = gc_count_kept [OF T i(4) rL]
  from i(5) show ?thesis
  proof (elim disjE conjE exE)
    assume "k = 1" "ys = xs" "alloc m h 4 = Some (m, 0)"
    moreover have "collected h m1 L (map snd xs)"
      using i(2,3) \<open>ys = xs\<close> s(2) r(1) c by (intro collectedI) (simp_all add: tr cn)
    ultimately show ?thesis using i(1,4) by blast
  next
    fix x us vs assume k: "k = 0" and d: "xs = us @ vs" "ys = us @ (x, p) # vs"
    let ?m = "m1(gc_num_alloced h := m1 (gc_num_alloced h) + 1)"
    note ct = count_tree [OF i(2) [folded tr] rL [folded tr], of "m1 (gc_num_alloced h) + 1"]
    have u: "uncollected (map snd ys) L = uncollected (p # map snd xs) L"
      using d by (auto simp: uncollected_def)
    have "collected h ?m L (map snd ys)"
    proof (rule collectedI)
      show "alloc_tree h ?m (gc_tree ?m h) ys L" using ct by simp
      show "sorted_by (\<lambda>d. d) ys" by (fact i(3))
      show "snd ` set ys \<subseteq> fst ` L" using s(2) p(1) d by auto
      show "gc_tree ?m h \<in> area (uncollected (map snd ys) L)" using r(2) ct(2) tr u by simp
      show "?m (gc_num_alloced h) = of_nat (length ys)" using c cn d by simp
    qed
    moreover have "map snd ys = map snd us @ p # map snd vs" "map snd xs = map snd us @ map snd vs"
      using d by simp_all
    ultimately show ?thesis using i(1,4) k by metis
  qed
qed

text \<open>A block that is not collected is freed.\<close>

lemma uncollect_block:
  assumes C: "collected h m (insert (p, s) L) ps" and p: "p \<notin> fst ` L" "p \<notin> set ps"
    and r: "gc_tree m h \<notin> payload p s"
  shows "\<exists>m'. free m h p = Some m' \<and> collected h m' L ps \<and> keeps (below h) L m m'"
proof -
  let ?L = "insert (p, s) L"
  obtain xs where xs: "alloc_tree h m (gc_tree m h) xs ?L" "map snd xs = ps" "sorted_by (\<lambda>d. d) xs"
    "set ps \<subseteq> fst ` ?L" "gc_tree m h \<in> area (uncollected ps ?L)" "gc_tree m h \<in> area ?L"
    "m (gc_num_alloced h) = of_nat (length ps)"
    using C by (rule collectedE)
  have "uncollected ps ?L = insert (p, s) (uncollected ps L)" using p(2) by (auto simp: uncollected_def)
  then have ar: "gc_tree m h \<in> area (uncollected ps L)" using xs(5) r by simp
  then have "gc_tree m h \<in> below h \<union> area L" using uncollected_area by blast
  from client_free [OF xs(1) p(1) this] obtain m' where m': "free m h p = Some m'"
    "alloc_tree h m' (gc_tree m h) xs L" "keeps (below h) L m m'" by blast
  have k: "m' (gc_set h) = m (gc_set h)" "m' (gc_num_alloced h) = m (gc_num_alloced h)"
    using m'(3) collector_cells [OF xs(1)] unfolding keeps_def by blast+
  then have tr: "gc_tree m' h = gc_tree m h" by (simp add: gc_tree_def)
  have "collected h m' L (map snd xs)"
  proof (rule collectedI)
    have "snd ` set xs = set ps" unfolding xs(2) [symmetric] by simp
    then show "snd ` set xs \<subseteq> fst ` L" using xs(4) p(2) by (simp add: subset_insert)
  qed (use m'(2) xs(2,3,7) ar k tr in auto)
  then show ?thesis using m'(1,3) xs(2) by blast
qed

lemma gc_add_collects:
  assumes C: "collected h m L ps" and p: "obj + 8 \<in> fst ` L" "obj + 8 \<notin> set ps"
    and r: "gc_tree m h \<in> area (uncollected ((obj + 8) # ps) L)"
  shows "\<exists>m' k. gc_add m h obj = Some (m', k) \<and> collector_keeps h L m m' \<and>
    (k = 1 \<and> alloc m h 4 = Some (m, 0) \<and> collected h m' L ps \<or>
     k = 0 \<and> (\<exists>us vs. ps = us @ vs \<and> collected h m' L (us @ (obj + 8) # vs)))"
proof -
  obtain xs where xs: "alloc_tree h m (gc_tree m h) xs L" "map snd xs = ps" "sorted_by (\<lambda>d. d) xs"
    "set ps \<subseteq> fst ` L" "gc_tree m h \<in> area (uncollected ps L)" "m (gc_num_alloced h) = of_nat (length ps)"
    using C by (rule collectedE)
  have "snd ` set xs \<subseteq> fst ` L" "obj + 8 \<notin> snd ` set xs" "m (gc_num_alloced h) = of_nat (length xs)"
    using xs(4,6) p(2) unfolding xs(2) [symmetric] by simp_all
  from collect_block [OF xs(1,3) this(1) xs(5) [folded xs(2)] r [folded xs(2)] this(3) p(1) this(2)]
  obtain m1 k where i: "avl_insert m h (gc_tree m h) (obj + 8) avl_basic_cmp = Some (m1, k)"
    "undisturbed h (gc_tree m h) L m m1"
    "k = 1 \<and> alloc m h 4 = Some (m, 0) \<and> collected h m1 L ps \<or>
     k = 0 \<and> (\<exists>us vs. ps = us @ vs \<and>
       collected h (m1(gc_num_alloced h := m1 (gc_num_alloced h) + 1)) L (us @ (obj + 8) # vs))"
    unfolding xs(2) by blast
  let ?m = "if k = 0 then m1(gc_num_alloced h := m1 (gc_num_alloced h) + 1) else m1"
  have "gc_add m h obj = Some (?m, k)" using i(1) by (simp add: gc_add_def)
  moreover have "collector_keeps h L m ?m" by (rule collector_keepsI [OF i(2)]) simp
  ultimately show ?thesis using i(3) by auto
qed

subsection \<open>Release\<close>

lemma live_once:
  assumes "alloc_tree h m tr xs L" "(p, s) \<in> L" "(p, k) \<in> L"
  shows "k = s"
proof -
  obtain N where n: "nodes_ok h m N L tr xs" using assms(1) unfolding alloc_tree_def by blast
  show ?thesis by (rule live_size [OF nodes_okD(1) [OF n]]) (use assms(2,3) in blast)+
qed

lemma live_address:
  assumes "alloc_tree h m tr xs L" "(p, s) \<in> L"
  shows "p \<noteq> 0"
proof -
  obtain N where n: "nodes_ok h m N L tr xs" using assms(1) unfolding alloc_tree_def by blast
  have "unat h + 72 \<le> unat p" by (rule live_facts(4) [OF nodes_okD(1) [OF n]]) (use assms(2) in blast)
  then show ?thesis by auto
qed

lemma tree_data:
  assumes "alloc_tree h m tr xs L" "(q, d) \<in> set xs"
  shows "nd_data m q = d"
proof -
  obtain N where "holds m tr xs" using assms(1) unfolding alloc_tree_def by blast
  from holds_data [OF this] assms(2) show ?thesis by blast
qed

text \<open>The address leaves the tree, and the block is freed.\<close>

lemma gc_free_releases:
  assumes C: "collected h m (insert (p, s) L) ps" and p: "p \<notin> fst ` L" "p \<in> set ps"
    and f: "foot find_node \<subseteq> below h"
  shows "\<exists>m' us vs. gc_free m h p = Some m' \<and> ps = us @ p # vs \<and> collected h m' L (us @ vs) \<and>
    collector_keeps h L m m'"
proof -
  let ?L = "insert (p, s) L"
  let ?tr = "gc_tree m h"
  obtain xs where xs: "alloc_tree h m ?tr xs ?L" "map snd xs = ps" "sorted_by (\<lambda>d. d) xs"
    "set ps \<subseteq> fst ` ?L" "?tr \<in> area (uncollected ps ?L)" "?tr \<in> area ?L"
    "m (gc_num_alloced h) = of_nat (length ps)"
    using C by (rule collectedE)
  have sd: "snd ` set xs = set ps" unfolding xs(2) [symmetric] by simp
  have "\<forall>(a, d) \<in> set xs. d = d" by simp
  from basic.find_tree [OF xs(1,3) f this refl] p(2) obtain q us vs where
    q: "avl_find m ?tr p avl_basic_cmp = Some q" "q \<noteq> 0" "xs = us @ (q, p) # vs"
    unfolding sd image_ident by blast
  obtain m1 x m2 zs where z: "avl_delete_node m ?tr q = Some (m1, x)" "x \<noteq> 0" "free m1 h x = Some m2"
    "alloc_tree h m2 ?tr zs ?L" "map snd zs = map snd (us @ vs)" "undisturbed h ?tr ?L m m2"
    using delete_found [OF xs(1) q(3)] by blast
  have p0: "p \<noteq> 0" by (rule live_address [OF xs(1) insertI1])
  have "nd_data m q = p" by (rule tree_data [OF xs(1)]) (simp add: q(3))
  then have rm: "set_remove m h (m (gc_set h)) p avl_basic_cmp = Some (m2, p)"
    using q(1,2) z(1-3) by (simp add: set_remove_def gc_tree_def)
  have un: "uncollected ps ?L = uncollected ps L" using p(2) by (auto simp: uncollected_def)
  have ar: "?tr \<in> area L" using xs(5) uncollected_area unfolding un by blast
  from client_free [OF z(4) p(1)] ar obtain m3 where m3: "free m2 h p = Some m3"
    "alloc_tree h m3 ?tr zs L" "keeps (below h) L m2 m3" by blast
  let ?m = "m3(gc_num_alloced h := m3 (gc_num_alloced h) - 1)"
  have u: "undisturbed h ?tr L m m3"
    using z(6) m3(3) unfolding undisturbed_def keeps_def by auto
  have k: "gc_tree m3 h = ?tr" "m3 (gc_num_alloced h) = m (gc_num_alloced h)"
    using cells_not_root [OF m3(2) ar] collector_cells [OF m3(2)] u
    unfolding undisturbed_def gc_tree_def by auto
  note ct = count_tree [OF m3(2) [folded k(1)] ar [folded k(1)], of "m3 (gc_num_alloced h) - 1"]
  have ps: "ps = map snd us @ p # map snd vs" unfolding xs(2) [symmetric] q(3) by simp
  have zs: "map snd zs = map snd us @ map snd vs" using z(5) by simp
  have srt: "sorted_wrt (<) (map snd us @ p # map snd vs)" using xs(3) unfolding sorted_by_snd xs(2) ps .
  then have np: "p \<notin> set (map snd zs)" unfolding zs by (auto simp: sorted_wrt_append)
  have sub: "set (map snd zs) \<subseteq> fst ` L" using xs(4) np unfolding ps zs by auto
  have "collected h ?m L (map snd zs)"
  proof (rule collectedI)
    show "alloc_tree h ?m (gc_tree ?m h) zs L" using ct k(1) by simp
    show "sorted_by (\<lambda>d. d) zs" using srt unfolding sorted_by_snd zs by (auto simp: sorted_wrt_append)
    show "snd ` set zs \<subseteq> fst ` L" using sub by simp
    have "uncollected ps L \<subseteq> uncollected (map snd zs) L" unfolding ps zs by (auto simp: uncollected_def)
    then show "gc_tree ?m h \<in> area (uncollected (map snd zs) L)"
      using xs(5) area_mono unfolding ct(2) k(1) un by blast
    have "length ps = Suc (length zs)" using ps arg_cong [OF zs, of length] by simp
    then show "?m (gc_num_alloced h) = of_nat (length zs)" using k(2) xs(7) by simp
  qed
  moreover have "gc_free m h p = Some ?m" using rm p0 m3(1) by (simp add: gc_free_def)
  moreover have "collector_keeps h L m ?m" by (rule collector_keepsI [OF u]) simp
  ultimately show ?thesis using ps zs by metis
qed

text \<open>
  For an address that is not collected \<open>gc_free\<close> frees nothing, but counts a release all the same.
\<close>

lemma gc_free_stray:
  assumes C: "collected h m L ps" and p: "p \<notin> set ps" and f: "foot find_node \<subseteq> below h"
  shows "gc_free m h p = Some (m(gc_num_alloced h := of_nat (length ps) - 1))"
proof -
  obtain xs where xs: "alloc_tree h m (gc_tree m h) xs L" "map snd xs = ps" "sorted_by (\<lambda>d. d) xs"
    "m (gc_num_alloced h) = of_nat (length ps)"
    using C by (rule collectedE)
  have sd: "snd ` set xs = set ps" unfolding xs(2) [symmetric] by simp
  have "\<forall>(a, d) \<in> set xs. d = d" by simp
  from basic.find_tree [OF xs(1,3) f this refl, of p]
  have "avl_find m (gc_tree m h) p avl_basic_cmp = Some 0"
    using p unfolding sd [symmetric] by (auto simp: image_iff)
  then show ?thesis using xs(4) by (simp add: gc_free_def set_remove_def gc_tree_def)
qed

subsection \<open>A concrete collector\<close>

lemma demo_collector:
  "\<exists>m m'. collected 0x80000 m {(0x80048, 5), (0x80070, 4)} [] \<and>
     (\<exists>m1. alloc m 0x80000 3 = Some (m1, 0x80090) \<and> alloc m1 0x80000 4 \<noteq> Some (m1, 0)) \<and>
     collected 0x80000 m' {(0x80048, 5), (0x80070, 4)} [0x80070]"
proof -
  let ?L = "{(0x80048, 5), (0x80070, 4)} :: (u64 \<times> u64) set"
  let ?us = "[(0x80040, 5, True), (0x80068, 4, True)] :: block list"
  obtain m0 where "heap_ok m0 0x80000 [(0x80040, 5, True), (0x80068, 4, True), (0x80088, 83, False)]"
    using demo_blocks by blast
  then have "heap_ok m0 0x80000 (?us @ [(0x80088, 83, False)])" by simp
  from write_ok [OF this, where p = "0x80048" and s = 5 and x = "0x80060" and v = 0]
  have h0: "heap_ok (m0(0x80060 := 0)) 0x80000 (?us @ [(0x80088, 83, False)])"
    by (simp add: payload_def)
  let ?m = "m0(0x80060 := 0, gc_set 0x80000 := 0x80040, gc_num_alloced 0x80000 := 0)"
  have b: "gc_set 0x80000 \<in> below 0x80000" "gc_num_alloced 0x80000 \<in> below 0x80000"
    by (simp_all add: below_def gc_set_def gc_num_alloced_def ctl_cells_def heap_cells)
  have h: "heap_ok ?m 0x80000 (?us @ [(0x80088, 83, False)])"
    by (rule write_below_ok [OF write_below_ok [OF h0 b(1)] b(2)])
  have i: "heap_inv 0x80000 ?m ?L" by (rule heap_invI [OF h]) (simp add: insert_commute)
  have tr: "gc_tree ?m 0x80000 = 0x80060"
    by (simp add: gc_tree_def gc_set_def gc_num_alloced_def contents_def)
  have "holds ?m 0x80060 []" by (rule empty_tree) (simp add: gc_set_def gc_num_alloced_def)
  moreover have "nodes_ok 0x80000 ?m {} ?L 0x80060 []"
    using i by (simp add: nodes_ok_def node_blocks_def payload_def)
  ultimately have t: "alloc_tree 0x80000 ?m (gc_tree ?m 0x80000) [] ?L"
    unfolding alloc_tree_def tr by blast
  have ar: "gc_tree ?m 0x80000 \<in> area (uncollected ps ?L)" if "0x80048 \<notin> set ps" for ps
  proof -
    have "(0x80048, 5) \<in> uncollected ps ?L" using that by (simp add: uncollected_def)
    moreover have "0x80060 \<in> payload 0x80048 5" by (simp add: payload_def)
    ultimately show ?thesis unfolding tr in_area by blast
  qed
  have c: "collected 0x80000 ?m ?L (map snd ([] :: (u64 \<times> u64) list))"
    by (rule collectedI [OF t]) (use ar [of "[]"] in simp_all)
  have n: "need 3 = 4" "need 4 = 5" by (simp_all add: need_def umds_sz_def min_alloc_sz_def)
  have a4: "\<exists>m'. alloc ?m 0x80000 4 = Some (m', 0x80090)"
    using alloc_last [OF h, of 4] by (auto simp: n min_alloc_sz_def)
  obtain m1 where m1: "alloc ?m 0x80000 3 = Some (m1, 0x80090)"
    "heap_ok m1 0x80000 ((?us @ [(0x80088, 4, True)]) @ [(0x800a8, 79, False)])"
    using alloc_last [OF h, of 3] by (auto simp: n min_alloc_sz_def)
  have "\<exists>m'. alloc m1 0x80000 4 = Some (m', 0x800b0)"
    using alloc_last [OF m1(2), of 4] by (auto simp: n min_alloc_sz_def)
  then have "alloc m1 0x80000 4 \<noteq> Some (m1, 0)" by auto
  moreover obtain m' where "collected 0x80000 m' ?L [0x80070]"
    using gc_add_collects [OF c [simplified], of "0x80068"] ar [of "[0x80070]"] a4 by auto
  ultimately show ?thesis using c m1(1) by auto
qed

subsection \<open>The properties\<close>

text \<open>
  C10. \<open>gc_alloc\<close> returns a new block that is collected from then on, or null when the heap has no room
  for the block or for the node with its address. The collector's tree, its counter and the live
  blocks stay in step, and no other client loses a word.
\<close>

theorem gc_alloc_correct:
  assumes C: "collected h m L ps"
  shows "\<exists>m' p. gc_alloc m h n = Some (m', p) \<and> collector_keeps h L m m' \<and>
    (p = 0 \<and> collected h m' L ps \<and>
       (alloc m h n = Some (m, 0) \<or> (\<exists>m1 q. alloc m h n = Some (m1, q) \<and> alloc m1 h 4 = Some (m1, 0))) \<or>
     p \<noteq> 0 \<and> p \<notin> fst ` L \<and> (\<exists>s us vs. need n \<le> s \<and> ps = us @ vs \<and>
       collected h m' (insert (p, s) L) (us @ p # vs)))"
proof -
  obtain xs where xs: "alloc_tree h m (gc_tree m h) xs L" "map snd xs = ps" "sorted_by (\<lambda>d. d) xs"
    "set ps \<subseteq> fst ` L" "gc_tree m h \<in> area (uncollected ps L)" "gc_tree m h \<in> area L"
    "m (gc_num_alloced h) = of_nat (length ps)"
    using C by (rule collectedE)
  obtain m1 p where al: "alloc m h n = Some (m1, p)" "p = 0 \<Longrightarrow> m1 = m"
    using client_asks [OF xs(1)] by blast
  show ?thesis
  proof (cases "p = 0")
    case True
    then have "gc_alloc m h n = Some (m, 0)" "alloc m h n = Some (m, 0)"
      using al by (simp_all add: gc_alloc_def)
    then show ?thesis using C by (auto simp: collector_keeps_def)
  next
    case p0: False
    obtain s where s: "need n \<le> s" "p \<notin> fst ` L" "alloc_tree h m1 (gc_tree m h) xs (insert (p, s) L)"
      "keeps (below h) L m m1"
      using client_alloc [OF xs(1) al(1) p0] by blast
    let ?L = "insert (p, s) L"
    have k1: "m1 (gc_set h) = m (gc_set h)" "m1 (gc_num_alloced h) = m (gc_num_alloced h)"
      using s(4) collector_cells [OF xs(1)] unfolding keeps_def by blast+
    have tr: "gc_tree m1 h = gc_tree m h" using k1(1) by (simp add: gc_tree_def)
    have u1: "undisturbed h (gc_tree m h) L m m1" by (rule keeps_undisturbed [OF s(4) order.refl])
    have new: "p \<notin> set ps" using s(2) xs(4) by blast
    have ar: "gc_tree m h \<in> area (uncollected (map snd xs) ?L)"
      "gc_tree m h \<in> area (uncollected (p # map snd xs) ?L)"
    proof -
      have "uncollected ps L \<subseteq> uncollected (p # ps) ?L" "uncollected ps L \<subseteq> uncollected ps ?L"
        using s(2) by (force simp: uncollected_def)+
      then show "gc_tree m h \<in> area (uncollected (map snd xs) ?L)"
        "gc_tree m h \<in> area (uncollected (p # map snd xs) ?L)"
        using area_mono xs(2,5) by blast+
    qed
    have sub: "snd ` set xs \<subseteq> fst ` ?L" "p \<in> fst ` ?L" "p \<notin> snd ` set xs"
      "m1 (gc_num_alloced h) = of_nat (length xs)"
      using xs(4,7) new k1(2) unfolding xs(2) [symmetric] by auto
    from collect_block [OF s(3) [folded tr] xs(3) sub(1) ar [folded tr] sub(4,2,3)]
    obtain m2 k where i: "avl_insert m1 h (gc_tree m h) p avl_basic_cmp = Some (m2, k)"
      "undisturbed h (gc_tree m h) ?L m1 m2"
      "k = 1 \<and> alloc m1 h 4 = Some (m1, 0) \<and> collected h m2 ?L ps \<or>
       k = 0 \<and> (\<exists>us vs. ps = us @ vs \<and>
         collected h (m2(gc_num_alloced h := m2 (gc_num_alloced h) + 1)) ?L (us @ p # vs))"
      unfolding tr xs(2) by blast
    note t2 = gc_tree_kept [OF s(3) [folded tr] i(2) [folded tr], unfolded tr]
    have root: "gc_tree m2 h \<notin> payload p s"
      using client_apart(2) [OF s(3) refl s(2)] xs(6) t2 by auto
    have u2: "undisturbed h (gc_tree m h) L m m2"
      using u1 i(2) unfolding undisturbed_def by auto
    from i(3) show ?thesis
    proof (elim disjE conjE exE)
      assume k: "k = 1" and a4: "alloc m1 h 4 = Some (m1, 0)" and c: "collected h m2 ?L ps"
      obtain m3 where m3: "free m2 h p = Some m3" "collected h m3 L ps" "keeps (below h) L m2 m3"
        using uncollect_block [OF c s(2) new] root by blast
      have "gc_alloc m h n = Some (m3, 0)" using al(1) p0 i(1) k m3(1) tr by (simp add: gc_alloc_def)
      moreover have "collector_keeps h L m m3"
        using u2 m3(3) unfolding collector_keeps_def undisturbed_def keeps_def by simp
      ultimately show ?thesis using m3(2) al(1) a4 by blast
    next
      fix us vs assume k: "k = 0" and d: "ps = us @ vs"
        and c: "collected h (m2(gc_num_alloced h := m2 (gc_num_alloced h) + 1)) ?L (us @ p # vs)"
      have "gc_alloc m h n = Some (m2(gc_num_alloced h := m2 (gc_num_alloced h) + 1), p)"
        using al(1) p0 i(1) k tr by (simp add: gc_alloc_def)
      moreover have "collector_keeps h L m (m2(gc_num_alloced h := m2 (gc_num_alloced h) + 1))"
        by (rule collector_keepsI [OF u2]) simp
      ultimately show ?thesis using p0 s(1,2) d c by blast
    qed
  qed
qed

theorem gc_alloc_correct_witness:
  "\<exists>m m' p s. collected 0x80000 m {(0x80048, 5), (0x80070, 4)} [] \<and>
     gc_alloc m 0x80000 3 = Some (m', p) \<and> p \<noteq> 0 \<and>
     collected 0x80000 m' {(p, s), (0x80048, 5), (0x80070, 4)} [p]"
proof -
  obtain m m1 where m: "collected 0x80000 m {(0x80048, 5), (0x80070, 4)} []"
    "alloc m 0x80000 3 = Some (m1, 0x80090)" "alloc m1 0x80000 4 \<noteq> Some (m1, 0)"
    using demo_collector by blast
  from gc_alloc_correct [OF m(1), of 3] m(2,3) obtain m' p s where
    "gc_alloc m 0x80000 3 = Some (m', p)" "p \<noteq> 0"
    "collected 0x80000 m' {(p, s), (0x80048, 5), (0x80070, 4)} [p]" by auto
  with m(1) show ?thesis by blast
qed

text \<open>
  C11. \<open>gc_free\<close> takes a collected block out of the collector's tree, frees it and counts the release;
  the other blocks keep their words. For any other word, be it the address of a live block that is not
  collected, of a block that was freed already or no address of a block at all, it frees nothing
  but decrements the counter all the same.
\<close>

theorem gc_free_correct:
  assumes "collected h m L ps" "foot find_node \<subseteq> below h"
  shows "if p \<in> set ps
    then \<exists>m' us vs s. gc_free m h p = Some m' \<and> (p, s) \<in> L \<and> ps = us @ p # vs \<and>
      collected h m' (L - {(p, s)}) (us @ vs) \<and> collector_keeps h (L - {(p, s)}) m m'
    else gc_free m h p = Some (m(gc_num_alloced h := of_nat (length ps) - 1))"
proof (cases "p \<in> set ps")
  case True
  obtain xs where xs: "alloc_tree h m (gc_tree m h) xs L" "set ps \<subseteq> fst ` L"
    using assms(1) by (rule collectedE)
  then obtain s where s: "(p, s) \<in> L" using True by force
  have one: "p \<notin> fst ` (L - {(p, s)})" using live_once [OF xs(1) s] by auto
  have "collected h m (insert (p, s) (L - {(p, s)})) ps" using assms(1) s by (simp add: insert_absorb)
  from gc_free_releases [OF this one True assms(2)] s True show ?thesis by (simp only: if_True) blast
next
  case False
  then show ?thesis using gc_free_stray [OF assms(1) _ assms(2)] by simp
qed

theorem gc_free_correct_witness:
  "\<exists>m m'. collected 0x80000 m {(0x80048, 5), (0x80070, 4)} [0x80070] \<and>
     gc_free m 0x80000 0x80070 = Some m' \<and> collected 0x80000 m' {(0x80048, 5)} [] \<and>
     gc_free m 0x80000 0x90000 = Some (m(gc_num_alloced 0x80000 := 0))"
proof -
  obtain m where m: "collected 0x80000 m {(0x80048, 5), (0x80070, 4)} [0x80070]"
    using demo_collector by blast
  have f: "foot find_node \<subseteq> below 0x80000" by (simp add: foot_def find_node_def below_def ctl_cells_def heap_cells)
  have in_ps: "0x80070 \<in> set [0x80070 :: u64]" by simp
  from gc_free_correct [OF m f, of "0x80070", unfolded if_P [OF in_ps]] obtain m' us vs s where
    r: "gc_free m 0x80000 0x80070 = Some m'" "(0x80070 :: u64, s) \<in> {(0x80048, 5), (0x80070, 4)}" "[0x80070] = us @ 0x80070 # vs"
    "collected 0x80000 m' ({(0x80048, 5), (0x80070, 4)} - {(0x80070, s)}) (us @ vs)"
    by (elim exE conjE) rule
  have "length (us @ vs) = 0" using arg_cong [OF r(3), of length] by simp
  then have "us @ vs = []" by (simp only: length_0_conv)
  moreover have "{(0x80048, 5), (0x80070, 4)} - {(0x80070, s)} = {(0x80048 :: u64, 5 :: u64)}" using r(2) by auto
  ultimately have "collected 0x80000 m' {(0x80048, 5)} []" using r(4) by metis
  moreover have "gc_free m 0x80000 0x90000 = Some (m(gc_num_alloced 0x80000 := 0))"
    using gc_free_correct [OF m f, of "0x90000"] by simp
  ultimately show ?thesis using m r(1) by blast
qed

end
