(* ===== verification/Gc_Fields.thy ===== *)
theory Gc_Fields
  imports Gc Heap_Inv
begin

text \<open>
  The three fields of the reference count word that the collector uses: the count of references, the
  temporary count and the mark.
\<close>

definition rc_word :: "mem \<Rightarrow> u64 \<Rightarrow> u64" where "rc_word m obj = m (refcount obj)"

lemma bit_masks:
  "bit refcount_mask n \<longleftrightarrow> n < 32" "bit visited_mask n \<longleftrightarrow> n = 63"
  "bit (drop_bit 1 (- 1) :: u64) n \<longleftrightarrow> n < 63"
proof -
  have m1: "bit (- 1 :: u64) n \<longleftrightarrow> n < 64" for n by (simp add: bit_minus_1_iff)
  show "bit refcount_mask n \<longleftrightarrow> n < 32" "bit (drop_bit 1 (- 1) :: u64) n \<longleftrightarrow> n < 63"
    unfolding refcount_mask_def bit_drop_bit_eq o_apply m1 by auto
  show "bit visited_mask n \<longleftrightarrow> n = 63"
    unfolding visited_mask_def bit_push_bit_iff by (auto simp: bit_1_iff)
qed

text \<open>The bits of the fields.\<close>

lemma bit_fields:
  "bit (get_rc m obj) n \<longleftrightarrow> bit (rc_word m obj) n \<and> n < 32"
  "bit (get_tmp_rc m obj) n \<longleftrightarrow> bit (rc_word m obj) (32 + n) \<and> n < 31"
  "bit (visited m obj) n \<longleftrightarrow> bit (rc_word m obj) n \<and> n = 63"
proof -
  have nv: "bit (NOT visited_mask) n \<longleftrightarrow> n < 64 \<and> n \<noteq> 63" for n
    unfolding bit_not_iff bit_masks by auto
  have lt: "bit (w :: u64) n \<Longrightarrow> n < 64" for w n using bit_imp_le_length [of w n] by simp
  show "bit (get_rc m obj) n \<longleftrightarrow> bit (rc_word m obj) n \<and> n < 32"
    "bit (visited m obj) n \<longleftrightarrow> bit (rc_word m obj) n \<and> n = 63"
    unfolding get_rc_def visited_def rc_word_def bit_and_iff bit_masks by auto
  show "bit (get_tmp_rc m obj) n \<longleftrightarrow> bit (rc_word m obj) (32 + n) \<and> n < 31"
    unfolding get_tmp_rc_def rc_word_def bit_drop_bit_eq o_apply bit_and_iff nv using lt by auto
qed

text \<open>The bits of the word after each of the writes.\<close>

lemma bit_writes:
  assumes "v < 2 ^ 31"
  shows "bit (rc_word (set_tmp_rc m obj v) obj) n \<longleftrightarrow>
      (if n < 32 \<or> n = 63 then bit (rc_word m obj) n else 32 \<le> n \<and> n < 64 \<and> bit v (n - 32))"
    "bit (rc_word (set_tmp_rc_all m obj v) obj) n \<longleftrightarrow>
      (if n < 32 then bit (rc_word m obj) n else n < 64 \<and> bit v (n - 32))"
proof -
  have v: "bit v k \<Longrightarrow> k < 31" for k
    by (rule bit_small) (use assms in \<open>simp_all add: word_less_nat_alt\<close>)
  show "bit (rc_word (set_tmp_rc m obj v) obj) n \<longleftrightarrow>
      (if n < 32 \<or> n = 63 then bit (rc_word m obj) n else 32 \<le> n \<and> n < 64 \<and> bit v (n - 32))"
    unfolding set_tmp_rc_def rc_word_def Let_def fun_upd_same bit_or_iff bit_and_iff bit_masks bit_push_bit_iff
    using v [of "n - 32"] by auto
  show "bit (rc_word (set_tmp_rc_all m obj v) obj) n \<longleftrightarrow>
      (if n < 32 then bit (rc_word m obj) n else n < 64 \<and> bit v (n - 32))"
    unfolding set_tmp_rc_all_def rc_word_def Let_def fun_upd_same bit_or_iff bit_and_iff bit_masks bit_push_bit_iff
    by auto
qed

lemma bit_set_visited:
  "bit (rc_word (set_visited m obj b) obj) n \<longleftrightarrow> bit (rc_word m obj) n \<and> n < 63 \<or> n = 63 \<and> bit b 0"
  unfolding set_visited_def rc_word_def Let_def fun_upd_same bit_or_iff bit_and_iff bit_masks bit_push_bit_iff
  by auto

text \<open>Writing one field leaves the others as they are.\<close>

lemma set_tmp_rc_fields:
  assumes "v < 2 ^ 31"
  shows "get_tmp_rc (set_tmp_rc m obj v) obj = v" "get_rc (set_tmp_rc m obj v) obj = get_rc m obj"
    "visited (set_tmp_rc m obj v) obj = visited m obj"
    "get_tmp_rc (set_tmp_rc_all m obj v) obj = v" "get_rc (set_tmp_rc_all m obj v) obj = get_rc m obj"
    "visited (set_tmp_rc_all m obj v) obj = 0"
proof -
  have v: "bit v k \<Longrightarrow> k < 31" for k
    by (rule bit_small) (use assms in \<open>simp_all add: word_less_nat_alt\<close>)
  note b = bit_fields bit_writes [OF assms]
  show "get_tmp_rc (set_tmp_rc m obj v) obj = v" "get_tmp_rc (set_tmp_rc_all m obj v) obj = v"
    by (rule bit_word_eqI; unfold b; auto dest: v)+
  show "get_rc (set_tmp_rc m obj v) obj = get_rc m obj" "get_rc (set_tmp_rc_all m obj v) obj = get_rc m obj"
    "visited (set_tmp_rc m obj v) obj = visited m obj"
    by (rule bit_word_eqI; unfold b; auto)+
  have "bit (visited (set_tmp_rc_all m obj v) obj) n = bit 0 n" for n
    unfolding b using v [of "n - 32"] by auto
  then show "visited (set_tmp_rc_all m obj v) obj = 0" by (rule bit_word_eqI)
qed

lemma set_visited_fields:
  "get_tmp_rc (set_visited m obj b) obj = get_tmp_rc m obj" "get_rc (set_visited m obj b) obj = get_rc m obj"
  "visited (set_visited m obj b) obj = push_bit 63 b"
proof -
  note b = bit_fields bit_set_visited
  show "get_tmp_rc (set_visited m obj b) obj = get_tmp_rc m obj" "get_rc (set_visited m obj b) obj = get_rc m obj"
    by (rule bit_word_eqI; unfold b; auto)+
  show "visited (set_visited m obj b) obj = push_bit 63 b"
    by (rule bit_word_eqI) (unfold b bit_push_bit_iff, auto)
qed

lemma div_mod_pred:
  assumes "0 < u mod (p :: nat)"
  shows "(u - 1) div p = u div p" "(u - 1) mod p = u mod p - 1"
proof -
  have "(u - 1) div p = u div p \<and> (u - 1) mod p = u mod p - 1"
  proof (cases "p = 0")
    case False
    then have b: "u mod p - 1 < p" using mod_less_divisor [of p u] by linarith
    have "u - 1 = (u mod p - 1) + p * (u div p)" using mult_div_mod_eq [of p u] assms by linarith
    then show ?thesis using b False by simp
  qed simp
  then show "(u - 1) div p = u div p" "(u - 1) mod p = u mod p - 1" by blast+
qed

text \<open>Releasing a reference changes the count only, as long as there is one.\<close>

lemma decrease_fields:
  assumes "obj \<noteq> 0" "get_rc m obj \<noteq> 0"
  shows "get_rc (decrease_refcs m obj) obj = get_rc m obj - 1"
    "get_tmp_rc (decrease_refcs m obj) obj = get_tmp_rc m obj"
    "visited (decrease_refcs m obj) obj = visited m obj"
proof -
  let ?w = "rc_word m obj"
  have w: "rc_word (decrease_refcs m obj) obj = ?w - 1"
    using assms(1) by (simp add: decrease_refcs_def rc_word_def)
  have rc: "get_rc f obj = take_bit 32 (rc_word f obj)" for f
    by (rule bit_word_eqI) (unfold bit_fields bit_take_bit_iff, auto)
  obtain u where u: "unat ?w = u" by blast
  have lo: "u mod 2 ^ 32 \<noteq> 0"
  proof
    assume "u mod 2 ^ 32 = 0"
    then have "unat (take_bit 32 ?w) = 0" unfolding unsigned_take_bit_eq u by (simp add: take_bit_eq_mod)
    then show False using assms(2) rc by (simp add: unat_eq_0)
  qed
  then have u1: "unat (?w - 1) = u - 1" using u by (subst unat_minus_one) auto
  have hi: "drop_bit 32 (?w - 1) = drop_bit 32 ?w"
  proof -
    have g: "unat (drop_bit n x) = drop_bit n (unat x)" for n and x :: u64
      by (simp add: unsigned_drop_bit_eq take_bit_nat_eq_self [OF unat_less_2p64])
    show ?thesis unfolding word_unat_eq_iff g u u1 using div_mod_pred(1) [of u "2 ^ 32"] lo
      by (simp add: drop_bit_eq_div)
  qed
  have hb: "bit (?w - 1) n = bit ?w n" if "32 \<le> n" for n
  proof -
    have "32 + (n - 32) = n" using that by simp
    with arg_cong [OF hi, of "\<lambda>x. bit x (n - 32)"] show ?thesis by (simp only: bit_drop_bit_eq o_apply)
  qed
  show "get_tmp_rc (decrease_refcs m obj) obj = get_tmp_rc m obj"
    "visited (decrease_refcs m obj) obj = visited m obj"
    by (rule bit_word_eqI; unfold bit_fields w; use hb in auto)+
  have t: "unat (take_bit 32 x) = unat x mod 2 ^ 32" for x :: u64
    by (rule trans [OF unsigned_take_bit_eq take_bit_eq_mod])
  have "unat (get_rc m obj - 1) = u mod 2 ^ 32 - 1" using assms(2) t [of ?w] u by (subst unat_minus_one) (simp_all add: rc)
  moreover have "unat (get_rc (decrease_refcs m obj) obj) = (u - 1) mod 2 ^ 32" unfolding rc w t u1 ..
  ultimately show "get_rc (decrease_refcs m obj) obj = get_rc m obj - 1"
    unfolding word_unat_eq_iff using div_mod_pred(2) [of u "2 ^ 32"] lo by linarith
qed

subsection \<open>The property\<close>

text \<open>
  C27. The reference count word holds three independent fields: what is written to the temporary count (31
  bits) or to the mark is read back, a reference that goes away is subtracted from the count, and each
  of these writes leaves the two other fields, and every other word of memory, as they are. Only
  \<open>set_tmp_rc_all\<close> takes the mark away as well.
\<close>

theorem rc_fields_roundtrip:
  assumes "v < 2 ^ 31" "obj \<noteq> 0" "get_rc m obj \<noteq> 0"
  shows "(let m' = set_tmp_rc m obj v in
      get_tmp_rc m' obj = v \<and> get_rc m' obj = get_rc m obj \<and> visited m' obj = visited m obj \<and>
      same_except {refcount obj} m m') \<and>
    (let m' = set_tmp_rc_all m obj v in
      get_tmp_rc m' obj = v \<and> get_rc m' obj = get_rc m obj \<and> visited m' obj = 0 \<and>
      same_except {refcount obj} m m') \<and>
    (let m' = set_visited m obj b in
      (visited m' obj = 0 \<longleftrightarrow> even b) \<and> get_rc m' obj = get_rc m obj \<and> get_tmp_rc m' obj = get_tmp_rc m obj \<and>
      same_except {refcount obj} m m') \<and>
    (let m' = decrease_refcs m obj in
      get_rc m' obj = get_rc m obj - 1 \<and> get_tmp_rc m' obj = get_tmp_rc m obj \<and> visited m' obj = visited m obj \<and>
      same_except {refcount obj} m m')"
proof -
  have "push_bit 63 b = 0 \<longleftrightarrow> even b"
  proof -
    have "bit (push_bit 63 b) n \<longleftrightarrow> n = 63 \<and> odd b" for n
      unfolding bit_push_bit_iff by (auto simp: bit_0)
    then show ?thesis by (metis bit_0_eq bot_apply bot_bool_def bit_word_eqI)
  qed
  moreover have "same_except {refcount obj} m (set_tmp_rc m obj v)"
    "same_except {refcount obj} m (set_tmp_rc_all m obj v)"
    "same_except {refcount obj} m (set_visited m obj b)"
    "same_except {refcount obj} m (decrease_refcs m obj)"
    by (simp_all add: same_except_def set_tmp_rc_def set_tmp_rc_all_def set_visited_def decrease_refcs_def Let_def)
  ultimately show ?thesis
    unfolding Let_def set_tmp_rc_fields [OF assms(1)] set_visited_fields decrease_fields [OF assms(2,3)]
    by (intro conjI refl)
qed

text \<open>An object with two references, a temporary count of 5 and the mark.\<close>

theorem rc_fields_roundtrip_witness:
  "let m = (\<lambda>_. 0)(refcount 0x100 := 0x8000000500000002) in
     get_rc m 0x100 = 2 \<and> get_tmp_rc (set_tmp_rc m 0x100 6) 0x100 = 6 \<and>
     get_rc (decrease_refcs m 0x100) 0x100 = 1 \<and> get_tmp_rc (set_visited m 0x100 0) 0x100 = get_tmp_rc m 0x100"
proof -
  let ?m = "(\<lambda>_. 0)(refcount 0x100 := 0x8000000500000002) :: mem"
  have r: "get_rc ?m 0x100 = 2" by (simp add: get_rc_def refcount_mask_def mask_eq_exp_minus_1)
  then have "get_rc ?m 0x100 \<noteq> 0" by simp
  from rc_fields_roundtrip [OF _ _ this, of 6 0] r show ?thesis unfolding Let_def by simp
qed

end
