(* ===== verification/Bignum.thy ===== *)
theory Bignum
  imports Objects
begin

text \<open>
  Numbers of any size (\<^verbatim>\<open>datastructures.c\<close>, lines 1390 to 1870). A number is an object whose words
  are the digits to base \<open>2 ^ 64\<close>, the lowest first, in two's complement; the last word is the
  sign: all zeros or all ones.
\<close>

subsection \<open>Addition with carry\<close>

text \<open>\<^verbatim>\<open>adc\<close>: the sum and the carry.\<close>

definition adc :: "u64 \<Rightarrow> u64 \<Rightarrow> u64 \<times> u64" where
  "adc x y =
     (let result = x + y;
          mask = drop_bit 1 (- 1);
          z = (x AND mask) + (y AND mask);
          z = drop_bit 63 z;
          x = drop_bit 63 x;
          y = drop_bit 63 y
      in (result, (x AND y) OR (x AND z) OR (y AND z)))"

definition sgn_of :: "u64 \<Rightarrow> u64" where "sgn_of w = drop_bit 63 w"

definition num_negate :: "mem \<Rightarrow> u64 \<Rightarrow> mem option" where
  "num_negate m n = do {
     (m, _) \<leftarrow> for_lim 0 (\<lambda>(m, carry). m (osize n))
       (\<lambda>i (m, carry). let (r, carry) = adc (NOT (m (contents n i))) carry
                        in (m(contents n i := r), carry)) (m, 1);
     Some m }"

text \<open>One word of an addition: two additions, of which at most one carries.\<close>

definition add_word :: "u64 \<Rightarrow> u64 \<Rightarrow> u64 \<Rightarrow> u64 \<Rightarrow> mem \<Rightarrow> mem \<times> u64" where
  "add_word p x y carry m =
     (let (r, carry) = adc x carry;
          m = m(p := r);
          (r, c) = adc (m p) y
      in (m(p := r), carry + c))"

definition num_add :: "types \<Rightarrow> mem \<Rightarrow> u64 \<Rightarrow> u64 \<Rightarrow> u64 \<Rightarrow> (mem \<times> u64) option" where
  "num_add T m heap num1 num2 = do {
     let (n1, n2) = (if m (osize num1) < m (osize num2) then (num2, num1) else (num1, num2));
     let n1_sz = m (osize n1);
     let n2_sz = m (osize n2);
     let n1_sgn = sgn_of (m (contents n1 (n1_sz - 1)));
     let n2_sgn = sgn_of (m (contents n2 (n2_sz - 1)));
     (m, result) \<leftarrow> object m heap (num_type T) (n1_sz + 1) 0 0;
     let m = m(osize result := n1_sz);
     let (m, carry) = for_up 0 n2_sz (\<lambda>i (m, carry).
           let (r, carry) = adc (m (contents n1 i)) carry;
               m = m(contents result i := r);
               (r, c) = adc (m (contents result i)) (m (contents n2 i))
           in (m(contents result i := r), carry + c)) (m, 0);
     let padding = (if n2_sgn \<noteq> 0 then -1 else 0);
     let (m, carry) = for_up n2_sz n1_sz (\<lambda>i (m, carry).
           add_word (contents result i) (m (contents n1 i)) padding carry m) (m, carry);
     let last = m (contents result (n1_sz - 1));
     if n1_sgn \<noteq> 0 \<and> n2_sgn \<noteq> 0 \<and> last \<noteq> -1 then object_append_word m heap result (-1)
     else if n1_sgn = 0 \<and> n2_sgn = 0 \<and> last \<noteq> 0 then object_append_word m heap result 0
     else Some (for_down (n1_sz - 1) 1 (\<lambda>i m. m (contents result (i - 1)) = last)
                  (\<lambda>i m. m(osize result := m (osize result) - 1)) m, result) }"

subsection \<open>Shifts\<close>

text \<open>The end of both shifts: superfluous zeros go, and a zero behind a negative sign goes.\<close>

definition trim_zeros :: "u64 \<Rightarrow> mem \<Rightarrow> mem" where
  "trim_zeros n m =
     (let m = for_down (m (osize n) - 1) 1 (\<lambda>i m. m (contents n (i - 1)) = 0)
                (\<lambda>i m. m(osize n := m (osize n) - 1)) m
      in if 2 < m (osize n) \<and> m (contents n (m (osize n) - 1)) = 0
            \<and> m (contents n (m (osize n) - 2)) = -1
         then m(osize n := m (osize n) - 1) else m)"

definition num_shift_left :: "mem \<Rightarrow> u64 \<Rightarrow> u64 \<Rightarrow> u64 \<Rightarrow> (mem \<times> u64) option" where
  "num_shift_left m heap num shf = do {
     let n_sz = m (osize num);
     let n_sgn = m (contents num (n_sz - 1));
     let dv = shf div 64;
     let md = shf mod 64;
     let min_sz = n_sz + dv + 2 * of_bool (md \<noteq> 0);
     let full = (m (max_sz num) < min_sz);
     (m, n) \<leftarrow> (if full then object_expand m heap num min_sz else Some (m, num));
     if full \<and> n = 0 then Some (m, 0)
     else do {
       let m = m(osize n := min_sz - of_bool (md \<noteq> 0));
       let m =
         (if md \<noteq> 0 then
            let op_mod = 64 - md;
                m = for_down (n_sz - 1) 0 (\<lambda>i m. True)
                      (\<lambda>i m. m(contents n (i + dv) :=
                         shr (m (contents n (i - 1))) op_mod OR shl (m (contents n i)) md)) m;
                m = m(contents n dv := shl (m (contents n 0)) md);
                lst = n_sz + dv;
                m = m(contents n lst := shr n_sgn op_mod);
                m = (if n_sgn \<noteq> 0 then
                       let m = m(contents n (lst + 1) := 0)
                       in m(osize n := m (osize n) + 1)
                     else m)
            in trim_zeros n m
          else if dv \<noteq> 0 then
            for_down n_sz 0 (\<lambda>i m. True)
              (\<lambda>i m. let i1 = i - 1 in m(contents n (i1 + dv) := m (contents n i1))) m
          else m);
       Some (for_up 0 dv (\<lambda>i m. m(contents n i := 0)) m, n) } }"

definition num_shift_right :: "mem \<Rightarrow> u64 \<Rightarrow> u64 \<Rightarrow> u64 \<Rightarrow> (mem \<times> u64) option" where
  "num_shift_right m heap n shf =
     (let n_sz = m (osize n);
          n_sgn = m (contents n (n_sz - 1));
          dv = shf div 64;
          md = shf mod 64
      in if n_sz * 64 \<le> shf then
           Some (m(contents n 0 := 0, contents n 1 := 0, osize n := 2), n)
         else if md \<noteq> 0 then do {
           let op_mod = 64 - md;
           let m = for_up 0 (n_sz - dv - 1)
                 (\<lambda>i m. m(contents n i := shr (m (contents n (i + dv))) md
                            OR shl (m (contents n (i + dv + 1))) op_mod)) m;
           let m = m(osize n := m (osize n) - dv);
           let m = m(contents n (m (osize n) - 1) := shr n_sgn md);
           (m, n) \<leftarrow> (if n_sgn \<noteq> 0 \<or> n_sz - 1 \<le> dv then object_append_word m heap n 0
                      else Some (m, n));
           Some (trim_zeros n m, n) }
         else if dv \<noteq> 0 then
           let m = for_up 0 (n_sz - dv) (\<lambda>i m. m(contents n i := m (contents n (i + dv)))) m
           in Some (m(osize n := m (osize n) - dv), n)
         else Some (m, n))"

text \<open>The sign word of \<open>num1 - num2\<close>.\<close>

definition num_le :: "types \<Rightarrow> mem \<Rightarrow> u64 \<Rightarrow> u64 \<Rightarrow> u64 \<Rightarrow> (mem \<times> u64) option" where
  "num_le T m heap num1 num2 = do {
     m \<leftarrow> num_negate m num2;
     (m, num3) \<leftarrow> num_add T m heap num1 num2;
     m \<leftarrow> num_negate m num2;
     let n_sgn = m (contents num3 (m (osize num3) - 1));
     let m = m(refcount num3 := m (refcount num3) + 1);
     m \<leftarrow> object_delete T m heap num3;
     Some (m, n_sgn) }"

definition num_shift :: "types \<Rightarrow> mem \<Rightarrow> u64 \<Rightarrow> u64 \<Rightarrow> u64 \<Rightarrow> (mem \<times> u64) option" where
  "num_shift T m heap n1 n2 =
     (let n2_sz = m (osize n2);
          n2_sgn = m (contents n2 (n2_sz - 1))
      in if n2_sz \<le> 2 \<and> m (contents n2 0) = 0 then Some (m, n1)
         else if 2 < n2_sz then Some (m, n1)
         else if n2_sgn \<noteq> 0 then do {
           m \<leftarrow> num_negate m n2;
           let sz = m (osize n1) + m (contents n2 0) div 64 + 1 + 1;
           (m, result) \<leftarrow> object m heap (num_type T) sz (contents n1 0) (m (osize n1));
           (m, _) \<leftarrow> num_shift_left m heap result (m (contents n2 0));
           m \<leftarrow> num_negate m n2;
           Some (m, result) }
         else do {
           let sz = m (osize n1) + 1;
           (m, result) \<leftarrow> object m heap (num_type T) sz (contents n1 0) (m (osize n1));
           (m, _) \<leftarrow> num_shift_right m heap result (m (contents n2 0));
           Some (m, result) })"

subsection \<open>Bitwise operations\<close>

definition num_and :: "types \<Rightarrow> mem \<Rightarrow> u64 \<Rightarrow> u64 \<Rightarrow> u64 \<Rightarrow> (mem \<times> u64) option" where
  "num_and T m heap n1 n2 = do {
     let sz = umin (m (osize n1)) (m (osize n2));
     (m, result) \<leftarrow> object m heap (num_type T) (sz + 1) (contents n1 0) sz;
     let m = for_up 0 sz
           (\<lambda>i m. m(contents result i := m (contents result i) AND m (contents n2 i))) m;
     (m, result) \<leftarrow> object_append_word m heap result 0;
     Some (trim_zeros result m, result) }"

text \<open>
  \<^verbatim>\<open>num_or\<close> and \<^verbatim>\<open>num_xor\<close> mean to exchange their arguments when the first is the shorter one, but
  \<^verbatim>\<open>tmp = n1; n2 = n1; n1 = tmp;\<close> makes both the first.
\<close>

definition num_or :: "types \<Rightarrow> mem \<Rightarrow> u64 \<Rightarrow> u64 \<Rightarrow> u64 \<Rightarrow> (mem \<times> u64) option" where
  "num_or T m heap num1 num2 = do {
     let (n1, n2) =
       (if m (osize num1) < m (osize num2) then (let tmp = num1; n2 = num1 in (tmp, n2))
        else (num1, num2));
     (m, result) \<leftarrow> object m heap (num_type T) (m (osize n1)) (contents n1 0) (m (osize n1));
     m \<leftarrow> for_lim 0 (\<lambda>m. m (osize n2))
           (\<lambda>i m. m(contents result i := m (contents result i) OR m (contents n2 i))) m;
     Some (m, result) }"

definition num_xor :: "types \<Rightarrow> mem \<Rightarrow> u64 \<Rightarrow> u64 \<Rightarrow> u64 \<Rightarrow> (mem \<times> u64) option" where
  "num_xor T m heap num1 num2 = do {
     let (n1, n2) =
       (if m (osize num1) < m (osize num2) then (let tmp = num1; n2 = num1 in (tmp, n2))
        else (num1, num2));
     (m, result) \<leftarrow> object m heap (num_type T) (m (osize n1)) (contents n1 0) (m (osize n1));
     m \<leftarrow> for_lim 0 (\<lambda>m. m (osize n2))
           (\<lambda>i m. m(contents result i := m (contents result i) XOR m (contents n2 i))) m;
     Some (m, result) }"

definition num_not :: "types \<Rightarrow> mem \<Rightarrow> u64 \<Rightarrow> u64 \<Rightarrow> (mem \<times> u64) option" where
  "num_not T m heap n = do {
     (m, result) \<leftarrow> object m heap (num_type T) (m (osize n)) (contents n 0) (m (osize n));
     m \<leftarrow> for_lim 0 (\<lambda>m. m (osize n))
           (\<lambda>i m. m(contents result i := NOT (m (contents result i)))) m;
     Some (m, result) }"

subsection \<open>Conversions and memory access\<close>

definition word_to_num :: "types \<Rightarrow> mem \<Rightarrow> u64 \<Rightarrow> u64 \<Rightarrow> (mem \<times> u64) option" where
  "word_to_num T m heap w = do {
     (m, obj) \<leftarrow> object m heap (num_type T) 2 0 0;
     Some (m(contents obj 0 := w, contents obj 1 := 0, osize obj := 2), obj) }"

definition num_ldr :: "types \<Rightarrow> mem \<Rightarrow> u64 \<Rightarrow> u64 \<Rightarrow> (mem \<times> u64) option" where
  "num_ldr T m heap n = word_to_num T m heap (m (m (contents n 0)))"

definition num_store :: "mem \<Rightarrow> u64 \<Rightarrow> u64 \<Rightarrow> mem option" where
  "num_store m n1 n2 =
     for_lim 0 (\<lambda>m. m (osize n2) - 1) (\<lambda>i m. m(m (contents n1 i) := m (contents n2 i))) m"

subsection \<open>Multiplication\<close>

text \<open>
  The innermost loop of \<^verbatim>\<open>num_mul\<close> adds \<open>n1\<close>, shifted left by \<open>nsh\<close> bits, to the result from word
  \<open>i\<close> on; the state is the memory, the carry and the previous word of \<open>n1\<close>.
\<close>

definition mul_add :: "u64 \<Rightarrow> u64 \<Rightarrow> u64 \<Rightarrow> u64 \<Rightarrow> u64 \<Rightarrow> mem \<Rightarrow> mem" where
  "mul_add result n1 n1_sz i nsh m =
     fst (for_up 0 n1_sz (\<lambda>j (m, carry, n1_prev).
       let ptr = contents result i + 8 * j;
           n1_curr = m (contents n1 j);
           (r, carry) = adc (m ptr) carry;
           m = m(ptr := r);
           (r, c) = adc (m ptr)
             ((if nsh \<noteq> 0 then shr n1_prev (64 - nsh) else 0) OR shl n1_curr nsh)
       in (m(ptr := r), carry + c, n1_curr)) (m, 0, 0))"

text \<open>The loop over the bits of one word of \<open>n2\<close>.\<close>

function mul_bits :: "u64 \<Rightarrow> u64 \<Rightarrow> u64 \<Rightarrow> u64 \<Rightarrow> u64 \<Rightarrow> u64 \<Rightarrow> mem \<Rightarrow> mem" where
  "mul_bits result n1 n1_sz i n2_i nsh m =
     (if n2_i \<noteq> 0 then
        let m = (if n2_i AND 1 \<noteq> 0 then mul_add result n1 n1_sz i nsh m else m)
        in mul_bits result n1 n1_sz i (drop_bit 1 n2_i) (nsh + 1) m
      else m)"
  by pat_completeness auto
termination
proof (relation "measure (\<lambda>(result, n1, n1_sz, i, n2_i, nsh, m). unat n2_i)")
  fix result n1 n1_sz i n2_i nsh :: u64 and m x :: mem
  assume "n2_i \<noteq> 0"
  then have "0 < unat n2_i" by (simp add: unat_gt_0)
  then have "unat (n2_i div 2) < unat n2_i" by (simp add: unat_div)
  then show "((result, n1, n1_sz, i, drop_bit 1 n2_i, nsh + 1, x), result, n1, n1_sz, i, n2_i, nsh, m)
      \<in> measure (\<lambda>(result, n1, n1_sz, i, n2_i, nsh, m). unat n2_i)"
    by (simp add: drop_bit_eq_div)
qed simp

declare mul_bits.simps [simp del]

text \<open>The local array \<^verbatim>\<open>buf\<close> of \<^verbatim>\<open>num_mul\<close>.\<close>

definition mul_buf :: u64 where "mul_buf = 0x7fc00"

definition num_mul :: "types \<Rightarrow> mem \<Rightarrow> u64 \<Rightarrow> u64 \<Rightarrow> u64 \<Rightarrow> (mem \<times> u64) option" where
  "num_mul T m heap num1 num2 = do {
     let (n1, n2) = (if m (osize num2) < m (osize num1) then (num2, num1) else (num1, num2));
     let n1_sz = m (osize n1);
     let n2_sz = m (osize n2);
     let res_sz = n1_sz + n2_sz - 1;
     let n1_sgn = m (contents n1 (n1_sz - 1));
     let n2_sgn = m (contents n2 (n2_sz - 1));
     let res_sgn = n1_sgn XOR n2_sgn;
     if n1_sz = 2 \<and> m (contents n1 0) = 0 then
       object (m(mul_buf + 8 := 0, mul_buf := 0)) heap (num_type T) 2 mul_buf 2
     else do {
       m \<leftarrow> (if n1_sgn \<noteq> 0 then num_negate m n1 else Some m);
       m \<leftarrow> (if n2_sgn \<noteq> 0 then num_negate m n2 else Some m);
       (m, result) \<leftarrow> object m heap (num_type T) res_sz 0 0;
       let m = m(osize result := res_sz);
       let m = for_up 0 res_sz (\<lambda>i m. m(contents result i := 0)) m;
       let m = for_up 0 (n2_sz - 1) (\<lambda>i m. mul_bits result n1 n1_sz i (m (contents n2 i)) 0 m) m;
       m \<leftarrow> (if n1_sgn \<noteq> 0 then num_negate m n1 else Some m);
       m \<leftarrow> (if n2_sgn \<noteq> 0 then num_negate m n2 else Some m);
       m \<leftarrow> (if res_sgn \<noteq> 0 then num_negate m result else Some m);
       let m = for_down (res_sz - 1) 1 (\<lambda>i m. m (contents result (i - 1)) = res_sgn)
                 (\<lambda>i m. m(osize result := m (osize result) - 1)) m;
       Some (m, result) } }"

subsection \<open>Strings and numbers\<close>

definition hex_val :: "u64 \<Rightarrow> u64 option" where
  "hex_val chr =
     (if 97 \<le> chr \<and> chr \<le> 102 then Some (chr - (97 - 10))
      else if 65 \<le> chr \<and> chr \<le> 70 then Some (chr - (65 - 10))
      else if 48 \<le> chr \<and> chr \<le> 57 then Some (chr - 48)
      else None)"

text \<open>The value of the digits \<open>arr[os .. n - 1]\<close> on top of \<open>c\<close>; \<open>None\<close> for a character that is none.\<close>

function hex_digits :: "mem \<Rightarrow> u64 \<Rightarrow> u64 \<Rightarrow> u64 \<Rightarrow> u64 \<Rightarrow> u64 option" where
  "hex_digits m arr os n c =
     (if os < n then
        (case hex_val (m (arr + 8 * os)) of
           None \<Rightarrow> None
         | Some v \<Rightarrow> hex_digits m arr (os + 1) n (push_bit 4 c OR v))
      else Some c)"
  by pat_completeness auto
termination
  by (relation "measure (\<lambda>(m, arr, os, n, c). unat (n - os))") auto

declare hex_digits.simps [simp del]

text \<open>The inner loop over \<open>index\<close>: the digits \<open>base + index\<close> below \<open>len\<close>.\<close>

function hex_word :: "mem \<Rightarrow> u64 \<Rightarrow> u64 \<Rightarrow> u64 \<Rightarrow> u64 \<Rightarrow> u64 \<Rightarrow> u64 \<Rightarrow> u64 option" where
  "hex_word m arr base index n len c =
     (if index < n \<and> base + index < len then
        (case hex_val (m (arr + 8 * (base + index))) of
           None \<Rightarrow> None
         | Some v \<Rightarrow> hex_word m arr base (index + 1) n len (push_bit 4 c OR v))
      else Some c)"
  by pat_completeness auto
termination
  by (relation "measure (\<lambda>(m, arr, base, index, n, len, c). unat (n - index))") auto

declare hex_word.simps [simp del]

text \<open>The outer loop; the last component is false when the string is no number.\<close>

partial_function (option) str_to_num_words ::
    "u64 \<Rightarrow> mem \<Rightarrow> u64 \<Rightarrow> u64 \<Rightarrow> u64 \<Rightarrow> u64 \<Rightarrow> u64 \<Rightarrow> u64 \<Rightarrow> (mem \<times> u64 \<times> bool) option" where
  "str_to_num_words heap m arr len sz os final_num i =
     (if i < sz then
        (case hex_word m arr ((sz - i - 1) * 16) os (16 + os) len 0 of
           None \<Rightarrow> do { m \<leftarrow> object_free m heap final_num; Some (m, 0, False) }
         | Some current \<Rightarrow> do {
             (m, final_num) \<leftarrow> object_append_word m heap final_num current;
             str_to_num_words heap m arr len sz os final_num (i + 1) })
      else Some (m, final_num, True))"

definition str_to_num :: "types \<Rightarrow> mem \<Rightarrow> u64 \<Rightarrow> u64 \<Rightarrow> (mem \<times> u64) option" where
  "str_to_num T m heap num =
     (let len = m (osize num);
          arr = contents num 0;
          neg = len \<noteq> 0 \<and> m arr = 45;
          (arr, len) = (if neg then (arr + 8, len - 1) else (arr, len))
      in if len = 0 then Some (m, 0)
         else do {
           let sz = len div 16;
           (m, final_num) \<leftarrow> object m heap (num_type T) sz 0 0;
           let os = len mod 16;
           case hex_digits m arr 0 os 0 of
             None \<Rightarrow> do {
               let m = m(refcount (num_type T) := m (refcount (num_type T)) - 1);
               m \<leftarrow> object_free m heap final_num;
               Some (m, 0) }
           | Some c \<Rightarrow> do {
               (m, final_num, ok) \<leftarrow> str_to_num_words heap m arr len sz os final_num 0;
               if \<not> ok then Some (m, 0)
               else do {
                 (m, final_num) \<leftarrow>
                   (if c \<noteq> 0 \<or> \<not> (sz \<noteq> 0 \<or> c \<noteq> 0) then object_append_word m heap final_num c
                    else Some (m, final_num));
                 (m, final_num) \<leftarrow> object_append_word m heap final_num 0;
                 m \<leftarrow> (if neg then num_negate m final_num else Some m);
                 Some (m, final_num) } } })"

definition append_digits :: "u64 \<Rightarrow> u64 list \<Rightarrow> u64 \<Rightarrow> mem \<times> u64 \<Rightarrow> (mem \<times> u64) option" where
  "append_digits heap buf l s =
     for_up_o 0 l (\<lambda>j (m, string). object_append_word m heap string (buf ! unat j)) s"

text \<open>The loop over the words below the first: each is written with sixteen digits.\<close>

function num_to_str_words :: "u64 \<Rightarrow> u64 \<Rightarrow> u64 \<Rightarrow> mem \<Rightarrow> u64 \<Rightarrow> (mem \<times> u64) option" where
  "num_to_str_words heap n i m string =
     (if 0 < i then
        (let (l, buf) = uintn_to_str (replicate 17 0) 17 (m (contents n (i - 1))) 16 in
         case for_up_o l 16 (\<lambda>j (m, string). object_append_word m heap string 48) (m, string) of
           None \<Rightarrow> None
         | Some s \<Rightarrow> (case append_digits heap buf l s of
             None \<Rightarrow> None
           | Some (m, string) \<Rightarrow> num_to_str_words heap n (i - 1) m string))
      else Some (m, string))"
  by pat_completeness auto
termination
proof (relation "measure (\<lambda>(heap, n, i, m, string). unat i)")
  fix heap n i :: u64 and m m' :: mem and string string' :: u64
  assume "0 < i"
  then have "unat (i - 1) < unat i" by (metis measure_unat word_not_simps(1))
  then show "((heap, n, i - 1, m', string'), heap, n, i, m, string)
      \<in> measure (\<lambda>(heap, n, i, m, string). unat i)" by simp
qed simp

declare num_to_str_words.simps [simp del]

definition num_to_str :: "types \<Rightarrow> mem \<Rightarrow> u64 \<Rightarrow> u64 \<Rightarrow> (mem \<times> u64) option" where
  "num_to_str T m heap n = do {
     (m, string) \<leftarrow> object m heap (string_type T) (16 * m (osize n) + 1) 0 0;
     if string = 0 then Some (m, 0)
     else do {
       let last = m (contents n (m (osize n) - 1));
       (m, string) \<leftarrow>
         (if last \<noteq> 0 then do {
            (m, string) \<leftarrow> object_append_word m heap string 45;
            m \<leftarrow> num_negate m n;
            Some (m, string) }
          else Some (m, string));
       let (l, buf) = uintn_to_str (replicate 17 0) 17 (m (contents n (m (osize n) - 2))) 16;
       (m, string) \<leftarrow> append_digits heap buf l (m, string);
       (m, string) \<leftarrow> num_to_str_words heap n (m (osize n) - 2) m string;
       m \<leftarrow> (if last \<noteq> 0 then num_negate m n else Some m);
       Some (m, string) } }"

end
