(* ===== verification/Ring.thy ===== *)
theory Ring
  imports Containers Heap_Inv
begin

text \<open>
  Ring buffers as bounded queues: what the slots hold, the interface of a queue of blocks of words, and
  its interpretation on \<open>ring_buf_add\<close>, \<open>ring_buf_pop\<close>, \<open>ring_buf_isempty\<close> and \<open>ring_buf_isfull\<close>.
\<close>

subsection \<open>Blocks of words\<close>

text \<open>The addresses of \<open>n\<close> words from \<open>p\<close> on, and the words.\<close>

definition cells :: "u64 \<Rightarrow> u64 \<Rightarrow> u64 set" where
  "cells p n = {p + 8 * j |j. j < n}"

definition block_words :: "mem \<Rightarrow> u64 \<Rightarrow> u64 \<Rightarrow> u64 list" where
  "block_words m p n = map (\<lambda>j. m (p + 8 * of_nat j)) [0..<unat n]"

lemma cellsI [intro]: "j < n \<Longrightarrow> p + 8 * j \<in> cells p n"
  by (auto simp: cells_def)

lemma cells_nat [simp]: "k < unat n \<Longrightarrow> p + 8 * of_nat k \<in> cells p n"
  using unat_less_2p64 [of n]
  by (intro cellsI) (simp add: word_less_nat_alt unat_of_nat take_bit_nat_eq_self)

lemma block_words_nth: "k < unat n \<Longrightarrow> block_words m p n ! k = m (p + 8 * of_nat k)"
  by (simp add: block_words_def)

lemma length_block_words [simp]: "length (block_words m p n) = unat n"
  by (simp add: block_words_def)

lemma cells_word: "(\<exists>j. j < n \<and> x = p + 8 * j) \<longleftrightarrow> x \<in> cells p n"
  by (auto simp: cells_def)

lemma block_words_cong: "\<forall>x \<in> cells p n. m' x = m x \<Longrightarrow> block_words m' p n = block_words m p n"
  by (simp add: block_words_def)

lemma mult8_inj:
  assumes "i < n" "j < n" "unat n \<le> 2 ^ 60" "8 * i = 8 * (j :: u64)"
  shows "i = j"
proof -
  have "8 * unat i < 2 ^ 64" "8 * unat j < 2 ^ 64" using assms(1-3) by (simp_all add: word_less_nat_alt)
  then have "unat (8 * i) = 8 * unat i" "unat (8 * j) = 8 * unat j" by (simp_all add: unat_mult8)
  with assms(4) show ?thesis by (simp add: word_unat_eq_iff)
qed

text \<open>What a copy to a disjoint block does.\<close>

lemma copy_words_at:
  assumes "cells dst n \<inter> cells src n = {}" "unat n \<le> 2 ^ 60"
  shows "copy_words m dst src i n x =
    (if \<exists>j. i \<le> j \<and> j < n \<and> x = dst + 8 * j then m (src + (x - dst)) else m x)"
proof (induction "unat n - unat i" arbitrary: i m)
  case 0
  then have "\<not> i < n" by (simp add: word_less_nat_alt)
  then show ?case by (subst copy_words.simps) auto
next
  case (Suc k)
  then have i: "i < n" by (simp add: word_less_nat_alt)
  let ?m = "m(dst + 8 * i := m (src + 8 * i))"
  have src: "?m (src + 8 * j) = m (src + 8 * j)" if "j < n" for j
    using assms(1) i that by (auto simp: cells_def)
  have ih: "copy_words ?m dst src (i + 1) n x =
      (if \<exists>j. i + 1 \<le> j \<and> j < n \<and> x = dst + 8 * j then ?m (src + (x - dst)) else ?m x)"
    using Suc.hyps(2) by (intro Suc.hyps(1)) (simp add: unat_suc [OF i])
  have le: "i + 1 \<le> j \<longleftrightarrow> i \<le> j \<and> j \<noteq> i" for j
    using unat_suc [OF i] by (auto simp: word_le_nat_alt word_unat_eq_iff)
  have "copy_words m dst src i n x = copy_words ?m dst src (i + 1) n x"
    using i by (subst copy_words.simps) simp
  also have "\<dots> = (if \<exists>j. i \<le> j \<and> j < n \<and> x = dst + 8 * j then m (src + (x - dst)) else m x)"
  proof (cases "x = dst + 8 * i")
    case True
    then have "\<not> (\<exists>j. i + 1 \<le> j \<and> j < n \<and> x = dst + 8 * j)"
      using mult8_inj [OF i _ assms(2)] le by (auto simp del: fun_upd_apply)
    then show ?thesis unfolding ih using True i by auto
  next
    case False
    then have e: "(\<exists>j. i + 1 \<le> j \<and> j < n \<and> x = dst + 8 * j) \<longleftrightarrow> (\<exists>j. i \<le> j \<and> j < n \<and> x = dst + 8 * j)"
      using le by auto
    show ?thesis
    proof (cases "\<exists>j. i \<le> j \<and> j < n \<and> x = dst + 8 * j")
      case True
      then obtain j where "j < n" "x = dst + 8 * j" by blast
      with src have "?m (src + (x - dst)) = m (src + (x - dst))" by (simp del: fun_upd_apply)
      then show ?thesis unfolding ih e using True by (simp only: if_True)
    next
      case none: False
      have "?m x = m x" using False by simp
      then show ?thesis unfolding ih e using none by (simp only: if_False)
    qed
  qed
  finally show ?case .
qed

lemma copy_words_block:
  assumes "cells dst n \<inter> cells src n = {}" "unat n \<le> 2 ^ 60"
  shows "block_words (copy_words m dst src 0 n) dst n = block_words m src n"
    "same_except (cells dst n) m (copy_words m dst src 0 n)"
proof -
  let ?m = "copy_words m dst src 0 n"
  have at: "?m x = (if x \<in> cells dst n then m (src + (x - dst)) else m x)" for x
    unfolding copy_words_at [OF assms] cells_word [symmetric] by simp
  then have "?m (dst + 8 * of_nat k) = m (src + 8 * of_nat k)" if "k < unat n" for k
    using cells_nat [OF that, of dst] by simp
  then show "block_words ?m dst n = block_words m src n" by (simp add: block_words_def)
  show "same_except (cells dst n) m ?m" by (simp add: same_except_def at)
qed

subsection \<open>The slots of a ring buffer\<close>

definition slot :: "u64 \<Rightarrow> u64 \<Rightarrow> nat \<Rightarrow> u64" where
  "slot buf w k = buf + 8 * (w * of_nat k)"

definition ring_cells :: "u64 \<Rightarrow> u64 set" where
  "ring_cells rb = {rb_buf rb, rb_head rb, rb_tail rb}"

definition arr_cells :: "u64 \<Rightarrow> u64 set" where
  "arr_cells buf = {a_mem_sz buf, a_used_sz buf, a_item_sz buf}"

text \<open>The words of a ring buffer with \<open>c\<close> slots of \<open>w\<close> words: its fields, the array's and the slots.\<close>

definition ring_area :: "u64 \<Rightarrow> u64 \<Rightarrow> nat \<Rightarrow> u64 \<Rightarrow> u64 set" where
  "ring_area rb buf c w = ring_cells rb \<union> arr_cells buf \<union> cells buf (of_nat c * w)"

definition ring_shape :: "u64 \<Rightarrow> u64 \<Rightarrow> nat \<Rightarrow> u64 \<Rightarrow> bool" where
  "ring_shape rb buf c w \<longleftrightarrow> 2 \<le> c \<and> w \<noteq> 0 \<and> c * unat w \<le> 2 ^ 60 \<and>
     (ring_cells rb \<union> arr_cells buf) \<inter> cells buf (of_nat c * w) = {} \<and> ring_cells rb \<inter> arr_cells buf = {}"

lemma ring_capacity:
  assumes "ring_shape rb buf c w"
  shows "0 < unat w" "c * unat w \<le> 2 ^ 60" "c \<le> 2 ^ 60" "2 \<le> c"
proof -
  show w: "0 < unat w" "c * unat w \<le> 2 ^ 60" "2 \<le> c"
    using assms by (simp_all add: ring_shape_def unat_gt_0)
  have "c * 1 \<le> c * unat w" using w(1) by (intro mult_le_mono2) simp
  then show "c \<le> 2 ^ 60" using w(2) by linarith
qed

lemma ring_word_bound: "ring_shape rb buf c w \<Longrightarrow> unat w \<le> 2 ^ 60"
proof -
  assume sh: "ring_shape rb buf c w"
  have "1 * unat w \<le> c * unat w" by (intro mult_le_mono1) (use ring_capacity(4) [OF sh] in simp)
  then show ?thesis using ring_capacity(2) [OF sh] by linarith
qed

lemma slot_bounds:
  assumes "ring_shape rb buf c w" "k < c" "j < w"
  shows "unat (w * of_nat k + j) = unat w * k + unat j" "unat w * k + unat j < c * unat w"
    "w * of_nat k + j < of_nat c * w" "unat (of_nat c * w) = c * unat w"
proof -
  note c = ring_capacity(2,3) [OF assms(1)]
  have "Suc k * unat w \<le> c * unat w" using assms(2) by (intro mult_le_mono1) simp
  then show lt: "unat w * k + unat j < c * unat w" using assms(3) by (simp add: word_less_nat_alt mult.commute)
  have k: "unat (of_nat k :: u64) = k" "unat (of_nat c :: u64) = c"
    using assms(2) c by (simp_all add: unat_of_nat take_bit_nat_eq_self)
  show e: "unat (w * of_nat k + j) = unat w * k + unat j"
    using lt c(1) k(1) by (simp add: unat_word_ariths)
  show "unat (of_nat c * w) = c * unat w" using k(2) c(1) by (simp add: unat_word_ariths)
  with e lt show "w * of_nat k + j < of_nat c * w" by (simp add: word_less_nat_alt)
qed

lemma slot_word: "slot buf w k + 8 * j = buf + 8 * (w * of_nat k + j)"
  by (simp add: slot_def algebra_simps)

lemma slot_sub:
  assumes "ring_shape rb buf c w" "k < c"
  shows "cells (slot buf w k) w \<subseteq> cells buf (of_nat c * w)"
proof
  fix x assume "x \<in> cells (slot buf w k) w"
  then obtain j where j: "j < w" "x = slot buf w k + 8 * j" by (auto simp: cells_def)
  show "x \<in> cells buf (of_nat c * w)"
    unfolding j(2) slot_word by (rule cellsI [OF slot_bounds(3) [OF assms j(1)]])
qed

lemma slot_apart:
  assumes "ring_shape rb buf c w" "k < c" "i < c" "k \<noteq> i"
  shows "cells (slot buf w k) w \<inter> cells (slot buf w i) w = {}"
proof -
  have False if j: "j < w" "l < w" "slot buf w k + 8 * j = slot buf w i + 8 * l" for j l
  proof -
    note b = slot_bounds [OF assms(1,2) j(1)] and d = slot_bounds [OF assms(1,3) j(2)]
    have "unat (of_nat c * w) \<le> 2 ^ 60" using b(4) assms(1) by (simp add: ring_shape_def)
    moreover have "8 * (w * of_nat k + j) = 8 * (w * of_nat i + l)" using j(3) by (simp add: slot_word)
    ultimately have "w * of_nat k + j = w * of_nat i + l" by (rule mult8_inj [OF b(3) d(3)])
    then have "unat w * k + unat j = unat w * i + unat l" using b(1) d(1) by metis
    then have "(unat w * k + unat j) div unat w = (unat w * i + unat l) div unat w" by simp
    then show False using assms(4) j(1,2) by (simp add: word_less_nat_alt)
  qed
  then show ?thesis by (auto simp: cells_def)
qed

subsection \<open>The queue in a ring buffer\<close>

definition ring_queue :: "mem \<Rightarrow> u64 \<Rightarrow> nat \<Rightarrow> u64 \<Rightarrow> u64 set \<Rightarrow> u64 list list \<Rightarrow> bool" where
  "ring_queue m rb c w A q \<longleftrightarrow>
     (let buf = m (rb_buf rb); t = unat (m (rb_tail rb)) in
      ring_shape rb buf c w \<and> A = ring_area rb buf c w \<and>
      array_capacity m buf = of_nat c \<and> m (a_item_sz buf) = w \<and>
      t < c \<and> length q < c \<and> m (rb_head rb) = of_nat ((t + length q) mod c) \<and>
      q = map (\<lambda>k. block_words m (slot buf w ((t + k) mod c)) w) [0..<length q])"

lemma ring_queueD:
  assumes "ring_queue m rb c w A q"
  shows "ring_shape rb (m (rb_buf rb)) c w" "A = ring_area rb (m (rb_buf rb)) c w"
    "array_capacity m (m (rb_buf rb)) = of_nat c" "m (a_item_sz (m (rb_buf rb))) = w"
    "unat (m (rb_tail rb)) < c" "length q < c"
    "m (rb_head rb) = of_nat ((unat (m (rb_tail rb)) + length q) mod c)"
    "k < length q \<Longrightarrow> q ! k = block_words m (slot (m (rb_buf rb)) w ((unat (m (rb_tail rb)) + k) mod c)) w"
proof -
  note d = assms [unfolded ring_queue_def Let_def]
  show "ring_shape rb (m (rb_buf rb)) c w" "A = ring_area rb (m (rb_buf rb)) c w"
    "array_capacity m (m (rb_buf rb)) = of_nat c" "m (a_item_sz (m (rb_buf rb))) = w"
    "unat (m (rb_tail rb)) < c" "length q < c"
    "m (rb_head rb) = of_nat ((unat (m (rb_tail rb)) + length q) mod c)"
    using d by blast+
  have "q = map (\<lambda>k. block_words m (slot (m (rb_buf rb)) w ((unat (m (rb_tail rb)) + k) mod c)) w) [0..<length q]"
    using d by blast
  then show "k < length q \<Longrightarrow> q ! k = block_words m (slot (m (rb_buf rb)) w ((unat (m (rb_tail rb)) + k) mod c)) w"
    by (metis (no_types, lifting) nth_map_upt add.left_neutral diff_zero)
qed

lemma ring_queueI:
  assumes "ring_shape rb buf c w" "A = ring_area rb buf c w" "m (rb_buf rb) = buf"
    "array_capacity m buf = of_nat c" "m (a_item_sz buf) = w"
    "m (rb_tail rb) = of_nat t" "t < c" "length q < c" "m (rb_head rb) = of_nat ((t + length q) mod c)"
    "\<And>k. k < length q \<Longrightarrow> q ! k = block_words m (slot buf w ((t + k) mod c)) w"
  shows "ring_queue m rb c w A q"
proof -
  have "c \<le> 2 ^ 60" by (rule ring_capacity(3) [OF assms(1)])
  then have t: "unat (m (rb_tail rb)) = t"
    using assms(6,7) by (simp add: unat_of_nat take_bit_nat_eq_self)
  show ?thesis
    unfolding ring_queue_def Let_def assms(3) t
    using assms(1-5,7-9) by (intro conjI nth_equalityI) (simp_all add: assms(10))
qed

text \<open>Indices: the word arithmetic of the code is that of the numbers.\<close>

lemma ring_index:
  assumes "ring_shape rb buf c w" "i < c"
  shows "unat (of_nat i :: u64) = i" "unat (of_nat c :: u64) = c"
    "(if of_nat c \<le> (of_nat i + 1 :: u64) then 0 else of_nat i + 1) = (of_nat ((i + 1) mod c) :: u64)"
    "(of_nat i + (of_nat c - 1)) mod of_nat c = (of_nat ((i + c - 1) mod c) :: u64)"
proof -
  note c = ring_capacity(3) [OF assms(1)]
  have u: "unat (of_nat j :: u64) = j" if "j \<le> 2 * c" for j
    using that c by (simp add: unat_of_nat take_bit_nat_eq_self)
  show "unat (of_nat i :: u64) = i" "unat (of_nat c :: u64) = c" using u assms(2) by simp_all
  have e: "(of_nat i + 1 :: u64) = of_nat (i + 1)" by simp
  have "of_nat c \<le> (of_nat (i + 1) :: u64) \<longleftrightarrow> c \<le> i + 1"
    unfolding word_le_nat_alt using u [of c] u [of "i + 1"] assms(2) by simp
  then show "(if of_nat c \<le> (of_nat i + 1 :: u64) then 0 else of_nat i + 1) = (of_nat ((i + 1) mod c) :: u64)"
    unfolding e using assms(2) by (cases "i + 1 = c") (simp_all del: of_nat_add of_nat_Suc)
  have e: "(of_nat i + (of_nat c - 1) :: u64) = of_nat (i + c - 1)" using assms(2) by (simp add: of_nat_diff)
  have "(i + c - 1) mod c < c" using assms(2) by simp
  then have "(i + c - 1) mod c \<le> 2 * c" by linarith
  then have m: "unat (of_nat ((i + c - 1) mod c) :: u64) = (i + c - 1) mod c" by (rule u)
  show "(of_nat i + (of_nat c - 1)) mod of_nat c = (of_nat ((i + c - 1) mod c) :: u64)"
    unfolding e word_unat_eq_iff unat_mod_distrib
    using u [of "i + c - 1"] u [of c] assms(2) m by (simp del: of_nat_add of_nat_diff)
qed

lemma ring_of_nat_eq:
  assumes "ring_shape rb buf c w" "i < c" "j < c"
  shows "(of_nat i :: u64) = of_nat j \<longleftrightarrow> i = j"
  using ring_index(1) [OF assms(1,2)] ring_index(1) [OF assms(1,3)] by metis

subsection \<open>The interface of a bounded queue\<close>

locale bounded_queue =
  fixes repr :: "mem \<Rightarrow> u64 \<Rightarrow> nat \<Rightarrow> u64 \<Rightarrow> u64 set \<Rightarrow> u64 list list \<Rightarrow> bool"
    and add :: "mem \<Rightarrow> u64 \<Rightarrow> u64 \<Rightarrow> mem"
    and pop :: "mem \<Rightarrow> u64 \<Rightarrow> u64 \<Rightarrow> mem"
    and is_empty :: "mem \<Rightarrow> u64 \<Rightarrow> bool"
    and is_full :: "mem \<Rightarrow> u64 \<Rightarrow> bool"
  assumes empty_law: "repr m rb c w A q \<Longrightarrow> is_empty m rb \<longleftrightarrow> q = []"
    and full_law: "repr m rb c w A q \<Longrightarrow> is_full m rb \<longleftrightarrow> length q + 1 = c"
    and add_law: "repr m rb c w A q \<Longrightarrow> length q + 1 < c \<Longrightarrow> cells item w \<inter> A = {} \<Longrightarrow>
      repr (add m rb item) rb c w A (q @ [block_words m item w]) \<and> same_except A m (add m rb item)"
    and pop_law: "repr m rb c w A (x # q) \<Longrightarrow> item \<noteq> 0 \<Longrightarrow> cells item w \<inter> A = {} \<Longrightarrow>
      repr (pop m rb item) rb c w A q \<and> block_words (pop m rb item) item w = x \<and>
      same_except (A \<union> cells item w) m (pop m rb item)"
    and drop_law: "repr m rb c w A (x # q) \<Longrightarrow> repr (pop m rb 0) rb c w A q \<and> same_except A m (pop m rb 0)"
    and frame: "repr m rb c w A q \<Longrightarrow> \<forall>x \<in> A. m' x = m x \<Longrightarrow> repr m' rb c w A q"
begin

text \<open>An item put into an empty queue comes out of it.\<close>

lemma add_pop:
  assumes r: "repr m rb c w A []" "1 < c" and i: "cells src w \<inter> A = {}" "cells dst w \<inter> A = {}" "dst \<noteq> 0"
  shows "repr (pop (add m rb src) rb dst) rb c w A []"
    "block_words (pop (add m rb src) rb dst) dst w = block_words m src w"
proof -
  have "repr (add m rb src) rb c w A [block_words m src w]" using add_law [OF r(1) _ i(1)] r(2) by simp
  from pop_law [OF this i(3,2)] show "repr (pop (add m rb src) rb dst) rb c w A []"
    "block_words (pop (add m rb src) rb dst) dst w = block_words m src w" by blast+
qed

text \<open>Items are added one after the other as long as there is room.\<close>

lemma add_many:
  assumes "repr m rb c w A q" "length q + length items < c" "\<forall>p \<in> set items. cells p w \<inter> A = {}"
  shows "repr (fold (\<lambda>p m. add m rb p) items m) rb c w A (q @ map (\<lambda>p. block_words m p w) items)"
  using assms
proof (induction items arbitrary: m q)
  case (Cons p items)
  have a: "repr (add m rb p) rb c w A (q @ [block_words m p w])" "same_except A m (add m rb p)"
    using add_law [OF Cons.prems(1), of p] Cons.prems(2,3) by auto
  have "block_words (add m rb p) p' w = block_words m p' w" if "p' \<in> set items" for p'
    using that Cons.prems(3) a(2) by (intro block_words_cong) (auto simp: same_except_def)
  then have "map (\<lambda>p'. block_words (add m rb p) p' w) items = map (\<lambda>p'. block_words m p' w) items" by simp
  with Cons.IH [OF a(1)] Cons.prems(2,3) show ?case by simp
qed simp

end

subsection \<open>The ring buffer as a bounded queue\<close>

lemma mod_index_neq:
  assumes "k < l" "l < (c :: nat)"
  shows "(t + k) mod c \<noteq> (t + l) mod c"
proof
  assume "(t + k) mod c = (t + l) mod c"
  then have "c dvd (t + l) - (t + k)" using assms(1) mod_eq_dvd_iff_nat [of "t + k" "t + l" c] by simp
  then have "c dvd l - k" by simp
  then show False using assms dvd_imp_le [of c "l - k"] by simp
qed

lemma ring_area_sub:
  "ring_cells rb \<subseteq> ring_area rb buf c w" "arr_cells buf \<subseteq> ring_area rb buf c w"
  "ring_shape rb buf c w \<Longrightarrow> k < c \<Longrightarrow> cells (slot buf w k) w \<subseteq> ring_area rb buf c w"
  using slot_sub unfolding ring_area_def by blast+

text \<open>The fields of a ring buffer are not touched by writes to slots or outside.\<close>

lemma ring_fields_same:
  assumes sh: "ring_shape rb buf c w" and se: "same_except (cells buf (of_nat c * w) \<union> B) m m'"
    and B: "B \<inter> ring_area rb buf c w = {}"
  shows "m' (rb_buf rb) = m (rb_buf rb)" "m' (rb_head rb) = m (rb_head rb)" "m' (rb_tail rb) = m (rb_tail rb)"
    "array_capacity m' buf = array_capacity m buf" "m' (a_item_sz buf) = m (a_item_sz buf)"
proof -
  have e: "m' x = m x" if "x \<in> ring_cells rb \<union> arr_cells buf" for x
    using that sh B by (intro same_exceptD [OF se]) (auto simp: ring_shape_def ring_area_def)
  show "m' (rb_buf rb) = m (rb_buf rb)" "m' (rb_head rb) = m (rb_head rb)" "m' (rb_tail rb) = m (rb_tail rb)"
    "m' (a_item_sz buf) = m (a_item_sz buf)"
    by (intro e, simp add: ring_cells_def arr_cells_def)+
  moreover have "m' (a_mem_sz buf) = m (a_mem_sz buf)" by (intro e) (simp add: arr_cells_def)
  ultimately show "array_capacity m' buf = array_capacity m buf" by (simp add: array_capacity_def)
qed

lemma ring_cells_distinct: "rb_buf rb \<noteq> rb_head rb" "rb_buf rb \<noteq> rb_tail rb" "rb_head rb \<noteq> rb_tail rb"
  by (simp_all add: ring_fields)

lemma ring_frame:
  assumes r: "ring_queue m rb c w A q" and s: "\<forall>x \<in> A. m' x = m x"
  shows "ring_queue m' rb c w A q"
proof -
  note d = ring_queueD [OF r]
  let ?buf = "m (rb_buf rb)"
  have se: "same_except (cells ?buf (of_nat c * w) \<union> - A) m m'" using s by (auto simp: same_except_def)
  note f = ring_fields_same [OF d(1) se]
  have B: "- A \<inter> ring_area rb ?buf c w = {}" using d(2) by simp
  show ?thesis
  proof (rule ring_queueI [OF d(1,2), where t = "unat (m (rb_tail rb))"])
    fix k assume k: "k < length q"
    have "(unat (m (rb_tail rb)) + k) mod c < c" using d(5) by simp
    from ring_area_sub(3) [OF d(1) this]
    show "q ! k = block_words m' (slot ?buf w ((unat (m (rb_tail rb)) + k) mod c)) w"
      unfolding d(8) [OF k] using s d(2) by (intro block_words_cong [symmetric]) blast
  qed (use f [OF B] d in simp_all)
qed

lemma ring_empty:
  assumes "ring_queue m rb c w A q"
  shows "ring_buf_isempty m rb \<longleftrightarrow> q = []"
proof -
  note d = ring_queueD [OF assms]
  let ?t = "unat (m (rb_tail rb))"
  have "ring_buf_isempty m rb \<longleftrightarrow> (of_nat ((?t + length q) mod c) :: u64) = of_nat ?t"
    by (simp add: ring_buf_isempty_def d(7))
  also have "\<dots> \<longleftrightarrow> (?t + length q) mod c = (?t + 0) mod c"
    using d(5) ring_of_nat_eq [OF d(1), of "(?t + length q) mod c" ?t] by simp
  also have "\<dots> \<longleftrightarrow> q = []" using mod_index_neq [OF _ d(6), of 0 ?t] by (cases "q = []") auto
  finally show ?thesis .
qed

lemma ring_full:
  assumes "ring_queue m rb c w A q"
  shows "ring_buf_isfull m rb \<longleftrightarrow> length q + 1 = c"
proof -
  note d = ring_queueD [OF assms]
  let ?t = "unat (m (rb_tail rb))"
  have "m (rb_tail rb) + (of_nat c - 1) = of_nat ?t + (of_nat c - 1)" by simp
  then have "ring_buf_isfull m rb \<longleftrightarrow> (of_nat ((?t + c - 1) mod c) :: u64) = of_nat ((?t + length q) mod c)"
    unfolding ring_buf_isfull_def Let_def d(3,7) using ring_index(4) [OF d(1,5)] by simp
  also have "\<dots> \<longleftrightarrow> (?t + (c - 1)) mod c = (?t + length q) mod c"
    using d(5) ring_of_nat_eq [OF d(1), of "(?t + c - 1) mod c" "(?t + length q) mod c"] by simp
  also have "\<dots> \<longleftrightarrow> length q + 1 = c"
  proof (cases "length q = c - 1")
    case False
    then have "length q < c - 1" using d(6) by linarith
    from mod_index_neq [OF this, of c ?t] d(6) False show ?thesis by auto
  qed (use d(6) in simp)
  finally show ?thesis .
qed

lemma ring_add:
  assumes r: "ring_queue m rb c w A q" and room: "length q + 1 < c" and i: "cells item w \<inter> A = {}"
  shows "ring_queue (ring_buf_add m rb item) rb c w A (q @ [block_words m item w])"
    "same_except A m (ring_buf_add m rb item)"
proof -
  note d = ring_queueD [OF r]
  let ?buf = "m (rb_buf rb)" and ?t = "unat (m (rb_tail rb))"
  let ?h = "(?t + length q) mod c"
  let ?m = "copy_words m (slot ?buf w ?h) item 0 w"
  have h: "?h < c" using d(5) by simp
  note w = ring_word_bound [OF d(1)]
  have sl: "cells (slot ?buf w ?h) w \<subseteq> A" using ring_area_sub(3) [OF d(1) h] d(2) by simp
  have dis: "cells (slot ?buf w ?h) w \<inter> cells item w = {}" using sl i by blast
  note cp = copy_words_block [OF dis w, of m]
  have "same_except (cells ?buf (of_nat c * w) \<union> {}) m ?m"
    using same_except_mono [OF cp(2) slot_sub [OF d(1) h]] by simp
  note f = ring_fields_same [OF d(1) this, simplified]
  have "?h + 1 < c \<or> ?h + 1 = c" using h by linarith
  have add: "ring_buf_add m rb item = ?m(rb_head rb := of_nat ((?h + 1) mod c))"
    unfolding ring_buf_add_def ring_buf_item_sz_def Let_def d(3,4) slot_def [symmetric]
    using ring_index(3) [OF d(1) h] f(2) d(7) by (auto simp: slot_def fun_upd_idem_iff split: if_splits)
  show "same_except A m (ring_buf_add m rb item)"
    unfolding add
    by (subst same_except_write) (use d(2) ring_area_sub(1) same_except_mono [OF cp(2) sl] in \<open>auto simp: ring_cells_def\<close>)
  show "ring_queue (ring_buf_add m rb item) rb c w A (q @ [block_words m item w])"
  proof (rule ring_queueI [OF d(1,2), where t = ?t])
    let ?m' = "ring_buf_add m rb item"
    note hd = ring_cells_distinct [of rb] ring_cells_distinct [of rb, symmetric]
    have out: "x \<noteq> rb_head rb" if "x \<in> arr_cells ?buf \<union> cells ?buf (of_nat c * w)" for x
      using that d(1) by (auto simp: ring_shape_def ring_cells_def)
    have arr: "?m' x = ?m x" if "x \<in> arr_cells ?buf" for x using out that unfolding add by simp
    have eq: "block_words ?m' (slot ?buf w k) w = block_words ?m (slot ?buf w k) w" if "k < c" for k
      unfolding add using slot_sub [OF d(1) that] out by (intro block_words_cong) auto
    show "?m' (rb_buf rb) = ?buf" "?m' (rb_tail rb) = of_nat ?t" using hd f unfolding add by simp_all
    show "array_capacity ?m' ?buf = of_nat c" "?m' (a_item_sz ?buf) = w"
      using arr [of "a_mem_sz ?buf"] arr [of "a_item_sz ?buf"] f(4,5) d(3,4)
      by (simp_all add: array_capacity_def arr_cells_def)
    show "?m' (rb_head rb) = of_nat ((?t + length (q @ [block_words m item w])) mod c)"
      unfolding add by (simp add: mod_Suc_eq)
    fix k assume "k < length (q @ [block_words m item w])"
    then consider "k < length q" | "k = length q" by fastforce
    then show "(q @ [block_words m item w]) ! k = block_words ?m' (slot ?buf w ((?t + k) mod c)) w"
    proof cases
      case 1
      have kc: "(?t + k) mod c < c" using d(5) by simp
      have "cells (slot ?buf w ((?t + k) mod c)) w \<inter> cells (slot ?buf w ?h) w = {}"
        by (rule slot_apart [OF d(1) kc h mod_index_neq [OF 1 d(6)]])
      then have "block_words ?m (slot ?buf w ((?t + k) mod c)) w = block_words m (slot ?buf w ((?t + k) mod c)) w"
        using cp(2) by (intro block_words_cong) (auto simp: same_except_def)
      then show ?thesis using 1 d(8) [OF 1] eq [OF kc] by (simp add: nth_append)
    next
      case 2
      then show ?thesis using eq [OF h] cp(1) by simp
    qed
  qed (use d(5) room in simp_all)
qed

text \<open>Removing the first item advances the index of the tail.\<close>

lemma ring_advance:
  assumes r: "ring_queue m rb c w A (x # q)"
  shows "ring_queue (m(rb_tail rb := of_nat ((unat (m (rb_tail rb)) + 1) mod c))) rb c w A q"
    (is "ring_queue ?m _ _ _ _ _") and "x = block_words m (slot (m (rb_buf rb)) w (unat (m (rb_tail rb)))) w"
    "same_except A m (m(rb_tail rb := v))"
proof -
  note d = ring_queueD [OF r]
  let ?buf = "m (rb_buf rb)" and ?t = "unat (m (rb_tail rb))"
  show "x = block_words m (slot ?buf w ?t) w" using d(8) [of 0] d(5) by simp
  show "same_except A m (m(rb_tail rb := v))"
    by (subst same_except_write) (use d(2) in \<open>simp_all add: ring_area_def ring_cells_def\<close>)
  note hd = ring_cells_distinct [of rb] ring_cells_distinct [of rb, symmetric]
  have out: "y \<noteq> rb_tail rb" if "y \<in> arr_cells ?buf \<union> cells ?buf (of_nat c * w)" for y
    using that d(1) by (auto simp: ring_shape_def ring_cells_def)
  show "ring_queue ?m rb c w A q"
  proof (rule ring_queueI [OF d(1,2), where t = "(?t + 1) mod c"])
    show "array_capacity ?m ?buf = of_nat c" "?m (a_item_sz ?buf) = w"
      using out d(3,4) by (simp_all add: array_capacity_def arr_cells_def)
    show "?m (rb_head rb) = of_nat (((?t + 1) mod c + length q) mod c)"
      using hd d(7) by (simp add: mod_add_left_eq)
    fix k assume "k < length q"
    then have "q ! k = block_words m (slot ?buf w ((?t + Suc k) mod c)) w" using d(8) [of "Suc k"] by simp
    also have "(?t + Suc k) mod c = ((?t + 1) mod c + k) mod c" by (simp add: mod_add_left_eq)
    finally have q: "q ! k = block_words m (slot ?buf w (((?t + 1) mod c + k) mod c)) w" .
    have "((?t + 1) mod c + k) mod c < c" using d(5) by simp
    from slot_sub [OF d(1) this] out
    show "q ! k = block_words ?m (slot ?buf w (((?t + 1) mod c + k) mod c)) w"
      unfolding q by (intro block_words_cong [symmetric]) auto
  qed (use d(5,6) hd in simp_all)
qed

text \<open>The first item is copied to where the caller wants it.\<close>

lemma ring_copy_out:
  assumes r: "ring_queue m rb c w A q" and i: "cells item w \<inter> A = {}"
    and m': "m' = copy_words m item (slot (m (rb_buf rb)) w (unat (m (rb_tail rb)))) 0 w"
  shows "ring_queue m' rb c w A q"
    "block_words m' item w = block_words m (slot (m (rb_buf rb)) w (unat (m (rb_tail rb)))) w"
    "same_except (cells item w) m m'" "m' (rb_tail rb) = m (rb_tail rb)" "m' (rb_buf rb) = m (rb_buf rb)"
proof -
  note d = ring_queueD [OF r]
  have "cells item w \<inter> cells (slot (m (rb_buf rb)) w (unat (m (rb_tail rb)))) w = {}"
    using ring_area_sub(3) [OF d(1,5)] d(2) i by blast
  note cp = copy_words_block [OF this ring_word_bound [OF d(1)], of m, folded m']
  show "block_words m' item w = block_words m (slot (m (rb_buf rb)) w (unat (m (rb_tail rb)))) w"
    "same_except (cells item w) m m'" by (fact cp)+
  have e: "\<forall>x \<in> A. m' x = m x" using cp(2) i by (auto simp: same_except_def)
  then show "ring_queue m' rb c w A q" by (rule ring_frame [OF r])
  show "m' (rb_tail rb) = m (rb_tail rb)" "m' (rb_buf rb) = m (rb_buf rb)"
    by (rule bspec [OF e], simp add: d(2) ring_area_def ring_cells_def)+
qed

lemma ring_pop:
  assumes r: "ring_queue m rb c w A (x # q)"
  shows "item \<noteq> 0 \<Longrightarrow> cells item w \<inter> A = {} \<Longrightarrow> ring_queue (ring_buf_pop m rb item) rb c w A q \<and>
      block_words (ring_buf_pop m rb item) item w = x \<and>
      same_except (A \<union> cells item w) m (ring_buf_pop m rb item)"
    and "ring_queue (ring_buf_pop m rb 0) rb c w A q \<and> same_except A m (ring_buf_pop m rb 0)"
proof -
  note d = ring_queueD [OF r] and a = ring_advance [OF r]
  let ?buf = "m (rb_buf rb)" and ?t = "unat (m (rb_tail rb))"
  have sl: "slot ?buf w ?t = ?buf + 8 * (w * m (rb_tail rb))" by (simp add: slot_def)
  show "ring_queue (ring_buf_pop m rb 0) rb c w A q \<and> same_except A m (ring_buf_pop m rb 0)"
  proof -
    have "ring_buf_pop m rb 0 = m(rb_tail rb := of_nat ((?t + 1) mod c))"
      unfolding ring_buf_pop_def ring_buf_item_sz_def Let_def d(3,4)
      using ring_index(3) [OF d(1,5)] by (auto simp: fun_upd_idem_iff split: if_splits)
    with a show ?thesis by simp
  qed
  assume i: "item \<noteq> 0" "cells item w \<inter> A = {}"
  let ?m = "copy_words m item (slot ?buf w ?t) 0 w"
  note cp = ring_copy_out [OF r i(2) refl]
  have pop: "ring_buf_pop m rb item = ?m(rb_tail rb := of_nat ((unat (?m (rb_tail rb)) + 1) mod c))"
    unfolding ring_buf_pop_def ring_buf_item_sz_def Let_def d(3,4) sl [symmetric]
    using ring_index(3) [OF d(1,5)] i(1) cp(4) by (auto simp: fun_upd_idem_iff split: if_splits)
  note b = ring_advance [OF cp(1)]
  have "rb_tail rb \<in> A" by (simp add: d(2) ring_area_def ring_cells_def)
  then have "rb_tail rb \<notin> cells item w" using i(2) by blast
  then have "block_words (ring_buf_pop m rb item) item w = block_words ?m item w"
    unfolding pop by (intro block_words_cong) auto
  moreover have "same_except (A \<union> cells item w) m (ring_buf_pop m rb item)"
    unfolding pop by (rule same_except_trans [OF same_except_mono [OF cp(3)] same_except_mono [OF b(3)]]) auto
  ultimately show "ring_queue (ring_buf_pop m rb item) rb c w A q \<and>
      block_words (ring_buf_pop m rb item) item w = x \<and>
      same_except (A \<union> cells item w) m (ring_buf_pop m rb item)"
    using b(1) a(2) cp(2) unfolding pop [symmetric] by simp
qed

interpretation ring: bounded_queue ring_queue ring_buf_add ring_buf_pop ring_buf_isempty ring_buf_isfull
  by unfold_locales
    (rule ring_empty ring_full ring_frame ring_pop conjI [OF ring_add(1) ring_add(2)]; assumption)+

end
