(* ===== verification/Num_Value.thy ===== *)
theory Num_Value
  imports Bignum Obj_Set Ring
begin

text \<open>
  The value of numbers of any size: what \<open>adc\<close>, \<open>num_negate\<close> and \<open>num_add\<close> compute.
\<close>

subsection \<open>Loops\<close>

lemma for_up_rule:
  assumes "P i s" "i \<le> n" "\<And>j s. i \<le> j \<Longrightarrow> j < n \<Longrightarrow> P j s \<Longrightarrow> P (j + 1) (f j s)"
  shows "P n (for_up i n f s)"
  using assms
proof (induction "unat n - unat i" arbitrary: i s)
  case 0
  then have "i = n" by (simp add: word_le_nat_alt word_unat_eq_iff)
  then show ?case using 0 by (subst for_up.simps) simp
next
  case (Suc k)
  then have i: "i < n" by (simp add: word_less_nat_alt)
  have le: "i + 1 \<le> n" using i unat_suc [OF i] by (simp add: word_le_nat_alt word_less_nat_alt)
  have "i \<le> i + 1" using unat_suc [OF i] by (simp add: word_le_nat_alt)
  then have step: "P (j + 1) (f j s)" if "i + 1 \<le> j" "j < n" "P j s" for j s
    using Suc.prems(3) that order_trans by blast
  have "P n (for_up (i + 1) n f (f i s))"
    by (rule Suc.hyps(1)) (use Suc.hyps(2) Suc.prems(1,3) i le step in \<open>simp_all add: unat_suc [OF i]\<close>)
  then show ?case using i by (subst for_up.simps) simp
qed

lemma for_lim_rule:
  assumes "P i s" "i \<le> n" "\<And>j s. P j s \<Longrightarrow> lim s = n" "\<And>j s. i \<le> j \<Longrightarrow> j < n \<Longrightarrow> P j s \<Longrightarrow> P (j + 1) (f j s)"
  shows "\<exists>s'. for_lim i lim f s = Some s' \<and> P n s'"
  using assms
proof (induction "unat n - unat i" arbitrary: i s)
  case 0
  then have "i = n" by (simp add: word_le_nat_alt word_unat_eq_iff)
  then show ?case using 0 by (subst for_lim.simps) simp
next
  case (Suc k)
  then have i: "i < n" by (simp add: word_less_nat_alt)
  have le: "i + 1 \<le> n" using i unat_suc [OF i] by (simp add: word_le_nat_alt word_less_nat_alt)
  have "i \<le> i + 1" using unat_suc [OF i] by (simp add: word_le_nat_alt)
  then have step: "P (j + 1) (f j s)" if "i + 1 \<le> j" "j < n" "P j s" for j s
    using Suc.prems(4) that order_trans by blast
  have "\<exists>s'. for_lim (i + 1) lim f (f i s) = Some s' \<and> P n s'"
    by (rule Suc.hyps(1)) (use Suc.hyps(2) Suc.prems(1,3,4) i le step in \<open>simp_all add: unat_suc [OF i]\<close>)
  then show ?case using i Suc.prems(3) [OF Suc.prems(1)] by (subst for_lim.simps) simp
qed

subsection \<open>Addition with carry\<close>

lemma unat_plus_mod: "unat (x + y :: u64) = (unat x + unat y) mod 2 ^ 64"
  by (simp add: unat_word_ariths)

lemma drop_63: "unat (drop_bit 63 (x :: u64)) = unat x div 2 ^ 63" "drop_bit 63 (x :: u64) = 0 \<or> drop_bit 63 x = 1"
proof -
  show u: "unat (drop_bit 63 x) = unat x div 2 ^ 63" by (simp add: drop_bit_eq_div unat_div_distrib)
  have "unat x < 2 ^ 63 * 2" using unat_less_2p64 [of x] by simp
  then have "unat x div 2 ^ 63 < 2" by (intro less_mult_imp_div_less) linarith
  then have "unat (drop_bit 63 x) = 0 \<or> unat (drop_bit 63 x) = 1" using u by linarith
  then show "drop_bit 63 x = 0 \<or> drop_bit 63 x = 1" by (simp add: word_unat_eq_iff)
qed

lemma low_63: "unat ((x :: u64) AND drop_bit 1 (- 1)) = unat x mod 2 ^ 63"
proof -
  have "(drop_bit 1 (- 1) :: u64) = mask 63" by (simp add: mask_eq_exp_minus_1)
  then have "x AND drop_bit 1 (- 1) = take_bit 63 x" by (simp only: take_bit_eq_mask)
  then show ?thesis by (simp add: take_bit_eq_mod unat_mod_distrib)
qed

text \<open>The carry is the one of the exact sum.\<close>

lemma adc_exact: "unat (fst (adc x y)) + 2 ^ 64 * unat (snd (adc x y)) = unat x + unat y"
proof -
  let ?xl = "unat x mod 2 ^ 63" and ?yl = "unat y mod 2 ^ 63"
  let ?X = "drop_bit 63 x" and ?Y = "drop_bit 63 y"
  define z where "z = (x AND drop_bit 1 (- 1)) + (y AND drop_bit 1 (- 1))"
  have "?xl < 2 ^ 63" "?yl < 2 ^ 63" by simp_all
  then have "?xl + ?yl < 2 ^ 64" by simp
  then have z: "unat z = ?xl + ?yl" unfolding z_def unat_plus_mod low_63 by simp
  have c: "snd (adc x y) = (?X AND ?Y) OR (?X AND drop_bit 63 z) OR (?Y AND drop_bit 63 z)"
    by (simp add: adc_def Let_def z_def)
  have s: "unat (fst (adc x y)) = (unat x + unat y) mod 2 ^ 64" by (simp add: adc_def Let_def unat_word_ariths)
  have x: "unat x = 2 ^ 63 * unat ?X + ?xl" "unat y = 2 ^ 63 * unat ?Y + ?yl"
    unfolding drop_63 by simp_all
  have zz: "unat z = 2 ^ 63 * unat (drop_bit 63 z) + unat z mod 2 ^ 63" unfolding drop_63 by simp
  have "unat (snd (adc x y)) = (unat x + unat y) div 2 ^ 64"
  proof -
    obtain a b e where abe: "unat x = 2 ^ 63 * unat ?X + a" "unat y = 2 ^ 63 * unat ?Y + b"
      "a + b = 2 ^ 63 * unat (drop_bit 63 z) + e" "a < 2 ^ 63" "b < 2 ^ 63" "e < 2 ^ 63"
      using x zz z that [of ?xl ?yl "unat z mod 2 ^ 63"] by simp
    show ?thesis
      using drop_63(2) [of x] drop_63(2) [of y] drop_63(2) [of z]
      by (elim disjE) (rule div_nat_eqI [symmetric], use abe c in simp, use abe c in simp)+
  qed
  with s show ?thesis by simp
qed

subsection \<open>The value of a number\<close>

text \<open>The value of the digits \<open>f\<close> to base \<open>2 ^ 64\<close>, the lowest first.\<close>

primrec digits :: "(nat \<Rightarrow> u64) \<Rightarrow> nat \<Rightarrow> nat" where
  "digits f 0 = 0"
| "digits f (Suc n) = digits f n + 2 ^ (64 * n) * unat (f n)"

lemma digits_bound: "digits f n < 2 ^ (64 * n)"
proof (induction n)
  case (Suc n)
  have "2 ^ (64 * n) * unat (f n) \<le> 2 ^ (64 * n) * (2 ^ 64 - 1)"
    using unat_less_2p64 [of "f n"] by (intro mult_le_mono2) simp
  also have "\<dots> = 2 ^ (64 * Suc n) - 2 ^ (64 * n)" by (simp add: diff_mult_distrib2 power_add)
  finally have "2 ^ (64 * n) * unat (f n) \<le> 2 ^ (64 * Suc n) - 2 ^ (64 * n)" .
  moreover have "(2::nat) ^ (64 * n) \<le> 2 ^ (64 * Suc n)" by (intro power_increasing) simp_all
  ultimately show ?case using Suc unfolding digits.simps by linarith
qed simp

text \<open>The value of the lowest \<open>n\<close> words, without sign.\<close>

primrec val :: "mem \<Rightarrow> u64 \<Rightarrow> nat \<Rightarrow> nat" where
  "val m p 0 = 0"
| "val m p (Suc n) = val m p n + 2 ^ (64 * n) * unat (m (contents p (of_nat n)))"

lemma val_digits: "val m p n = digits (\<lambda>j. m (contents p (of_nat j))) n"
  by (induction n) simp_all

lemma val_bound: "val m p n < 2 ^ (64 * n)"
  unfolding val_digits by (rule digits_bound)

lemma val_cong: "(\<And>j. j < n \<Longrightarrow> m' (contents p' (of_nat j)) = m (contents p (of_nat j))) \<Longrightarrow> val m' p' n = val m p n"
  by (induction n) simp_all

lemma val_words:
  assumes "obj_words m' p' = obj_words m p" "n \<le> unat (m (osize p))"
  shows "val m' p' n = val m p n"
proof (rule val_cong)
  fix j assume "j < n"
  have "length (obj_words m' p') = length (obj_words m p)" using assms(1) by simp
  then have l: "unat (m' (osize p')) = unat (m (osize p))" by (simp add: obj_words_def)
  have "obj_words m' p' ! j = obj_words m p ! j" using assms(1) by simp
  then show "m' (contents p' (of_nat j)) = m (contents p (of_nat j))"
    using \<open>j < n\<close> assms(2) l by (simp add: obj_words_def)
qed

text \<open>
  A number: the last word is 0 or \<open>- 1\<close>. Its value as an integer is that of all words, minus
  \<open>2 ^ (64 * n)\<close> when it is negative.
\<close>

definition top_word :: "mem \<Rightarrow> u64 \<Rightarrow> u64" where
  "top_word m p = m (contents p (m (osize p) - 1))"

definition num_int :: "mem \<Rightarrow> u64 \<Rightarrow> int" where
  "num_int m p = int (val m p (unat (m (osize p)))) -
     (if top_word m p = 0 then 0 else 2 ^ (64 * unat (m (osize p))))"

definition is_num :: "mem \<Rightarrow> (u64 \<times> u64) set \<Rightarrow> u64 \<Rightarrow> bool" where
  "is_num m L p \<longleftrightarrow> is_obj m L p \<and> 2 \<le> m (osize p) \<and> (top_word m p = 0 \<or> top_word m p = -1)"

text \<open>The words of an object do not overlap, and are apart from its size.\<close>

lemma obj_digits:
  assumes i: "heap_inv h m K" and p: "is_obj m K p"
  shows "unat (m (osize p)) \<le> 2 ^ 60"
    "unat i < unat (m (osize p)) \<Longrightarrow> unat j < unat (m (osize p)) \<Longrightarrow> contents p i = contents p j \<Longrightarrow> i = j"
    "unat i < unat (m (osize p)) \<Longrightarrow> contents p i \<noteq> osize p"
    "unat i < unat (m (osize p)) \<Longrightarrow> contents p i \<in> area K"
proof -
  obtain s where s: "(p + 8, s) \<in> K" "unat (m (osize p)) + 4 \<le> unat s" using p by (rule is_objE)
  have "unat (p + 8) + 8 * unat s < 2 ^ 61" by (rule live_facts(3) [OF i s(1)])
  then show b: "unat (m (osize p)) \<le> 2 ^ 60" using s(2) by simp
  show "contents p i = contents p j \<Longrightarrow> i = j" if "unat i < unat (m (osize p))" "unat j < unat (m (osize p))"
    using that b by (intro mult8_inj [of i "m (osize p)" j]) (simp_all add: contents_def word_less_nat_alt)
  show "contents p i \<in> area K" if "unat i < unat (m (osize p))"
    using is_obj_cells(4) [OF i s that] s(1) by (auto simp: area_def)
  show "contents p i \<noteq> osize p" if "unat i < unat (m (osize p))"
  proof
    assume "contents p i = osize p"
    then have "8 * i = - 8" by (simp add: contents_def osize_def algebra_simps) (metis add.commute add_left_cancel ab_left_minus)
    moreover have "unat (8 * i) = 8 * unat i" using that b by (intro unat_mult8) simp
    moreover have "unat (- 8 :: u64) = 2 ^ 64 - 8" by simp
    ultimately show False using that b by simp
  qed
qed

lemma word_nat_index:
  assumes "j < unat (n :: u64)"
  shows "unat (of_nat j :: u64) = j"
  using assms unat_less_2p64 [of n] by (simp add: unat_of_nat take_bit_nat_eq_self)

subsection \<open>Negation\<close>

text \<open>One step of the carry chain.\<close>

lemma adc_carry:
  assumes "adc x carry = (r, c)" "unat carry \<le> 1"
  shows "unat r + 2 ^ 64 * unat c = unat x + unat carry" "unat c \<le> 1"
proof -
  show e: "unat r + 2 ^ 64 * unat c = unat x + unat carry" using adc_exact [of x carry] assms(1) by simp
  have "2 ^ 64 * unat c < 2 ^ 64 * 2"
    using e assms(2) unat_less_2p64 [of x] by linarith
  then show "unat c \<le> 1" by simp
qed

lemma unat_not: "unat (NOT (x :: u64)) + unat x + 1 = 2 ^ 64"
proof -
  have "NOT x = - 1 - x" by (simp add: not_eq_complement)
  moreover have "unat (- 1 - x) = unat (- 1 :: u64) - unat x" by (rule unat_sub) simp
  moreover have "unat (- 1 :: u64) = 2 ^ 64 - 1" by (simp add: unsigned_minus_1_eq_mask mask_eq_exp_minus_1)
  ultimately show ?thesis using unat_less_2p64 [of x] by simp
qed

lemma not_carry:
  assumes "adc (NOT d) carry = (r, c)" "unat carry \<le> 1"
    and v: "v' + X * unat carry + v = X"
  shows "v' + X * unat r + X * 2 ^ 64 * unat c + (v + X * unat d) = X * 2 ^ 64"
proof -
  have e: "unat r + 2 ^ 64 * unat c + unat d + 1 = 2 ^ 64 + unat carry"
    using adc_carry(1) [OF assms(1,2)] unat_not [of d] by linarith
  have "X * (unat r + 2 ^ 64 * unat c + unat d + 1) = X * (2 ^ 64 + unat carry)" unfolding e ..
  then have "X * unat r + X * 2 ^ 64 * unat c + X * unat d + X = X * 2 ^ 64 + X * unat carry"
    by (simp only: distrib_left mult.assoc mult_1_right)
  with v show ?thesis by linarith
qed

lemma num_negate_val:
  assumes i: "heap_inv h m K" and p: "is_obj m K p"
  shows "\<exists>m' c. num_negate m p = Some m' \<and> c \<le> 1 \<and>
    same_except ((\<lambda>j. contents p (of_nat j)) ` {..<unat (m (osize p))}) m m' \<and>
    val m' p (unat (m (osize p))) + 2 ^ (64 * unat (m (osize p))) * c + val m p (unat (m (osize p))) =
      2 ^ (64 * unat (m (osize p)))"
proof -
  note d = obj_digits [OF i p]
  let ?n = "m (osize p)"
  let ?C = "(\<lambda>j. contents p (of_nat j)) ` {..<unat ?n}"
  let ?f = "\<lambda>i (m, carry). let (r, carry) = adc (NOT (m (contents p i))) carry in (m(contents p i := r), carry)"
  define P :: "u64 \<Rightarrow> mem \<times> u64 \<Rightarrow> bool" where "P = (\<lambda>i (m', c).
    same_except ((\<lambda>j. contents p (of_nat j)) ` {..<unat i}) m m' \<and> unat i \<le> unat ?n \<and> unat c \<le> 1 \<and>
    val m' p (unat i) + 2 ^ (64 * unat i) * unat c + val m p (unat i) = 2 ^ (64 * unat i))"
  have lim: "(\<lambda>(m, carry). m (osize p)) s = ?n" if "P j s" for j s
  proof -
    obtain m' c where s: "s = (m', c)" by fastforce
    have "osize p \<notin> (\<lambda>j. contents p (of_nat j)) ` {..<unat j}"
    proof
      assume "osize p \<in> (\<lambda>j. contents p (of_nat j)) ` {..<unat j}"
      then obtain k where k: "k < unat j" "osize p = contents p (of_nat k)" by blast
      then have "k < unat ?n" using that by (auto simp: P_def s)
      then show False using d(3) [of "of_nat k"] k(2) word_nat_index [of k ?n] by simp
    qed
    then show ?thesis using that by (auto simp: P_def s same_except_def)
  qed
  have step: "P (j + 1) (?f j s)" if j: "0 \<le> j" "j < ?n" and P: "P j s" for j s
  proof -
    obtain m' c where s: "s = (m', c)" by fastforce
    have Pj: "same_except ((\<lambda>j. contents p (of_nat j)) ` {..<unat j}) m m'" "unat c \<le> 1"
      "val m' p (unat j) + 2 ^ (64 * unat j) * unat c + val m p (unat j) = 2 ^ (64 * unat j)"
      using P by (auto simp: P_def s)
    have jn: "unat j < unat ?n" using j(2) by (simp add: word_less_nat_alt)
    have other: "contents p (of_nat k) \<noteq> contents p j" if "k < unat j" for k
      using d(2) [of "of_nat k" j] that jn word_nat_index [of k j] by auto
    have dj: "m' (contents p j) = m (contents p j)" 
    proof (rule same_exceptD [OF Pj(1)])
      show "contents p j \<notin> (\<lambda>j. contents p (of_nat j)) ` {..<unat j}"
      proof
        assume "contents p j \<in> (\<lambda>j. contents p (of_nat j)) ` {..<unat j}"
        then obtain k where "k < unat j" "contents p j = contents p (of_nat k)" by blast
        then show False using other [of k] by simp
      qed
    qed
    obtain r c' where a: "adc (NOT (m (contents p j))) c = (r, c')" by fastforce
    let ?m = "m'(contents p j := r)"
    have v: "val ?m p (unat j) = val m' p (unat j)" using other by (intro val_cong) auto
    have "same_except ((\<lambda>j. contents p (of_nat j)) ` {..<Suc (unat j)}) m ?m"
      by (subst same_except_write) (auto simp: lessThan_Suc intro: same_except_mono [OF Pj(1)])
    moreover have "val ?m p (Suc (unat j)) + 2 ^ (64 * Suc (unat j)) * unat c' + val m p (Suc (unat j)) =
        2 ^ (64 * Suc (unat j))"
      using not_carry [OF a Pj(2,3)] unfolding val.simps v by (simp add: power_add mult.commute)
    ultimately show ?thesis
      using jn adc_carry(2) [OF a Pj(2)] by (simp add: P_def s dj a unat_suc [OF j(2)] del: val.simps fun_upd_apply)
  qed
  have "\<exists>s. for_lim 0 (\<lambda>(m, carry). m (osize p)) ?f (m, 1) = Some s \<and> P ?n s"
    by (rule for_lim_rule [where P = P]) (simp add: P_def, simp, erule lim, rule step)
  then obtain s where "for_lim 0 (\<lambda>(m, carry). m (osize p)) ?f (m, 1) = Some s" "P ?n s" by blast
  then show ?thesis unfolding num_negate_def by (cases s) (auto simp: P_def)
qed

subsection \<open>Signed values\<close>

lemma digits_cong: "(\<And>j. j < n \<Longrightarrow> f j = g j) \<Longrightarrow> digits f n = digits g n"
  by (induction n) simp_all

lemma minus_1_val: "unat (- 1 :: u64) = 2 ^ 64 - 1" "uint (- 1 :: u64) = 2 ^ 64 - 1"
  by (simp_all add: unsigned_minus_1_eq_mask mask_eq_exp_minus_1)

text \<open>Sign extension: words equal to the sign do not change the value.\<close>

lemma digits_extend:
  assumes "a = 0 \<or> a = (- 1 :: u64)" "\<And>j. n \<le> j \<Longrightarrow> j < k \<Longrightarrow> f j = a" "n \<le> k"
  shows "int (digits f k) = int (digits f n) + (if a = 0 then 0 else 2 ^ (64 * k) - 2 ^ (64 * n))"
  using assms(3,2)
proof (induction rule: dec_induct)
  case (step i)
  have "int (unat a) = (if a = 0 then 0 else 2 ^ 64 - 1)"
    using assms(1) minus_1_val(2) by auto
  moreover have "int (digits f i) = int (digits f n) + (if a = 0 then 0 else 2 ^ (64 * i) - 2 ^ (64 * n))"
    using step by auto
  moreover have "f i = a" using step by simp
  ultimately show ?case by (auto simp: algebra_simps power_add)
qed simp

text \<open>The value of a number whose last word is the sign.\<close>

lemma size_pred: "2 \<le> (n :: u64) \<Longrightarrow> unat (n - 1) = unat n - 1 \<and> of_nat (unat n - 1) = n - 1 \<and> 2 \<le> unat n"
proof -
  assume n: "2 \<le> n"
  then have u: "2 \<le> unat n" by (simp add: word_le_nat_alt)
  then have p: "unat (n - 1) = unat n - 1" by (subst unat_sub) (simp_all add: word_le_nat_alt)
  have "of_nat (unat (n - 1)) = n - 1" by simp
  then show ?thesis using u p by simp
qed

lemma num_int_top:
  assumes "2 \<le> m (osize p)" "top_word m p = 0 \<or> top_word m p = -1"
  shows "num_int m p = int (val m p (unat (m (osize p)) - 1)) -
      (if top_word m p = 0 then 0 else 2 ^ (64 * (unat (m (osize p)) - 1)))"
proof -
  let ?n = "unat (m (osize p))"
  note s = size_pred [OF assms(1)]
  have top: "m (contents p (of_nat (?n - 1))) = top_word m p" using s by (simp add: top_word_def)
  have "int (val m p ?n) = int (val m p (?n - 1)) +
      (if top_word m p = 0 then 0 else 2 ^ (64 * ?n) - 2 ^ (64 * (?n - 1)))"
    unfolding val_digits
  proof (rule digits_extend)
    fix j assume "?n - 1 \<le> j" "j < ?n"
    then have "j = ?n - 1" by linarith
    then show "m (contents p (of_nat j)) = top_word m p" using top by simp
  qed (use assms(2) s in simp_all)
  then show ?thesis by (simp add: num_int_def)
qed

text \<open>A number is determined by its value modulo the range of its words.\<close>

lemma num_int_range:
  assumes "2 \<le> m (osize p)" "top_word m p = 0 \<or> top_word m p = -1"
  shows "- (2 ^ (64 * (unat (m (osize p)) - 1))) \<le> num_int m p" "num_int m p < 2 ^ (64 * (unat (m (osize p)) - 1))"
proof -
  have "int (val m p (unat (m (osize p)) - 1)) < int (2 ^ (64 * (unat (m (osize p)) - 1)))"
    using val_bound [of m p "unat (m (osize p)) - 1"] by (simp only: of_nat_less_iff)
  then have b: "0 \<le> int (val m p (unat (m (osize p)) - 1))" "(0::int) < 2 ^ (64 * (unat (m (osize p)) - 1))"
    "int (val m p (unat (m (osize p)) - 1)) < 2 ^ (64 * (unat (m (osize p)) - 1))" by simp_all
  show "- (2 ^ (64 * (unat (m (osize p)) - 1))) \<le> num_int m p" "num_int m p < 2 ^ (64 * (unat (m (osize p)) - 1))"
    using b num_int_top [OF assms] by (cases "top_word m p = 0"; simp only: simp_thms if_True if_False; linarith)+
qed

lemma num_of_val:
  assumes s: "2 \<le> m (osize p)" and v: "int (val m p (unat (m (osize p)))) = x mod 2 ^ (64 * unat (m (osize p)))"
    and r: "- (2 ^ (64 * (unat (m (osize p)) - 1))) \<le> x" "x < 2 ^ (64 * (unat (m (osize p)) - 1))"
  shows "top_word m p = (if x < 0 then -1 else 0)" "num_int m p = x"
proof -
  obtain k where k: "unat (m (osize p)) = Suc k" "of_nat k = m (osize p) - 1"
    using size_pred [OF s] that [of "unat (m (osize p)) - 1"] by simp
  let ?B = "2 ^ (64 * k) :: int" and ?t = "top_word m p"
  have top: "m (contents p (of_nat k)) = ?t" using k(2) by (simp add: top_word_def)
  have lo: "0 \<le> int (val m p k)" "int (val m p k) < ?B"
    using val_bound [of m p k] by (simp_all flip: of_nat_less_iff)
  have r': "- ?B \<le> x" "x < ?B" using r by (simp_all add: k(1))
  have V: "int (val m p (Suc k)) = (if x < 0 then x + ?B * 2 ^ 64 else x)"
  proof (cases "x < 0")
    case True
    have "0 < ?B" "?B * 1 \<le> ?B * 2 ^ 64" by (simp, intro mult_left_mono, simp_all)
    then have "(x + ?B * 2 ^ 64) mod (?B * 2 ^ 64) = x + ?B * 2 ^ 64"
      using True r'(1) by (intro mod_pos_pos_trivial) linarith+
    then have "x mod (?B * 2 ^ 64) = x + ?B * 2 ^ 64" by (simp only: mod_add_self2)
    with v True show ?thesis by (simp add: k(1) power_add mult.commute)
  next
    case False
    have "?B * 1 \<le> ?B * 2 ^ 64" by (intro mult_left_mono) simp_all
    then have "x mod (?B * 2 ^ 64) = x" using False r'(2) by (intro mod_pos_pos_trivial) linarith+
    with v False show ?thesis by (simp add: k(1) power_add mult.commute)
  qed
  then have e: "int (val m p k) + ?B * int (unat ?t) = (if x < 0 then x + ?B * 2 ^ 64 else x)"
    by (simp add: top)
  show t: "?t = (if x < 0 then -1 else 0)"
  proof (cases "x < 0")
    case True
    have "?B * (2 ^ 64 - 2) < ?B * int (unat ?t)"
      using e True r'(1) lo(2) by (simp only: if_True right_diff_distrib; linarith)
    then have "2 ^ 64 - 2 < int (unat ?t)" by (rule mult_less_cancel_left_pos [THEN iffD1, rotated]) simp
    moreover have "int (unat ?t) < 2 ^ 64"
      using unat_less_2p64 [of ?t] by (metis of_nat_less_iff of_nat_numeral of_nat_power)
    ultimately have "int (unat ?t) = 2 ^ 64 - 1" by linarith
    then have "uint ?t = 2 ^ 64 - 1" by (simp only: uint_nat)
    then have "?t = - 1" by (simp only: word_uint_eq_iff minus_1_val(2))
    then show ?thesis using True by simp
  next
    case False
    then have "?B * int (unat ?t) < ?B * 1" using e r'(2) lo(1) by (simp only: if_False; linarith)
    then have "int (unat ?t) < 1" by (rule mult_less_cancel_left_pos [THEN iffD1, rotated]) simp
    then have "unat ?t = 0" by linarith
    then have "?t = 0" by (simp only: unat_eq_0)
    then show ?thesis using False by simp
  qed
  show "num_int m p = x"
    using V t unfolding num_int_def k(1) by (auto simp: power_add mult.commute)
qed

lemma mod_shift:
  assumes "0 \<le> (v :: int)" "v < M" "x = v + M * z"
  shows "v = x mod M"
  using assms by simp

text \<open>The words are determined by the value.\<close>

lemma digits_inj: "digits f n = digits g n \<Longrightarrow> j < n \<Longrightarrow> f j = g j"
proof (induction n)
  case (Suc n)
  let ?B = "2 ^ (64 * n) :: nat"
  have "(digits f n + ?B * unat (f n)) div ?B = (digits g n + ?B * unat (g n)) div ?B"
    "(digits f n + ?B * unat (f n)) mod ?B = (digits g n + ?B * unat (g n)) mod ?B"
    using Suc.prems(1) by simp_all
  then have "unat (f n) = unat (g n)" "digits f n = digits g n"
    using digits_bound [of f n] digits_bound [of g n] by simp_all
  then have "f n = g n" "digits f n = digits g n" by (simp_all only: word_unat_eq_iff)
  then show ?case using Suc by (cases "j = n") auto
qed simp

lemma obj_size_apart:
  assumes "heap_inv h m K" "is_obj m K p"
  shows "osize p \<notin> (\<lambda>j. contents p (of_nat j)) ` {..<unat (m (osize p))}"
proof
  assume "osize p \<in> (\<lambda>j. contents p (of_nat j)) ` {..<unat (m (osize p))}"
  then obtain j where j: "j < unat (m (osize p))" "osize p = contents p (of_nat j)" by blast
  then show False using obj_digits(3) [OF assms, of "of_nat j"] word_nat_index [OF j(1)] by simp
qed

text \<open>Negation of a number, and of the result.\<close>

lemma num_int_negate:
  assumes i: "heap_inv h m K" and p: "is_num m K p"
    and r: "num_int m p \<noteq> - (2 ^ (64 * (unat (m (osize p)) - 1)))"
  shows "\<exists>m'. num_negate m p = Some m' \<and> is_num m' K p \<and> num_int m' p = - num_int m p \<and>
    same_except ((\<lambda>j. contents p (of_nat j)) ` {..<unat (m (osize p))}) m m'"
proof -
  have o: "is_obj m K p" and s: "2 \<le> m (osize p)" and t: "top_word m p = 0 \<or> top_word m p = - 1"
    using p by (auto simp: is_num_def)
  let ?n = "unat (m (osize p))"
  obtain m' c where n: "num_negate m p = Some m'"
    "same_except ((\<lambda>j. contents p (of_nat j)) ` {..<?n}) m m'"
    "val m' p ?n + 2 ^ (64 * ?n) * c + val m p ?n = 2 ^ (64 * ?n)"
    using num_negate_val [OF i o] by blast
  have sz: "m' (osize p) = m (osize p)"
    by (rule same_exceptD [OF n(2) obj_size_apart [OF i o]])
  have e: "int (val m' p ?n) = 2 ^ (64 * ?n) - 2 ^ (64 * ?n) * int c - int (val m p ?n)"
    using arg_cong [OF n(3), of int] by simp
  have "int (val m' p ?n) = (- num_int m p) mod 2 ^ (64 * ?n)"
  proof (rule mod_shift)
    have "int (val m' p ?n) < int (2 ^ (64 * ?n))" using val_bound [of m' p ?n] by (simp only: of_nat_less_iff)
    then show "int (val m' p ?n) < 2 ^ (64 * ?n)" by simp
    show "- num_int m p = int (val m' p ?n) +
        2 ^ (64 * ?n) * ((if top_word m p = 0 then 0 else 1) - 1 + int c)"
      unfolding num_int_def e by (simp add: algebra_simps)
  qed simp
  moreover have "- (2 ^ (64 * (?n - 1))) \<le> - num_int m p" "- num_int m p < 2 ^ (64 * (?n - 1))"
    using num_int_range [of m p, OF s t] r by linarith+
  ultimately have v: "top_word m' p = (if - num_int m p < 0 then - 1 else 0)" "num_int m' p = - num_int m p"
    using num_of_val [of m' p "- num_int m p"] s sz by simp_all
  have "is_num m' K p" using o s sz v(1) by (simp add: is_num_def is_obj_def)
  with n(1,2) v(2) show ?thesis by blast
qed

end
