(* ===== verification/Obj_Vector.thy ===== *)
theory Obj_Vector
  imports Num_Value Heap_Props
begin

text \<open>
  Objects on the heap: \<open>object\<close> makes a new one, \<open>object_append_word\<close> puts a word behind the words in use;
  an object that is full moves to a larger block.
\<close>

lemma room_suc:
  assumes "unat (n :: u64) + 5 \<le> unat (s :: u64)"
  shows "unat (n + 1) = Suc (unat n)"
  using assms unat_less_2p64 [of s] by (intro unat_suc [of _ s]) (simp add: word_less_nat_alt)

text \<open>The test for a full object.\<close>

lemma object_full:
  assumes "heap_inv h m K" "(p + 8, s) \<in> K"
  shows "m (max_sz p) - obj_sz \<le> n \<longleftrightarrow> unat s \<le> unat n + 4"
proof -
  note f = live_facts(1,2) [OF assms]
  have "m (max_sz p) = s" using f(1) by (simp add: max_sz_def)
  moreover have "unat (s - 4) = unat s - 4" using f(2) by (simp add: unat_sub word_le_nat_alt)
  ultimately show ?thesis using f(2) by (auto simp: obj_sz_def word_le_nat_alt)
qed

text \<open>Storing a word behind the last one.\<close>

definition store_last :: "mem \<Rightarrow> u64 \<Rightarrow> u64 \<Rightarrow> mem" where
  "store_last m r w = m(contents r (m (osize r)) := w, osize r := m (osize r) + 1)"

lemma store_last_ok:
  assumes i: "heap_inv h m K" and s: "(r + 8, s) \<in> K" "unat (m (osize r)) + 5 \<le> unat s"
  shows "unat (store_last m r w (osize r)) = Suc (unat (m (osize r)))"
    "contents r (m (osize r)) \<noteq> osize r" "same_except (payload (r + 8) s) m (store_last m r w)"
    "j < unat (m (osize r)) \<Longrightarrow> store_last m r w (contents r (of_nat j)) = m (contents r (of_nat j))"
    "refcount r \<noteq> contents r (m (osize r))" "otype r \<noteq> contents r (m (osize r))"
proof -
  let ?n = "m (osize r)"
  define m1 where "m1 = m(osize r := ?n + 1)"
  note un = room_suc [OF s(2)]
  have n0: "unat ?n + 4 \<le> unat s" using s(2) by simp
  have op: "osize r \<in> payload (r + 8) s" using is_obj_cells(1) [OF i s(1) n0] by (auto simp: key_cells_def)
  then have i1: "heap_inv h m1 K" unfolding m1_def using s(1) by (intro write_inv [OF i])
  have s1: "unat (m1 (osize r)) = Suc (unat ?n)" using un by (simp add: m1_def)
  have o1: "unat (m1 (osize r)) + 4 \<le> unat s" "is_obj m1 K r" using s s1 unfolding is_obj_def by auto
  note d = obj_digits(2,3) [OF i1 o1(2)]
  have cn: "contents r ?n \<in> payload (r + 8) s" using is_obj_cells(4) [OF i1 s(1) o1(1), of ?n] s1 by simp
  show co: "contents r ?n \<noteq> osize r" using d(2) [of ?n] s1 by simp
  show "unat (store_last m r w (osize r)) = Suc (unat ?n)" using un by (simp add: store_last_def)
  show "same_except (payload (r + 8) s) m (store_last m r w)"
    unfolding store_last_def using op cn by (simp only: same_except_write same_except_refl)
  show "store_last m r w (contents r (of_nat j)) = m (contents r (of_nat j))" if j: "j < unat ?n"
  proof -
    note uk = word_nat_index [OF j]
    have "contents r (of_nat j) \<noteq> osize r" using d(2) [of "of_nat j"] s1 uk j by simp
    moreover have "contents r (of_nat j) \<noteq> contents r ?n"
    proof
      assume "contents r (of_nat j) = contents r ?n"
      then have "of_nat j = ?n" using d(1) [of "of_nat j" ?n] s1 uk j by simp
      then show False using uk j by simp
    qed
    ultimately show ?thesis by (simp add: store_last_def)
  qed
  have f: "unat (r + 8) + 8 * unat s < 2 ^ 61" by (rule live_facts(3) [OF i s(1)])
  have u3: "unat (3 + ?n) = 3 + unat ?n"
    using s(2) unat_less_2p64 [of s] by (simp add: unat_word_ariths)
  have c: "unat (contents r ?n) = unat (r + 8) + 8 * (3 + unat ?n)"
    using in_payload(1) [OF f, of "3 + ?n"] u3 s(2) by (simp add: contents_def algebra_simps)
  have "unat (otype r) = unat (r + 8) + 8 * 1"
    using in_payload(1) [OF f, of 1] s(2) by (simp add: otype_def add.commute)
  then show "otype r \<noteq> contents r ?n" using c by auto
  have "unat (refcount r) = unat (r + 8)" by (simp add: refcount_def)
  then show "refcount r \<noteq> contents r ?n" using c by auto
qed

lemma store_last_words:
  assumes "heap_inv h m K" "(r + 8, s) \<in> K" "unat (m (osize r)) + 5 \<le> unat s"
  shows "obj_words (store_last m r w) r = obj_words m r @ [w]"
    "store_last m r w (otype r) = m (otype r)" "store_last m r w (refcount r) = m (refcount r)"
proof -
  let ?n = "unat (m (osize r))"
  note f = store_last_ok [OF assms]
  have "(of_nat ?n :: u64) = m (osize r)" by simp
  moreover have "store_last m r w (contents r (m (osize r))) = w" using f(2) by (simp add: store_last_def)
  ultimately have "store_last m r w (contents r (of_nat ?n)) = w" by simp
  then show "obj_words (store_last m r w) r = obj_words m r @ [w]"
    unfolding obj_words_def f(1) by (simp add: f(4) del: of_nat_unat ucast_id unsigned_of_nat)
  have "otype r \<noteq> osize r" "refcount r \<noteq> osize r" by (simp_all add: object_fields)
  then show "store_last m r w (otype r) = m (otype r)" "store_last m r w (refcount r) = m (refcount r)"
    using f(5,6) by (simp_all add: store_last_def)
qed


text \<open>The new block has room for the words in use and one more.\<close>

lemma grown_size:
  assumes n: "unat (n :: u64) \<le> 2 ^ 60" and s: "need (obj_sz + n + n div 2 + 1) \<le> s"
  shows "obj_sz + n + n div 2 + 1 + 1 \<noteq> 0" "unat n + 5 \<le> unat s" "unat n + 3 \<le> unat (obj_sz + n + n div 2 + 1)"
proof -
  let ?k = "obj_sz + n + n div 2 + 1"
  have k: "unat ?k = 5 + unat n + unat n div 2"
  proof -
    have d: "unat (n div 2) = unat n div 2" by (simp add: unat_div)
    have a: "unat (4 + n) = 4 + unat n" using n by (subst unat_add) simp_all
    have b: "unat (4 + n + n div 2) = 4 + unat n + unat n div 2" using n d by (subst unat_add) (simp_all add: a)
    show ?thesis unfolding obj_sz_def using n by (subst unat_add) (simp_all add: b)
  qed
  show k1: "?k + 1 \<noteq> 0"
  proof
    assume "?k + 1 = 0"
    then have "unat ?k = 2 ^ 64 - 1" by (metis add_diff_cancel_right' diff_0 minus_1_val)
    then show False using k n by simp
  qed
  from need_unat [OF k1] s k show "unat n + 5 \<le> unat s" by (simp add: word_le_nat_alt)
  show "unat n + 3 \<le> unat ?k" using k by simp
qed

lemma keeps_payload:
  assumes i: "heap_inv h m (insert (a, s) L)" "a \<notin> fst ` L" and e: "same_except (payload a s) m m'"
  shows "keeps (below h) L m m'"
proof (rule keeps_same [OF e])
  have "area L \<inter> payload a s = {}" using heap.apart_area [OF i] by (simp only: Int_commute)
  moreover have "below h \<inter> payload a s = {}" using live_below [OF i(1)] by auto
  ultimately show "(below h \<union> area L) \<inter> payload a s = {}" by (simp only: Int_Un_distrib2 Un_empty_left)
qed

text \<open>The words of an object that has moved.\<close>

lemma moved_object:
  assumes c: "\<forall>j < u. m' (q + 8 * j) = m (p + 8 + 8 * j)" and u: "unat (m (osize p)) + 3 \<le> unat u"
  shows "m' (osize (q - 8)) = m (osize p)" "m' (otype (q - 8)) = m (otype p)"
    "m' (refcount (q - 8)) = m (refcount p)" "obj_words m' (q - 8) = obj_words m p"
proof -
  have c': "m' (q + 8 * j) = m (p + 8 + 8 * j)" if "unat j < unat u" for j
    using c that by (simp add: word_less_nat_alt)
  show z: "m' (osize (q - 8)) = m (osize p)" "m' (otype (q - 8)) = m (otype p)"
    "m' (refcount (q - 8)) = m (refcount p)"
    using c' [of 2] c' [of 1] c' [of 0] u by (simp_all add: object_fields algebra_simps)
  have "m' (contents (q - 8) (of_nat j)) = m (contents p (of_nat j))" if j: "j < unat (m (osize p))" for j
  proof -
    have "unat (3 + of_nat j :: u64) = 3 + j"
      using u j unat_less_2p64 [of u] word_nat_index [OF j] by (subst unat_add) simp_all
    with c' [of "3 + of_nat j"] u j show ?thesis by (simp add: contents_def algebra_simps)
  qed
  then show "obj_words m' (q - 8) = obj_words m p" by (simp add: obj_words_def z(1))
qed

lemma realloc_refused: "realloc m h a k = Some (m', 0) \<Longrightarrow> alloc m h k = Some (m', 0)"
  by (auto simp: realloc_def split: if_splits bind_splits)

lemma object_append_word_ok:
  assumes i: "heap_inv h m (insert (p + 8, s) L)" "p + 8 \<notin> fst ` L" and n: "unat (m (osize p)) + 4 \<le> unat s"
  shows "\<exists>m' p'. object_append_word m h p w = Some (m', p') \<and> keeps (below h) L m m' \<and>
    (p' = 0 \<and> m' = m \<and> alloc m h (obj_sz + m (osize p) + m (osize p) div 2 + 1) = Some (m, 0) \<or>
    (\<exists>t. p' \<noteq> 0 \<and> p' + 8 \<notin> fst ` L \<and> heap_inv h m' (insert (p' + 8, t) L) \<and>
      unat (m' (osize p')) + 4 \<le> unat t \<and> obj_words m' p' = obj_words m p @ [w] \<and>
      m' (otype p') = m (otype p) \<and> m' (refcount p') = m (refcount p)))"
proof -
  let ?n = "m (osize p)"
  have pK: "(p + 8, s) \<in> insert (p + 8, s) L" by simp
  note f = live_facts [OF i(1) pK]
  have b: "unat ?n \<le> 2 ^ 60" using f(3) n by simp
  have p0: "p \<noteq> 0" using f(4) by auto
  note full = object_full [OF i(1) pK, of ?n]
  have store: "heap_inv h (store_last m1 r w) (insert (r + 8, t) L) \<and> keeps (below h) L m1 (store_last m1 r w) \<and>
      contents r (m1 (osize r)) \<noteq> osize r \<and>
      unat (store_last m1 r w (osize r)) + 4 \<le> unat t \<and> obj_words (store_last m1 r w) r = obj_words m1 r @ [w] \<and>
      store_last m1 r w (otype r) = m1 (otype r) \<and> store_last m1 r w (refcount r) = m1 (refcount r)"
    if t: "heap_inv h m1 (insert (r + 8, t) L)" "r + 8 \<notin> fst ` L" "unat (m1 (osize r)) + 5 \<le> unat t" for m1 r t
  proof -
    have rK: "(r + 8, t) \<in> insert (r + 8, t) L" by simp
    note st = store_last_ok [OF t(1) rK t(3)] store_last_words [OF t(1) rK t(3)]
    have "heap_inv h (store_last m1 r w) (insert (r + 8, t) L)"
      by (rule heap.writes [OF t(1) same_except_mono [OF st(3)]]) (simp add: le_supI1 le_supI2)
    with keeps_payload [OF t(1,2) st(3)] st t(3) show ?thesis by simp
  qed
  show ?thesis
  proof (cases "unat s \<le> unat ?n + 4")
    case False
    then have "unat ?n + 5 \<le> unat s" by simp
    note st = store [OF i this]
    from st have ne: "osize p \<noteq> contents p ?n" by (metis (no_types))
    have "object_append_word m h p w = Some (store_last m p w, p)"
      using p0 full False ne by (simp add: object_append_word_def store_last_def Let_def)
    with st p0 i(2) show ?thesis by blast
  next
    case True
    let ?k = "obj_sz + ?n + ?n div 2 + 1"
    note g = grown_size [OF b]
    have k1: "?k + 1 \<noteq> 0" by (rule g(1) [OF order.refl])
    obtain m1 q where re: "realloc m h (p + 8) ?k = Some (m1, q)" "q = 0 \<and> m1 = m \<or> (\<exists>t. need ?k \<le> t \<and> q \<noteq> 0 \<and>
        q \<notin> fst ` L \<and> heap_inv h m1 (insert (q, t) L) \<and> keeps (below h) L m m1 \<and>
        (\<forall>j < umin (s - 1) ?k. m1 (q + 8 * j) = m (p + 8 + 8 * j)))"
      using realloc_mem [OF i k1] by blast
    show ?thesis
    proof (cases "q = 0")
      case z: True
      then have "object_append_word m h p w = Some (m, 0)"
        using p0 full True re by (auto simp: object_append_word_def Let_def)
      moreover have "alloc m h ?k = Some (m, 0)" using realloc_refused re z by metis
      ultimately show ?thesis by simp
    next
      case z: False
      with re(2) obtain t where t: "need ?k \<le> t" "q \<notin> fst ` L" "heap_inv h m1 (insert (q, t) L)"
        "keeps (below h) L m m1" "\<forall>j < umin (s - 1) ?k. m1 (q + 8 * j) = m (p + 8 + 8 * j)" by blast
      have "unat (s - 1) = unat s - 1" using f(2) by (simp add: unat_sub word_le_nat_alt)
      then have "unat ?n + 3 \<le> unat (s - 1)" using n by linarith
      then have "unat ?n + 3 \<le> unat (umin (s - 1) ?k)" using g(3) [OF t(1)] unfolding umin_def by (simp only: simp_thms split: if_split)
      note mv = moved_object [OF t(5) this]
      have "unat (m1 (osize (q - 8))) + 5 \<le> unat t" unfolding mv(1) by (rule g(2) [OF t(1)])
      with store [of m1 "q - 8" t] t(2,3)
      have st: "heap_inv h (store_last m1 (q - 8) w) (insert (q - 8 + 8, t) L)"
        "keeps (below h) L m1 (store_last m1 (q - 8) w)" "contents (q - 8) (m1 (osize (q - 8))) \<noteq> osize (q - 8)"
        "unat (store_last m1 (q - 8) w (osize (q - 8))) + 4 \<le> unat t"
        "obj_words (store_last m1 (q - 8) w) (q - 8) = obj_words m p @ [w]"
        "store_last m1 (q - 8) w (otype (q - 8)) = m (otype p)"
        "store_last m1 (q - 8) w (refcount (q - 8)) = m (refcount p)" by (simp_all add: mv)
      have "object_append_word m h p w = Some (store_last m1 (q - 8) w, q - 8)"
        using p0 full True re(1) z st(3) by (simp add: object_append_word_def store_last_def Let_def)
      moreover have "q - 8 \<noteq> 0"
        using live_facts(4) [OF t(3), of q t] by auto
      moreover have "q - 8 + 8 \<notin> fst ` L" using t(2) by simp
      ultimately show ?thesis using st keeps_trans [OF t(4) st(2)] by blast
    qed
  qed
qed

subsection \<open>New objects\<close>

lemma is_obj_nonzero: "heap_inv h m L \<Longrightarrow> is_obj m L p \<Longrightarrow> p \<noteq> 0"
  using live_facts(4) by (fastforce simp: is_obj_def)

lemma object_words_apart:
  assumes "heap_inv h m K" "(q, s) \<in> K" "unat n + 4 \<le> unat s"
  shows "refcount (q - 8) \<in> payload q s" "otype (q - 8) \<in> payload q s" "osize (q - 8) \<in> payload q s"
    "cells (contents (q - 8) 0) n \<subseteq> payload q s"
    "{refcount (q - 8), otype (q - 8), osize (q - 8)} \<inter> cells (contents (q - 8) 0) n = {}"
proof -
  note f = live_facts(2,3) [OF assms(1,2)]
  note w = in_payload [OF f(2)]
  have c: "refcount (q - 8) = q + 8 * 0" "otype (q - 8) = q + 8 * 1" "osize (q - 8) = q + 8 * 2"
    "contents (q - 8) 0 + 8 * j = q + 8 * (3 + j)" for j
    by (simp_all add: object_fields algebra_simps)
  show "refcount (q - 8) \<in> payload q s" "otype (q - 8) \<in> payload q s" "osize (q - 8) \<in> payload q s"
    unfolding c by (rule w(2), use f(1) in simp)+
  have j: "unat (3 + j) = 3 + unat j \<and> unat (3 + j) + 1 < unat s" if "j < n" for j
    using that assms(3) unat_less_2p64 [of s] by (simp add: unat_plus_mod word_less_nat_alt)
  show "cells (contents (q - 8) 0) n \<subseteq> payload q s"
  proof
    fix x assume "x \<in> cells (contents (q - 8) 0) n"
    then obtain i where i: "i < n" "x = contents (q - 8) 0 + 8 * i" unfolding cells_def by blast
    show "x \<in> payload q s" unfolding i(2) c using j [OF i(1)] by (intro w(2)) simp
  qed
  have "q + 8 * i \<noteq> q + 8 * (3 + j)" if "j < n" "i = 0 \<or> i = 1 \<or> i = 2" for i j
  proof
    assume e: "q + 8 * i = q + 8 * (3 + j)"
    have "unat i + 1 < unat s" "unat i < 3" using that(2) f(1) by auto
    with w(1) [of i] w(1) [of "3 + j"] j [OF that(1)] e show False by simp
  qed
  then have ne: "q + 8 * i \<notin> cells (contents (q - 8) 0) n" if "i = 0 \<or> i = 1 \<or> i = 2" for i
    using that by (simp only: cells_def c mem_Collect_eq) blast
  show "{refcount (q - 8), otype (q - 8), osize (q - 8)} \<inter> cells (contents (q - 8) 0) n = {}"
    unfolding disjoint_iff c(1-3) using ne by blast
qed


text \<open>What \<open>object\<close> writes into its block, in order.\<close>

definition object_words :: "mem \<Rightarrow> u64 \<Rightarrow> u64 \<Rightarrow> u64 \<Rightarrow> u64 \<Rightarrow> mem" where
  "object_words m p type cont n =
     (let m = m(refcount p := 0); m = m(otype p := type); m = m(refcount type := m (refcount type) + 1);
          m = m(osize p := n)
      in if cont \<noteq> 0 then copy_words m (contents p 0) cont 0 n else m)"

lemma object_words_ok:
  assumes i: "heap_inv h m (insert (q, s) L)" "q \<notin> fst ` L" and n: "unat n + 4 \<le> unat s"
    and t: "refcount type \<in> area L" and c: "cells cont n \<subseteq> below h \<union> area L - {refcount type}"
  defines "m' \<equiv> object_words m (q - 8) type cont n"
  shows "same_except (insert (refcount type) (payload q s)) m m'" "m' (refcount (q - 8)) = 0"
    "m' (otype (q - 8)) = type" "m' (osize (q - 8)) = n" "m' (refcount type) = m (refcount type) + 1"
    "cont = 0 \<or> obj_words m' (q - 8) = block_words m cont n"
proof -
  let ?p = "q - 8"
  note w = object_words_apart [OF i(1) insertI1 n]
  define f where "f = (let m = m(refcount ?p := 0); m = m(otype ?p := type);
      m = m(refcount type := m (refcount type) + 1) in m(osize ?p := n))"
  have m': "m' = (if cont \<noteq> 0 then copy_words f (contents ?p 0) cont 0 n else f)"
    unfolding m'_def f_def object_words_def Let_def ..
  have out: "payload q s \<inter> (below h \<union> area L) = {}"
    using heap.apart_area [OF i] live_below [OF i(1)] by (auto simp: Int_Un_distrib)
  have tp: "refcount type \<notin> payload q s" using out t by (metis UnI2 disjoint_iff)
  have nq: "refcount type \<noteq> refcount ?p" "refcount type \<noteq> otype ?p" "refcount type \<noteq> osize ?p"
    using tp w(1-3) by metis+
  have o: "refcount ?p \<noteq> otype ?p" "refcount ?p \<noteq> osize ?p" "otype ?p \<noteq> osize ?p" by (simp_all add: object_fields)
  have fv: "f (refcount ?p) = 0" "f (otype ?p) = type" "f (osize ?p) = n" "f (refcount type) = m (refcount type) + 1"
    unfolding f_def Let_def using nq nq [THEN not_sym] o by (simp_all add: o [THEN not_sym])
  have fe: "same_except (insert (refcount type) {refcount ?p, otype ?p, osize ?p}) m f"
    unfolding f_def Let_def by (simp only: same_except_write same_except_refl insert_iff simp_thms)
  have dis: "cells (contents ?p 0) n \<inter> cells cont n = {}"
    using out w(4) c by blast
  have n60: "unat n \<le> 2 ^ 60" using live_facts(3) [OF i(1) insertI1] n by simp
  note cp = copy_words_block [OF dis n60, of f]
  have me: "m' x = f x" if "x \<notin> cells (contents ?p 0) n" for x
    using that same_exceptD [OF cp(2)] unfolding m' by simp
  have tc: "refcount type \<notin> cells (contents ?p 0) n" using tp w(4) by blast
  have k: "refcount ?p \<notin> cells (contents ?p 0) n" "otype ?p \<notin> cells (contents ?p 0) n" "osize ?p \<notin> cells (contents ?p 0) n"
    using w(5) by simp_all
  show "m' (refcount ?p) = 0" "m' (otype ?p) = type" "m' (refcount type) = m (refcount type) + 1"
    unfolding me [OF k(1)] me [OF k(2)] me [OF tc] by (fact fv)+
  show z: "m' (osize ?p) = n" unfolding me [OF k(3)] by (fact fv)
  show "same_except (insert (refcount type) (payload q s)) m m'"
    unfolding same_except_def
  proof (intro allI impI)
    fix x assume x: "x \<notin> insert (refcount type) (payload q s)"
    then have "x \<notin> cells (contents ?p 0) n" using w(4) by blast
    then have "m' x = f x" by (rule me)
    also have "f x = m x" by (rule same_exceptD [OF fe]) (use x w(1-3) in auto)
    finally show "m' x = m x" .
  qed
  show "cont = 0 \<or> obj_words m' ?p = block_words m cont n"
  proof (cases "cont = 0")
    case False
    have "block_words f cont n = block_words m cont n"
    proof (rule block_words_cong, intro ballI same_exceptD [OF fe])
      fix x assume "x \<in> cells cont n"
      then have "x \<noteq> refcount type" "x \<notin> payload q s" using c out by blast+
      then show "x \<notin> insert (refcount type) {refcount ?p, otype ?p, osize ?p}" using w(1-3) by auto
    qed
    moreover have "obj_words m' ?p = block_words m' (contents ?p 0) n"
      unfolding obj_words_def block_words_def z by (simp add: contents_def)
    ultimately show ?thesis using cp(1) False unfolding m' by simp
  qed simp
qed

lemma object_ok:
  assumes i: "heap_inv h m L" and t: "is_obj m L type" and sz: "unat sz + 4 < 2 ^ 64" "n \<le> sz"
    and c: "cells cont n \<subseteq> below h \<union> area L - {refcount type}"
  shows "\<exists>m' p. object m h type sz cont n = Some (m', p) \<and>
    (p = 0 \<and> m' = m \<and> alloc m h (sz + 3) = Some (m, 0) \<or>
    (\<exists>s. p \<noteq> 0 \<and> p + 8 \<notin> fst ` L \<and> heap_inv h m' (insert (p + 8, s) L) \<and> unat sz + 4 \<le> unat s \<and>
      m' (otype p) = type \<and> m' (refcount p) = 0 \<and> m' (osize p) = n \<and>
      m' (refcount type) = m (refcount type) + 1 \<and> (cont = 0 \<or> obj_words m' p = block_words m cont n) \<and>
      (\<forall>x \<in> below h \<union> area L. x \<noteq> refcount type \<longrightarrow> m' x = m x) \<and>
      (\<exists>m1. alloc m h (sz + 3) = Some (m1, p + 8))))"
proof -
  have sz3: "sz + obj_sz - 1 = sz + 3" by (simp add: obj_sz_def)
  obtain m1 q where al: "alloc m h (sz + 3) = Some (m1, q)" "q = 0 \<and> m1 = m \<or>
      (\<exists>s. need (sz + 3) \<le> s \<and> q \<noteq> 0 \<and> q \<notin> fst ` L \<and> heap_inv h m1 (insert (q, s) L) \<and> keeps (below h) L m m1)"
    using alloc_inv [OF i, of "sz + 3"] by blast
  show ?thesis
  proof (cases "q = 0")
    case True
    then show ?thesis using al sz(2) by (auto simp: object_def sz3)
  next
    case False
    with al(2) obtain s where s: "need (sz + 3) \<le> s" "q \<notin> fst ` L" "heap_inv h m1 (insert (q, s) L)"
      "keeps (below h) L m m1" by blast
    have "unat (sz + 4) = unat sz + 4" using sz by (simp add: unat_word_ariths)
    moreover have "sz + 4 \<le> need (sz + 3)" by (auto simp: need_def umds_sz_def min_alloc_sz_def add.commute)
    ultimately have szs: "unat sz + 4 \<le> unat s" using s(1) by (simp add: word_le_nat_alt)
    then have n: "unat n + 4 \<le> unat s" using sz(2) by (simp add: word_le_nat_alt)
    have ta: "refcount type \<in> area L" by (rule key_cells_area(2) [OF i order.refl t])
    let ?m = "object_words m1 (q - 8) type cont n"
    note ok = object_words_ok [OF s(3,2) n ta c]
    have same: "m1 x = m x" if "x \<in> below h \<union> area L" for x using s(4) that by (simp add: keeps_def)
    have ob: "object m h type sz cont n = Some (?m, q - 8)"
      using al(1) False sz(2) [THEN leD] is_obj_nonzero [OF i t]
      by (simp add: object_def sz3 object_words_def Let_def del: fun_upd_apply)
    have inv: "heap_inv h ?m (insert (q, s) L)"
      by (rule heap.writes [OF s(3) same_except_mono [OF ok(1)]]) (use ta in auto)
    have out: "payload q s \<inter> (below h \<union> area L) = {}"
      using heap.apart_area [OF s(3,2)] live_below [OF s(3)] by (auto simp: Int_Un_distrib)
    have fr: "?m x = m x" if x: "x \<in> below h \<union> area L" "x \<noteq> refcount type" for x
    proof -
      have "x \<notin> payload q s" using out x(1) by (metis disjoint_iff)
      with x(2) same_exceptD [OF ok(1), of x] same [OF x(1)] show ?thesis by simp
    qed
    have "block_words m1 cont n = block_words m cont n"
      by (rule block_words_cong) (use same c in blast)
    then have "cont = 0 \<or> obj_words ?m (q - 8) = block_words m cont n" using ok(6) by simp
    moreover have "?m (refcount type) = m (refcount type) + 1" using ok(5) same [of "refcount type"] ta by simp
    moreover have "q - 8 \<noteq> 0" using live_facts(4) [OF s(3) insertI1] by auto
    ultimately show ?thesis using inv fr ok(2-4) s(2) szs al(1)
      by - (rule exI [of _ ?m], rule exI [of _ "q - 8"], rule conjI [OF ob], rule disjI2, rule exI [of _ s], simp)
  qed
qed

end
