(* ===== verification/Num_Add.thy ===== *)
theory Num_Add
  imports Obj_Vector
begin

text \<open>
  Addition of numbers: \<open>num_add\<close> returns a new object whose value is the sum of the values of its
  arguments, whatever their sizes and signs.
\<close>

subsection \<open>New objects\<close>

text \<open>Words of different objects do not overlap.\<close>

lemma obj_contents_apart:
  assumes i: "heap_inv h m K" and p: "is_obj m K p" "is_obj m K r" "p \<noteq> r"
    and j: "unat i < unat (m (osize p))" "unat j < unat (m (osize r))"
  shows "contents p i \<noteq> contents r j"
proof -
  obtain s where s: "(p + 8, s) \<in> K" "unat (m (osize p)) + 4 \<le> unat s" using p(1) by (rule is_objE)
  obtain t where t: "(r + 8, t) \<in> K" "unat (m (osize r)) + 4 \<le> unat t" using p(2) by (rule is_objE)
  have "p + 8 \<noteq> r + 8" using p(3) by simp
  from live_apart [OF i s(1) t(1) this] have "x \<noteq> y" if "x \<in> payload (p + 8) s" "y \<in> payload (r + 8) t" for x y
    using that by blast
  then show ?thesis using is_obj_cells(4) [OF i s j(1)] is_obj_cells(4) [OF i t j(2)] .
qed

text \<open>
  \<open>object\<close> without contents: the new block becomes an object without words; of the words of the other
  clients only the count of references to the type changes.
\<close>

lemma object_fresh:
  assumes i: "heap_inv h m L" and t: "is_obj m L type"
    and al: "alloc m h (sz + 3) = Some (m1, q)" "q \<noteq> 0" and sz: "unat sz + 4 < 2 ^ 64"
  shows "\<exists>m' s. object m h type sz 0 0 = Some (m', q - 8) \<and> heap_inv h m' (insert (q, s) L) \<and>
    unat sz + 4 \<le> unat s \<and> q \<notin> fst ` L \<and> (\<forall>x \<in> area L. x \<noteq> refcount type \<longrightarrow> m' x = m x)"
proof -
  have "cells 0 0 \<subseteq> below h \<union> area L - {refcount type}" by (simp add: cells_def)
  from object_ok [OF i t sz _ this] al show ?thesis by auto
qed

subsection \<open>The carry chain of two numbers\<close>

lemma add_step:
  assumes c: "unat carry \<le> 1" and a: "adc x carry = (r, c1)" "adc r y = (r2, c2)"
  shows "unat r2 + 2 ^ 64 * unat (c1 + c2) = unat x + unat y + unat carry" "unat (c1 + c2) \<le> 1"
proof -
  have e: "unat r + 2 ^ 64 * unat c1 = unat x + unat carry" "unat r2 + 2 ^ 64 * unat c2 = unat r + unat y"
    using adc_exact [of x carry] adc_exact [of r y] a by simp_all
  then have s: "unat r2 + 2 ^ 64 * (unat c1 + unat c2) = unat x + unat y + unat carry" by simp
  then have "2 ^ 64 * (unat c1 + unat c2) < 2 ^ 64 * 2"
    using c unat_less_2p64 [of x] unat_less_2p64 [of y] by linarith
  then have le: "unat c1 + unat c2 \<le> 1" by simp
  then have "unat (c1 + c2) = unat c1 + unat c2" by (simp add: unat_plus_mod)
  then show "unat r2 + 2 ^ 64 * unat (c1 + c2) = unat x + unat y + unat carry" "unat (c1 + c2) \<le> 1"
    using s le by simp_all
qed

text \<open>The words of a number, continued by its sign.\<close>

definition ext :: "mem \<Rightarrow> u64 \<Rightarrow> nat \<Rightarrow> u64" where
  "ext m p j = (if j < unat (m (osize p)) then m (contents p (of_nat j)) else top_word m p)"

lemma ext_value:
  assumes "is_num m K p" "unat (m (osize p)) \<le> k"
  shows "int (digits (ext m p) k) = num_int m p + (if top_word m p = 0 then 0 else 2 ^ (64 * k))"
proof -
  let ?n = "unat (m (osize p))"
  have t: "top_word m p = 0 \<or> top_word m p = - 1" using assms(1) by (simp add: is_num_def)
  have "int (digits (ext m p) k) = int (digits (ext m p) ?n) +
      (if top_word m p = 0 then 0 else 2 ^ (64 * k) - 2 ^ (64 * ?n))"
    by (rule digits_extend [OF t]) (use assms(2) in \<open>simp_all add: ext_def\<close>)
  moreover have "digits (ext m p) ?n = val m p ?n"
    unfolding val_digits by (rule digits_cong) (simp add: ext_def)
  ultimately show ?thesis by (simp add: num_int_def)
qed

text \<open>
  The state of the two loops before word \<open>i\<close>: the digits below \<open>i\<close> and the carry are the sum of the
  digits of both numbers; only words of the result were written.
\<close>

definition chain :: "mem \<Rightarrow> u64 \<Rightarrow> u64 \<Rightarrow> u64 \<Rightarrow> u64 \<Rightarrow> mem \<times> u64 \<Rightarrow> bool" where
  "chain m0 r a b i = (\<lambda>(m, c).
     same_except ((\<lambda>j. contents r (of_nat j)) ` {..<unat (m0 (osize r))}) m0 m \<and> unat c \<le> 1 \<and>
     val m r (unat i) + 2 ^ (64 * unat i) * unat c = digits (ext m0 a) (unat i) + digits (ext m0 b) (unat i))"

lemma chain_step:
  assumes i: "heap_inv h m0 K" "is_obj m0 K r" "j < m0 (osize r)" and P: "chain m0 r a b j (m, c)"
    and a: "adc (ext m0 a (unat j)) c = (r1, c1)" "adc r1 (ext m0 b (unat j)) = (r2, c2)"
  shows "chain m0 r a b (j + 1) (m(contents r j := r2), c1 + c2)"
proof -
  let ?C = "(\<lambda>j. contents r (of_nat j)) ` {..<unat (m0 (osize r))}"
  have p: "same_except ?C m0 m" "unat c \<le> 1"
    "val m r (unat j) + 2 ^ (64 * unat j) * unat c = digits (ext m0 a) (unat j) + digits (ext m0 b) (unat j)"
    using P by (auto simp: chain_def)
  have jn: "unat j < unat (m0 (osize r))" using i(3) by (simp add: word_less_nat_alt)
  have "contents r j = contents r (of_nat (unat j))" by simp
  then have jC: "contents r j \<in> ?C" using jn by blast
  have other: "contents r (of_nat k) \<noteq> contents r j" if "k < unat j" for k
  proof
    assume "contents r (of_nat k) = contents r j"
    then have "of_nat k = j"
      using obj_digits(2) [OF i(1,2), of "of_nat k" j] that jn word_nat_index [of k j] by simp
    then show False using word_nat_index [OF that] that by simp
  qed
  let ?m = "m(contents r j := r2)"
  have v: "val ?m r (unat j) = val m r (unat j)" using other by (intro val_cong) auto
  note st = add_step [OF p(2) a]
  have "2 ^ (64 * unat j) * (unat r2 + 2 ^ 64 * unat (c1 + c2)) =
      2 ^ (64 * unat j) * (unat (ext m0 a (unat j)) + unat (ext m0 b (unat j)) + unat c)" unfolding st(1) ..
  then have "val ?m r (Suc (unat j)) + 2 ^ (64 * Suc (unat j)) * unat (c1 + c2) =
      digits (ext m0 a) (Suc (unat j)) + digits (ext m0 b) (Suc (unat j))"
    using p(3) v by (simp add: algebra_simps power_add)
  moreover have "same_except ?C m0 ?m" by (simp only: same_except_write [OF jC] p(1))
  ultimately show ?thesis using st(2) unfolding chain_def by (simp only: case_prod_conv unat_suc [OF i(3)] simp_thms)
qed

text \<open>Both loops run the chain.\<close>

lemma add_loops:
  assumes i: "heap_inv h m0 K" and o: "is_obj m0 K r" "is_obj m0 K a" "is_obj m0 K b" "r \<noteq> a" "r \<noteq> b"
    and s: "m0 (osize a) = m0 (osize r)" "m0 (osize b) \<le> m0 (osize a)" and pad: "padding = top_word m0 b"
    and l1: "(m1, c1) = for_up 0 (m0 (osize b)) (\<lambda>i (m, carry).
           let (r1, carry) = adc (m (contents a i)) carry;
               m = m(contents r i := r1);
               (r1, c) = adc (m (contents r i)) (m (contents b i))
           in (m(contents r i := r1), carry + c)) (m0, 0)"
    and l2: "(m2, c2) = for_up (m0 (osize b)) (m0 (osize a)) (\<lambda>i (m, carry).
           add_word (contents r i) (m (contents a i)) padding carry m) (m1, c1)"
  shows "chain m0 r a b (m0 (osize a)) (m2, c2)"
proof -
  let ?C = "(\<lambda>j. contents r (of_nat j)) ` {..<unat (m0 (osize r))}"
  have out: "contents p j \<notin> ?C" if "unat j < unat (m0 (osize p))" "is_obj m0 K p" "r \<noteq> p" for p j
  proof
    assume "contents p j \<in> ?C"
    then obtain k where k: "k < unat (m0 (osize r))" "contents r (of_nat k) = contents p j" by auto
    then show False using obj_contents_apart [OF i o(1) that(2,3), of "of_nat k" j] that(1) word_nat_index [OF k(1)] by simp
  qed
  have rd: "m (contents p j) = m0 (contents p j)"
    if "chain m0 r a b k (m, c)" "j < m0 (osize p)" "is_obj m0 K p" "r \<noteq> p" for k m c p j
    using that(1) out [of j p] that(2-4)
    by (intro same_exceptD [where A = ?C]) (simp_all add: chain_def word_less_nat_alt)
  have e: "ext m0 p (unat j) = m0 (contents p j)" if "j < m0 (osize p)" for p j
    using that by (simp add: ext_def word_less_nat_alt)
  have "chain m0 r a b (m0 (osize b)) (m1, c1)"
    unfolding l1
  proof (rule for_up_rule)
    fix j and st :: "mem \<times> u64" assume j: "0 \<le> j" "j < m0 (osize b)" and P: "chain m0 r a b j st"
    obtain m c where st: "st = (m, c)" by fastforce
    have ja: "j < m0 (osize a)" using j(2) s(2) by (rule less_le_trans)
    obtain r1 d1 where a1: "adc (m0 (contents a j)) c = (r1, d1)" by fastforce
    obtain r2 d2 where a2: "adc r1 (m0 (contents b j)) = (r2, d2)" by fastforce
    have rb: "contents r j \<noteq> contents b j"
      using obj_contents_apart [OF i o(1,3,5), of j j] j(2) ja s(1) by (simp add: word_less_nat_alt)
    show "chain m0 r a b (j + 1) (case st of (m, carry) \<Rightarrow>
        let (r1, carry) = adc (m (contents a j)) carry; m = m(contents r j := r1);
            (r1, c) = adc (m (contents r j)) (m (contents b j))
        in (m(contents r j := r1), carry + c))"
      using chain_step [OF i o(1) _ P [unfolded st], of r1 d1 r2 d2] a1 a2 ja s(1) e [OF ja] e [OF j(2)]
        rd [OF P [unfolded st] ja o(2,4)] rd [OF P [unfolded st] j(2) o(3,5)] rb
      by (simp add: st)
  qed (simp_all add: chain_def)
  then show ?thesis
    unfolding l2
  proof (rule for_up_rule [OF _ s(2)])
    fix j and st :: "mem \<times> u64"
    assume j: "m0 (osize b) \<le> j" "j < m0 (osize a)" and P: "chain m0 r a b j st"
    obtain m c where st: "st = (m, c)" by fastforce
    obtain r1 d1 where a1: "adc (m0 (contents a j)) c = (r1, d1)" by fastforce
    obtain r2 d2 where a2: "adc r1 padding = (r2, d2)" by fastforce
    have eb: "ext m0 b (unat j) = padding" using j(1) pad by (simp add: ext_def word_le_nat_alt)
    show "chain m0 r a b (j + 1) (case st of (m, carry) \<Rightarrow>
        add_word (contents r j) (m (contents a j)) padding carry m)"
      using chain_step [OF i o(1) _ P [unfolded st], of r1 d1 r2 d2] a1 a2 j(2) s(1) e [OF j(2)] eb
        rd [OF P [unfolded st] j(2) o(2,4)]
      by (simp add: st add_word_def)
  qed
qed


subsection \<open>The sum of the values\<close>

lemma num_int_sign:
  assumes "2 \<le> m (osize p)" "top_word m p = 0 \<or> top_word m p = -1"
  shows "top_word m p = 0 \<longleftrightarrow> 0 \<le> num_int m p"
proof -
  have "int (val m p (unat (m (osize p)) - 1)) < int (2 ^ (64 * (unat (m (osize p)) - 1)))"
    using val_bound [of m p "unat (m (osize p)) - 1"] by (simp only: of_nat_less_iff)
  then show ?thesis using num_int_top [OF assms] by simp
qed

text \<open>
  What the digits \<open>v\<close> of the sum and the carry say about the sum \<open>S\<close> of the values: the digits are
  those of the sum, which has at most one bit more than the longer number.
\<close>

lemma sum_digits:
  assumes a: "is_num m K a" and b: "is_num m K b" and le: "m (osize b) \<le> m (osize a)"
    and N: "N = unat (m (osize a))" and v: "v < 2 ^ (64 * N)"
    and e: "v + 2 ^ (64 * N) * c = digits (ext m a) N + digits (ext m b) N"
    and S: "S = num_int m a + num_int m b" and B: "B = (2 :: int) ^ (64 * (N - 1))"
  shows "int v = S mod 2 ^ (64 * N)" "2 \<le> N" "(2 :: int) ^ (64 * N) = 2 ^ 64 * B" "0 < B"
    "top_word m a = 0 \<and> top_word m b = 0 \<Longrightarrow> 0 \<le> S \<and> S < 2 * B"
    "top_word m a \<noteq> 0 \<and> top_word m b \<noteq> 0 \<Longrightarrow> - (2 * B) \<le> S \<and> S < 0"
    "(top_word m a = 0) \<noteq> (top_word m b = 0) \<Longrightarrow> - B \<le> S \<and> S < B"
proof -
  have na: "2 \<le> m (osize a)" "top_word m a = 0 \<or> top_word m a = - 1"
    and nb: "2 \<le> m (osize b)" "top_word m b = 0 \<or> top_word m b = - 1" using a b by (simp_all add: is_num_def)
  show N2: "2 \<le> N" using size_pred [OF na(1)] N by simp
  then obtain k where k: "N = Suc k" by (cases N) auto
  show BB: "(2 :: int) ^ (64 * N) = 2 ^ 64 * B" by (simp add: B k power_add)
  show B0: "0 < B" by (simp add: B)
  have "unat (m (osize b)) \<le> N" using le N by (simp add: word_le_nat_alt)
  note vb = ext_value [OF b this]
  have va: "int (digits (ext m a) N) = num_int m a + (if top_word m a = 0 then 0 else 2 ^ (64 * N))"
    by (rule ext_value [OF a]) (simp add: N)
  have "int (v + 2 ^ (64 * N) * c) = int (digits (ext m a) N) + int (digits (ext m b) N)"
    unfolding e by simp
  then have "int v + 2 ^ (64 * N) * int c = S + 2 ^ (64 * N) *
      ((if top_word m a = 0 then 0 else 1) + (if top_word m b = 0 then 0 else 1))"
    unfolding va vb S by simp
  then have ev: "S = int v + 2 ^ (64 * N) *
      (int c - ((if top_word m a = 0 then 0 else 1) + (if top_word m b = 0 then 0 else 1)))"
    by (simp add: algebra_simps)
  have "int v < int (2 ^ (64 * N))" using v by (simp only: of_nat_less_iff)
  then have "int v < 2 ^ (64 * N)" by simp
  then show "int v = S mod 2 ^ (64 * N)" by (rule mod_shift [OF of_nat_0_le_iff _ ev])
  have ra: "- B \<le> num_int m a" "num_int m a < B"
    using num_int_range [of m a, OF na] by (simp_all add: B N)
  have "(2::int) ^ (64 * (unat (m (osize b)) - 1)) \<le> B"
    using \<open>unat (m (osize b)) \<le> N\<close> unfolding B by (intro power_increasing) simp_all
  then have rb: "- B \<le> num_int m b" "num_int m b < B"
    using num_int_range [of m b, OF nb] by linarith+
  have sa: "top_word m a = 0 \<longleftrightarrow> 0 \<le> num_int m a" and sb: "top_word m b = 0 \<longleftrightarrow> 0 \<le> num_int m b"
    by (rule num_int_sign, rule na, rule na) (rule num_int_sign, rule nb, rule nb)
  show "top_word m a = 0 \<and> top_word m b = 0 \<Longrightarrow> 0 \<le> S \<and> S < 2 * B" using sa sb ra rb S by linarith
  show "top_word m a \<noteq> 0 \<and> top_word m b \<noteq> 0 \<Longrightarrow> - (2 * B) \<le> S \<and> S < 0" using sa sb ra rb S by linarith
  show "(top_word m a = 0) \<noteq> (top_word m b = 0) \<Longrightarrow> - B \<le> S \<and> S < B" using sa sb ra rb S by linarith
qed


subsection \<open>The end of the addition\<close>

lemma for_down_rule:
  assumes "P i s" "\<And>j s. k < j \<Longrightarrow> b j s \<Longrightarrow> P j s \<Longrightarrow> P (j - 1) (f j s)"
  shows "\<exists>j. P j (for_down i k b f s)"
  using assms
proof (induction i k b f s rule: for_down.induct)
  case (1 i k b f s)
  show ?case
  proof (cases "k < i \<and> b i s")
    case True
    then have "P (i - 1) (f i s)" using 1(2,3) by blast
    then have "\<exists>j. P j (for_down (i - 1) k b f (f i s))" by (rule 1(1) [OF True _ 1(3)])
    then show ?thesis using True by (simp add: for_down.simps [of i])
  next
    case False
    then show ?thesis using 1(2) by (auto simp: for_down.simps [of i])
  qed
qed

text \<open>Words equal to the sign word behind them are taken off: the value stays.\<close>

lemma trim_ok:
  assumes i: "heap_inv h m K" and r: "is_num m K r"
    and m': "m' = for_down (m (osize r) - 1) 1 (\<lambda>i m. m (contents r (i - 1)) = w)
                (\<lambda>i m. m(osize r := m (osize r) - 1)) m"
    and l: "w = top_word m r"
  shows "is_num m' K r" "num_int m' r = num_int m r" "same_except {osize r} m m'"
proof -
  have o: "is_obj m K r" and n: "2 \<le> m (osize r)" and t: "w = 0 \<or> w = - 1"
    using r l by (auto simp: is_num_def)
  note d = obj_digits(3) [OF i o]
  let ?P = "\<lambda>j s. same_except {osize r} m s \<and> s (osize r) = j + 1 \<and> 1 \<le> j \<and> j < m (osize r) \<and>
     top_word s r = w \<and> num_int s r = num_int m r"
  have "\<exists>j. ?P j m'" unfolding m'
  proof (rule for_down_rule [where P = ?P])
    have "1 \<le> m (osize r) - 1" "m (osize r) - 1 < m (osize r)"
      using size_pred [OF n] by (auto simp: word_le_nat_alt word_less_nat_alt)
    then show "?P (m (osize r) - 1) m" using l by simp
  next
    fix j s assume j: "1 < j" "s (contents r (j - 1)) = w" and P: "?P j s"
    let ?s = "s(osize r := s (osize r) - 1)"
    have js: "?s (osize r) = j" using P by simp
    have jm: "unat j < unat (m (osize r))" "unat (j - 1) < unat (m (osize r))" "1 \<le> j - 1" "j - 1 < m (osize r)"
      and uj: "unat (j + 1) = Suc (unat j)" "of_nat (unat j) = j" "2 \<le> j + 1"
      using P j(1) unat_suc [of j "m (osize r)"] size_pred [of j]
      by (auto simp: word_less_nat_alt word_le_nat_alt)
    have "contents r (j - 1) \<noteq> osize r" using d jm(2) by blast
    then have tw: "top_word ?s r = w" using j(2) js by (simp add: top_word_def)
    have "val ?s r (unat j) = val s r (unat j)"
    proof (rule val_cong)
      fix k assume "k < unat j"
      then have "contents r (of_nat k) \<noteq> osize r"
        using d [of "of_nat k"] word_nat_index [of k j] jm(1) by simp
      then show "?s (contents r (of_nat k)) = s (contents r (of_nat k))" by simp
    qed
    moreover have "num_int s r = int (val s r (unat j)) - (if w = 0 then 0 else 2 ^ (64 * unat j))"
      using num_int_top [of s r] P t uj by simp
    moreover have "num_int ?s r = int (val ?s r (unat j)) - (if w = 0 then 0 else 2 ^ (64 * unat j))"
      unfolding num_int_def tw js ..
    ultimately have "num_int ?s r = num_int m r" using P by (simp only:)
    moreover have "same_except {osize r} m ?s" using P by (simp add: same_except_write)
    ultimately show "?P (j - 1) ?s" using tw js jm by simp
  qed
  then obtain j where j: "?P j m'" by blast
  then show "num_int m' r = num_int m r" "same_except {osize r} m m'" by blast+
  have "unat (m' (osize r)) \<le> unat (m (osize r))" "2 \<le> m' (osize r)"
    using j unat_suc [of j "m (osize r)"] by (auto simp: word_less_nat_alt word_le_nat_alt)
  then show "is_num m' K r" using j o t unfolding is_num_def is_obj_def by fastforce
qed


text \<open>A word is appended to an object whose block has room for it.\<close>

lemma append_word_ok:
  assumes i: "heap_inv h m K" and s: "(r + 8, s) \<in> K" "unat (m (osize r)) + 5 \<le> unat s"
  shows "\<exists>m'. object_append_word m h r w = Some (m', r) \<and> m' (osize r) = m (osize r) + 1 \<and> is_obj m' K r \<and>
    unat (m' (osize r)) = Suc (unat (m (osize r))) \<and>
    m' (contents r (m (osize r))) = w \<and> val m' r (unat (m (osize r))) = val m r (unat (m (osize r))) \<and>
    same_except (payload (r + 8) s) m m'"
proof -
  let ?m = "store_last m r w"
  note st = store_last_ok [OF i s]
  have "r \<noteq> 0" using live_facts(4) [OF i s(1)] by auto
  moreover have "\<not> m (max_sz r) - obj_sz \<le> m (osize r)"
    using object_full [OF i s(1)] s(2) by simp
  ultimately have "object_append_word m h r w = Some (?m, r)"
    using st(2) by (simp add: object_append_word_def store_last_def Let_def)
  moreover have "?m (osize r) = m (osize r) + 1" "?m (contents r (m (osize r))) = w"
    using st(2) by (simp_all add: store_last_def)
  moreover have "is_obj ?m K r" unfolding is_obj_def using s st(1) by (intro exI [of _ s]) simp
  moreover have "val ?m r (unat (m (osize r))) = val m r (unat (m (osize r)))" by (rule val_cong) (rule st(4))
  ultimately show ?thesis using st(1,3) by blast
qed

text \<open>
  From the digits of the sum to a number: either the sign word is right, then superfluous words are
  taken off, or one more word is needed.
\<close>

definition add_end :: "u64 \<Rightarrow> u64 \<Rightarrow> bool \<Rightarrow> bool \<Rightarrow> mem \<Rightarrow> (mem \<times> u64) option" where
  "add_end h r na nb m =
     (let n = m (osize r); w = m (contents r (n - 1)) in
      if na \<and> nb \<and> w \<noteq> -1 then object_append_word m h r (-1)
      else if \<not> na \<and> \<not> nb \<and> w \<noteq> 0 then object_append_word m h r 0
      else Some (for_down (n - 1) 1 (\<lambda>i m. m (contents r (i - 1)) = w)
                  (\<lambda>i m. m(osize r := m (osize r) - 1)) m, r))"

lemma mod_neg: "- M \<le> x \<Longrightarrow> x < 0 \<Longrightarrow> x mod M = x + (M :: int)"
  by (rule mod_shift [symmetric, where z = "- 1"]) simp_all

lemma add_end_ok:
  fixes S B :: int
  assumes i: "heap_inv h m K" and s: "(r + 8, s) \<in> K" "N + 5 \<le> unat s"
    and N: "N = unat (m (osize r))" "2 \<le> m (osize r)" and B: "B = 2 ^ (64 * (N - 1))"
    and v: "int (val m r N) = S mod 2 ^ (64 * N)"
    and c1: "\<not> na \<and> \<not> nb \<Longrightarrow> 0 \<le> S \<and> S < 2 * B" and c2: "na \<and> nb \<Longrightarrow> - (2 * B) \<le> S \<and> S < 0"
    and c3: "na \<noteq> nb \<Longrightarrow> - B \<le> S \<and> S < B"
  shows "\<exists>m'. add_end h r na nb m = Some (m', r) \<and> is_num m' K r \<and> num_int m' r = S \<and>
    same_except (payload (r + 8) s) m m'"
proof -
  obtain k where k: "N = Suc k" "of_nat k = m (osize r) - 1" using size_pred [OF N(2)] N(1) that [of "N - 1"] by simp
  have B0: "0 < B" by (simp add: B)
  have P: "(2 :: int) ^ (64 * N) = 2 ^ 64 * B" by (simp add: B k(1) power_add)
  let ?w = "m (contents r (m (osize r) - 1))"
  have o: "is_obj m K r" using s N(1) unfolding is_obj_def by fastforce
  have top: "top_word m r = ?w" by (simp add: top_word_def)
  have V: "int (val m r N) = int (val m r k) + B * int (unat ?w)" using k by (simp add: B)
  have lo: "int (val m r k) < B" using val_bound [of m r k] by (simp add: B k(1) flip: of_nat_less_iff)
  show ?thesis
  proof (cases "na \<and> nb \<and> ?w \<noteq> - 1 \<or> \<not> na \<and> \<not> nb \<and> ?w \<noteq> 0")
    case True
    let ?x = "if na then - 1 else 0 :: u64"
    have e: "add_end h r na nb m = object_append_word m h r ?x" using True by (auto simp: add_end_def Let_def)
    have "unat (m (osize r)) + 5 \<le> unat s" using s(2) N(1) by simp
    from append_word_ok [OF i s(1) this, of ?x] obtain m' where m': "object_append_word m h r ?x = Some (m', r)"
      "m' (osize r) = m (osize r) + 1" "is_obj m' K r" "unat (m' (osize r)) = Suc N"
      "m' (contents r (m (osize r))) = ?x" "val m' r N = val m r N" "same_except (payload (r + 8) s) m m'"
      unfolding N(1) [symmetric] by blast
    have ux: "int (unat ?x) = (if na then 2 ^ 64 - 1 else 0)" using minus_1_val by simp
    have v': "int (val m' r (Suc N)) = int (val m r N) + 2 ^ 64 * B * int (unat ?x)"
      using m'(5,6) P N(1) by simp
    have n2: "2 \<le> m' (osize r)" using m'(4) k(1) by (simp add: word_le_nat_alt)
    have sm: "S mod X = (if na then S + X else S)" if X: "2 * B \<le> X" for X
    proof (cases na)
      case na: True
      then have "- (2 * B) \<le> S" "S < 0" using c2 True by simp_all
      then show ?thesis using na X mod_neg [of X S] by simp
    next
      case na: False
      then have "0 \<le> S" "S < 2 * B" using c1 True by simp_all
      then show ?thesis using na X by simp
    qed
    have M: "2 * B \<le> 2 ^ 64 * B" "2 * B \<le> 2 ^ 64 * (2 ^ 64 * B)" using B0 by simp_all
    from v v' P sm [OF M(1)] have "int (val m' r (Suc N)) = (if na then S + 2 ^ 64 * (2 ^ 64 * B) else S)"
      unfolding ux by (simp add: algebra_simps split: if_splits)
    then have "int (val m' r (Suc N)) = S mod (2 ^ 64 * (2 ^ 64 * B))"
      unfolding sm [OF M(2)] .
    moreover have "(2 :: int) ^ (64 * Suc N) = 2 ^ 64 * (2 ^ 64 * B)" by (simp add: power_add P)
    moreover have "- (2 ^ 64 * B) \<le> S" "S < 2 ^ 64 * B" using True c1 c2 B0 by auto
    ultimately have "top_word m' r = (if S < 0 then - 1 else 0)" "num_int m' r = S"
      using num_of_val [of m' r S] n2 m'(4) P by simp_all
    then have "is_num m' K r" "num_int m' r = S" using m'(3) n2 by (simp_all add: is_num_def)
    then show ?thesis using e m'(1,7) by auto
  next
    case False
    have r: "- B \<le> S \<and> S < B"
    proof (cases "na = nb")
      case same: True
      show ?thesis
      proof (cases na)
        case True
        then have w: "int (unat ?w) = 2 ^ 64 - 1" using False same minus_1_val by simp
        have b: "- (2 * B) \<le> S" "S < 0" using c2 True same by simp_all
        have "S + 2 ^ 64 * B = S mod (2 ^ 64 * B)" using b B0 by (simp add: mod_neg)
        then have "int (val m r k) + B * (2 ^ 64 - 1) = S + 2 ^ 64 * B" using v V w P by simp
        then have "S = int (val m r k) - B" by (simp add: algebra_simps)
        then show ?thesis using b B0 by simp
      next
        case na: False
        then have w: "int (unat ?w) = 0" using False same by simp
        have b: "0 \<le> S" "S < 2 * B" using c1 na same by simp_all
        have "S = S mod (2 ^ 64 * B)" using b B0 by simp
        then have "S = int (val m r k)" using v V w P by simp
        then show ?thesis using b lo B0 by simp
      qed
    qed (rule c3)
    have "top_word m r = (if S < 0 then - 1 else 0)" "num_int m r = S"
      using num_of_val [of m r S] N v r B by simp_all
    then have n: "is_num m K r" "num_int m r = S" using o N(2) by (simp_all add: is_num_def)
    let ?m = "for_down (m (osize r) - 1) 1 (\<lambda>i m. m (contents r (i - 1)) = ?w)
                  (\<lambda>i m. m(osize r := m (osize r) - 1)) m"
    have "add_end h r na nb m = Some (?m, r)" using False by (auto simp: add_end_def Let_def)
    moreover note trim_ok [OF i n(1) refl top [symmetric]]
    moreover have "osize r \<in> payload (r + 8) s"
      using is_obj_cells(1) [OF i s(1)] s(2) N(1) by (auto simp: key_cells_def)
    ultimately show ?thesis using n(2) same_except_mono [of "{osize r}" m ?m] by auto
  qed
qed


subsection \<open>Addition\<close>

text \<open>Numbers do not see writes outside their words.\<close>

lemma num_same:
  assumes "\<forall>x \<in> key_cells m p. m' x = m x"
  shows "m' (osize p) = m (osize p)" "top_word m' p = top_word m p \<or> m (osize p) = 0"
    "k \<le> unat (m (osize p)) \<Longrightarrow> val m' p k = val m p k" "ext m' p = ext m p \<or> m (osize p) = 0"
    "m (osize p) \<noteq> 0 \<Longrightarrow> num_int m' p = num_int m p" "is_num m K p \<Longrightarrow> is_num m' K p"
proof -
  show s: "m' (osize p) = m (osize p)" using assms by (simp add: key_cells_def)
  have c: "m' (contents p (of_nat j)) = m (contents p (of_nat j))" if "j < unat (m (osize p))" for j
    using assms that by (simp add: key_cells_def)
  show t: "top_word m' p = top_word m p \<or> m (osize p) = 0"
  proof (cases "m (osize p) = 0")
    case False
    then have "unat (m (osize p) - 1) < unat (m (osize p))" by (simp add: unat_minus_one unat_gt_0)
    from c [OF this] show ?thesis by (simp add: top_word_def s)
  qed simp
  show v: "val m' p k = val m p k" if "k \<le> unat (m (osize p))" for k using that c by (intro val_cong) simp
  show "ext m' p = ext m p \<or> m (osize p) = 0" using t c by (auto simp: ext_def s)
  show "num_int m' p = num_int m p" if "m (osize p) \<noteq> 0" using that t v by (simp add: num_int_def s)
  show "is_num m K p \<Longrightarrow> is_num m' K p" using t by (auto simp: is_num_def is_obj_def s)
qed

text \<open>The two numbers, the longer one first.\<close>

lemma num_add_sorted:
  assumes i: "heap_inv h m L" and a: "is_num m L a" and b: "is_num m L b" and t: "is_obj m L (num_type T)"
    and ab: "m (osize b) \<le> m (osize a)"
    and xy: "(a, b) = (if m (osize x) < m (osize y) then (y, x) else (x, y))"
    and al: "alloc m h (m (osize a) + 4) = Some (m1, q)" "q \<noteq> 0"
  shows "\<exists>m' s. num_add T m h x y = Some (m', q - 8) \<and> heap_inv h m' (insert (q, s) L) \<and> q \<notin> fst ` L \<and>
    is_num m' (insert (q, s) L) (q - 8) \<and> num_int m' (q - 8) = num_int m a + num_int m b \<and>
    (\<forall>z \<in> area L. z \<noteq> refcount (num_type T) \<longrightarrow> m' z = m z)"
proof -
  let ?n = "m (osize a)" and ?r = "q - 8"
  have oa: "is_obj m L a" "is_obj m L b" and na: "2 \<le> ?n" "2 \<le> m (osize b)" using a b by (simp_all add: is_num_def)
  have un: "unat (?n + 1) = Suc (unat ?n)" "unat (?n + 1) + 4 < 2 ^ 64"
    using obj_digits(1) [OF i oa(1)] by (simp_all add: unat_suc [of ?n "- 1"] word_less_nat_alt minus_1_val)
  have "?n + 1 + 3 = ?n + 4" by simp
  then have "alloc m h (?n + 1 + 3) = Some (m1, q)" using al(1) by (simp only:)
  from object_fresh [OF i t this al(2) un(2)] obtain mo s where
    ob: "object m h (num_type T) (?n + 1) 0 0 = Some (mo, ?r)" "heap_inv h mo (insert (q, s) L)"
      "unat (?n + 1) + 4 \<le> unat s" "q \<notin> fst ` L" "\<forall>z \<in> area L. z \<noteq> refcount (num_type T) \<longrightarrow> mo z = m z" by blast
  let ?K = "insert (q, s) L"
  define m0 where "m0 = mo(osize ?r := ?n)"
  have qs: "(?r + 8, s) \<in> ?K" "unat ?n + 5 \<le> unat s" using ob(3) un(1) by simp_all
  have "osize ?r \<in> payload q s"
  proof -
    have "osize ?r = q + 8 * 2" by (simp add: osize_def)
    then show ?thesis using in_payload(2) [of q s 2] live_facts(3) [OF ob(2) insertI1] qs(2) by simp
  qed
  note orp = this
  have i0: "heap_inv h m0 ?K" unfolding m0_def by (rule write_inv [OF ob(2) insertI1 orp])
  have apart: "payload q s \<inter> area L = {}" by (rule heap.apart_area [OF ob(2,4)])
  have old: "m0 z = m z" if "z \<in> area L" "z \<noteq> refcount (num_type T)" for z
    using ob(5) that orp apart unfolding m0_def by auto
  have key: "\<forall>z \<in> key_cells m p. m0 z = m z" if p: "is_obj m L p" for p
    using old key_cells_area(1) [OF i order.refl p] refcount_no_key [OF i t p] by blast
  note sa = num_same [OF key [OF oa(1)]] and sb = num_same [OF key [OF oa(2)]]
  have n0: "is_num m0 ?K a" "is_num m0 ?K b"
    using sa(6) [OF a] sb(6) [OF b] is_obj_mono [of m0 L _ ?K] by (auto simp: is_num_def)
  have r0: "m0 (osize ?r) = ?n" "is_obj m0 ?K ?r"
    using qs unfolding m0_def is_obj_def by fastforce+
  have ne: "?r \<noteq> a" "?r \<noteq> b" using oa ob(4) unfolding is_obj_def by force+
  obtain m1 c1 where l1: "for_up 0 (m (osize b)) (\<lambda>i (m, carry).
           let (r1, carry) = adc (m (contents a i)) carry;
               m = m(contents ?r i := r1);
               (r1, c) = adc (m (contents ?r i)) (m (contents b i))
           in (m(contents ?r i := r1), carry + c)) (m0, 0) = (m1, c1)" by fastforce
  define pad where "pad = (if sgn_of (top_word m b) \<noteq> 0 then - 1 else 0 :: u64)"
  obtain m2 c2 where l2: "for_up (m (osize b)) ?n (\<lambda>i (m, carry).
           add_word (contents ?r i) (m (contents a i)) pad carry m) (m1, c1) = (m2, c2)" by fastforce
  have sgn: "sgn_of (top_word m p) \<noteq> 0 \<longleftrightarrow> top_word m p \<noteq> 0" if "is_num m L p" for p
    using that by (auto simp: is_num_def sgn_of_def drop_bit_minus_one)
  have ch: "chain m0 ?r a b ?n (m2, c2)"
  proof -
    have "pad = top_word m0 b" using sgn [OF b] sb(2) na(2) b by (auto simp: pad_def is_num_def)
    from add_loops [OF i0 r0(2) _ _ ne _ _ this, unfolded sa(1) sb(1), OF _ _ _ _ l1 [symmetric] l2 [symmetric]]
    show ?thesis using n0 r0(1) ab by (simp add: is_num_def)
  qed
  let ?C = "(\<lambda>j. contents ?r (of_nat j)) ` {..<unat ?n}"
  have ch': "same_except ?C m0 m2" "val m2 ?r (unat ?n) + 2 ^ (64 * unat ?n) * unat c2 =
      digits (ext m0 a) (unat ?n) + digits (ext m0 b) (unat ?n)"
    using ch unfolding chain_def r0(1) by simp_all
  have "osize ?r \<notin> ?C" using obj_size_apart [OF i0 r0(2)] unfolding r0(1) .
  then have r2: "m2 (osize ?r) = ?n" using same_exceptD [OF ch'(1)] r0(1) by simp
  have Cp: "?C \<subseteq> payload q s"
    using is_obj_cells(1) [OF i0 qs(1)] qs(2) r0(1) unfolding key_cells_def by auto
  have i2: "heap_inv h m2 ?K"
    by (rule heap.writes [OF i0 same_except_mono [OF ch'(1)]]) (use Cp in auto)
  have code: "num_add T m h x y = add_end h ?r (top_word m a \<noteq> 0) (top_word m b \<noteq> 0) m2"
    unfolding num_add_def xy [symmetric] Let_def case_prod_conv ob(1) Option.bind_lunit
      m0_def [symmetric] l1 [unfolded Let_def] pad_def [unfolded top_word_def, symmetric] l2
      add_end_def r2 using sgn [OF a, unfolded top_word_def] sgn [OF b, unfolded top_word_def]
    by (simp only: top_word_def not_not simp_thms)
  note sd = sum_digits [OF n0 _ _ val_bound ch'(2) refl refl, unfolded sa(1) sb(1), OF ab refl]
  have "\<exists>m'. add_end h ?r (top_word m a \<noteq> 0) (top_word m b \<noteq> 0) m2 = Some (m', ?r) \<and> is_num m' ?K ?r \<and>
      num_int m' ?r = num_int m0 a + num_int m0 b \<and> same_except (payload (?r + 8) s) m2 m'"
  proof (rule add_end_ok [OF i2 qs(1,2)])
    show "unat ?n = unat (m2 (osize ?r))" "2 \<le> m2 (osize ?r)" using r2 na by simp_all
    show "int (val m2 ?r (unat ?n)) = (num_int m0 a + num_int m0 b) mod 2 ^ (64 * unat ?n)" by (rule sd(1))
  qed (use sd(5-7) sa(2) sb(2) na in auto)
  then obtain m' where m': "num_add T m h x y = Some (m', ?r)" "is_num m' ?K ?r"
    "num_int m' ?r = num_int m0 a + num_int m0 b" "same_except (payload q s) m2 m'" unfolding code by auto
  have "same_except (payload q s) m0 m'"
    using same_except_trans [OF same_except_mono [OF ch'(1) Cp] m'(4)] .
  moreover have "heap_inv h m' ?K"
    by (rule heap.writes [OF i2 same_except_mono [OF m'(4)]]) auto
  moreover have "m' z = m z" if "z \<in> area L" "z \<noteq> refcount (num_type T)" for z
    using calculation(1) apart that old by (auto dest: same_exceptD)
  moreover have "num_int m0 a = num_int m a" "num_int m0 b = num_int m b"
    using sa(5) sb(5) size_pred [OF na(1)] size_pred [OF na(2)] by force+
  ultimately show ?thesis using m'(1-3) ob(4) by auto
qed


text \<open>\<open>num_add\<close> when the heap has room for the sum.\<close>

lemma num_add_ok:
  assumes i: "heap_inv h m L" and n: "is_num m L x" "is_num m L y" and t: "is_obj m L (num_type T)"
    and al: "alloc m h (umax (m (osize x)) (m (osize y)) + 4) = Some (m1, q)" "q \<noteq> 0"
  shows "\<exists>m' s. num_add T m h x y = Some (m', q - 8) \<and> heap_inv h m' (insert (q, s) L) \<and> q \<notin> fst ` L \<and>
    is_num m' (insert (q, s) L) (q - 8) \<and> num_int m' (q - 8) = num_int m x + num_int m y \<and>
    (\<forall>z \<in> area L. z \<noteq> refcount (num_type T) \<longrightarrow> m' z = m z)"
proof (cases "m (osize x) < m (osize y)")
  case True
  then have "umax (m (osize x)) (m (osize y)) = m (osize y)" by (simp add: umax_def)
  then show ?thesis
    using num_add_sorted [OF i n(2,1) t, of x y m1 q] True al by (simp add: add.commute)
next
  case False
  then have "umax (m (osize x)) (m (osize y)) = m (osize x)" by (auto simp: umax_def)
  then show ?thesis using num_add_sorted [OF i n t, of x y m1 q] False al by (simp add: not_less)
qed

end
