(* ===== verification/Num_Props.thy ===== *)
theory Num_Props
  imports Num_Add Set_Props
begin

text \<open>
  The properties of numbers. \<open>num_int m p\<close> is the integer that the object \<open>p\<close> stands for: its words are
  the digits to base \<open>2 ^ 64\<close>, the lowest first, and the last word is the sign, 0 or -1.
\<close>

subsection \<open>Two concrete numbers\<close>

text \<open>The numbers \<open>2 ^ 64 - 1\<close> and 1, an object for the type, and one large free block.\<close>

definition demo_num_blocks :: "block list" where
  "demo_num_blocks = [(0x80040, 6, True), (0x80070, 6, True), (0x800a0, 4, True), (0x800c0, 76, False)]"

definition demo_num_live :: "(u64 \<times> u64) set" where
  "demo_num_live = {(0x80048, 6), (0x80078, 6), (0x800a8, 4)}"

definition demo_num_words :: "(u64 \<times> u64) list" where
  "demo_num_words = [(0x80058, 2), (0x80060, - 1), (0x80068, 0), (0x80088, 2), (0x80090, 1), (0x80098, 0), (0x800b8, 0)]"

definition demo_nums :: "mem \<Rightarrow> mem" where
  "demo_nums m = fold (\<lambda>(x, v) f. f(x := v)) demo_num_words m"

lemma live_demo_num_blocks: "live demo_num_blocks = demo_num_live"
  by (simp add: live_def demo_num_blocks_def demo_num_live_def)

lemma demo_num_heap: "\<exists>m. heap_ok m 0x80000 demo_num_blocks"
proof -
  obtain m where m: "heap_ok m 0x80000 ([] @ [(0x80040, 92, False)])" using demo_start by auto
  obtain m1 where "heap_ok m1 0x80000 ([(0x80040, 6, True)] @ [(0x80070, 86, False)])"
    using alloc_last [OF m, of 5] by (auto simp: need_def umds_sz_def min_alloc_sz_def)
  from alloc_last [OF this, of 5] obtain m2
    where "heap_ok m2 0x80000 ([(0x80040, 6, True), (0x80070, 6, True)] @ [(0x800a0, 80, False)])"
    by (auto simp: need_def umds_sz_def min_alloc_sz_def)
  from alloc_last [OF this, of 3] show ?thesis
    by (auto simp: demo_num_blocks_def need_def umds_sz_def min_alloc_sz_def)
qed

lemma demo_num_ok:
  assumes "heap_ok m 0x80000 demo_num_blocks"
  shows "heap_ok (demo_nums m) 0x80000 demo_num_blocks"
proof -
  have "\<forall>(x, v) \<in> set demo_num_words. x \<in> area demo_num_live"
    by (simp add: demo_num_words_def demo_num_live_def payload_def)
  with heap_ok_writes [OF assms, of demo_num_words] show ?thesis
    unfolding demo_nums_def by (simp only: live_demo_num_blocks simp_thms)
qed

lemma val_2: "val m p 2 = unat (m (contents p 0)) + 2 ^ 64 * unat (m (contents p 1))"
proof -
  have "val m p (Suc (Suc 0)) = unat (m (contents p 0)) + 2 ^ 64 * unat (m (contents p 1))" by simp
  then show ?thesis by (simp only: numeral_2_eq_2)
qed

lemma demo_num_facts:
  assumes "heap_ok m 0x80000 demo_num_blocks"
  shows "heap_inv 0x80000 (demo_nums m) demo_num_live" "is_num (demo_nums m) demo_num_live 0x80040"
    "is_num (demo_nums m) demo_num_live 0x80070" "is_obj (demo_nums m) demo_num_live 0x800a0"
    "num_int (demo_nums m) 0x80040 = 2 ^ 64 - 1" "num_int (demo_nums m) 0x80070 = 1"
    "demo_nums m (osize 0x80040) = 2" "demo_nums m (osize 0x80070) = 2"
    "\<exists>m1 q. alloc (demo_nums m) 0x80000 6 = Some (m1, q) \<and> q \<noteq> 0"
proof -
  note ok = demo_num_ok [OF assms]
  show "heap_inv 0x80000 (demo_nums m) demo_num_live"
    unfolding heap_inv_def using ok live_demo_num_blocks by blast
  show s: "demo_nums m (osize 0x80040) = 2" "demo_nums m (osize 0x80070) = 2"
    by (simp_all add: demo_nums_def demo_num_words_def osize_def)
  have "demo_nums m (osize 0x800a0) = 0"
    by (simp add: demo_nums_def demo_num_words_def osize_def)
  have L: "(0x80048, 6) \<in> demo_num_live" "(0x80078, 6) \<in> demo_num_live" "(0x800a8, 4) \<in> demo_num_live"
    by (simp_all add: demo_num_live_def)
  show "is_obj (demo_nums m) demo_num_live 0x800a0"
    unfolding is_obj_def using L(3) \<open>demo_nums m (osize 0x800a0) = 0\<close> by force
  have o: "is_obj (demo_nums m) demo_num_live 0x80040" "is_obj (demo_nums m) demo_num_live 0x80070"
    unfolding is_obj_def using L(1,2) s by force+
  have c: "demo_nums m (contents 0x80040 0) = - 1" "demo_nums m (contents 0x80040 1) = 0"
    "demo_nums m (contents 0x80070 0) = 1" "demo_nums m (contents 0x80070 1) = 0"
    by (simp_all add: demo_nums_def demo_num_words_def contents_def)
  have t: "top_word (demo_nums m) 0x80040 = 0" "top_word (demo_nums m) 0x80070 = 0"
    using c s by (simp_all add: top_word_def)
  show "is_num (demo_nums m) demo_num_live 0x80040" "is_num (demo_nums m) demo_num_live 0x80070"
    using o t s by (simp_all add: is_num_def)
  show "num_int (demo_nums m) 0x80040 = 2 ^ 64 - 1" "num_int (demo_nums m) 0x80070 = 1"
    unfolding num_int_def t s using c minus_1_val by (simp_all add: val_2)
  have "heap_ok (demo_nums m) 0x80000 ([(0x80040, 6, True), (0x80070, 6, True), (0x800a0, 4, True)] @ [(0x800c0, 76, False)])"
    using ok by (simp add: demo_num_blocks_def)
  from alloc_last [OF this, of 6]
  show "\<exists>m1 q. alloc (demo_nums m) 0x80000 6 = Some (m1, q) \<and> q \<noteq> 0"
    by (auto simp: need_def umds_sz_def min_alloc_sz_def)
qed


subsection \<open>The properties\<close>

text \<open>
  C29. \<open>adc\<close>, the addition that every other operation is built from, is exact: result and carry, read as
  one number of 65 bits, are the sum of the two words.
\<close>

theorem adc_correct:
  "unat (fst (adc x y)) + 2 ^ 64 * unat (snd (adc x y)) = unat x + unat y \<and> snd (adc x y) \<in> {0, 1}"
proof -
  note e = adc_exact [of x y]
  then have "2 ^ 64 * unat (snd (adc x y)) < 2 ^ 64 * 2"
    using unat_less_2p64 [of x] unat_less_2p64 [of y] by linarith
  then have "unat (snd (adc x y)) = 0 \<or> unat (snd (adc x y)) = 1" by (simp only: mult_less_cancel1) auto
  then have "snd (adc x y) = 0 \<or> snd (adc x y) = 1" by (simp add: word_unat_eq_iff)
  with e show ?thesis by simp
qed

text \<open>
  C26. \<open>num_negate\<close> replaces a number by its negation, unless it is the smallest one of its length; it
  writes only the words of the number and so leaves the heap and every other object as they were.
\<close>

theorem num_negate_correct:
  assumes "heap_inv h m L" "is_num m L p" "num_int m p \<noteq> - (2 ^ (64 * (unat (m (osize p)) - 1)))"
  shows "\<exists>m'. num_negate m p = Some m' \<and> is_num m' L p \<and> num_int m' p = - num_int m p \<and>
    heap_inv h m' L \<and> (\<forall>d. is_obj m L d \<and> d \<noteq> p \<longrightarrow> obj_words m' d = obj_words m d)"
proof -
  let ?C = "(\<lambda>j. contents p (of_nat j)) ` {..<unat (m (osize p))}"
  have o: "is_obj m L p" using assms(2) by (simp add: is_num_def)
  obtain m' where m': "num_negate m p = Some m'" "is_num m' L p" "num_int m' p = - num_int m p" "same_except ?C m m'"
    using num_int_negate [OF assms] by blast
  have C: "?C \<subseteq> key_cells m p" by (auto simp: key_cells_def)
  then have "?C \<subseteq> area L" using key_cells_area(1) [OF assms(1) order.refl o] by blast
  then have "heap_inv h m' L" by (intro heap.writes [OF assms(1) same_except_mono [OF m'(4)]]) blast
  moreover have "obj_words m' d = obj_words m d" if "is_obj m L d" "d \<noteq> p" for d
  proof -
    have "key_cells m d \<inter> ?C = {}" using key_cells_apart [OF assms(1) o that] C by blast
    then have "\<forall>x \<in> key_cells m d. m' x = m x" using same_exceptD [OF m'(4)] by blast
    from obj_key_same [OF this] show ?thesis by (simp add: obj_key_eq)
  qed
  ultimately show ?thesis using m' by blast
qed


theorem num_negate_correct_witness:
  "\<exists>m m'. num_int m 0x80040 = 2 ^ 64 - 1 \<and> num_negate m 0x80040 = Some m' \<and> num_int m' 0x80040 = - (2 ^ 64 - 1)"
proof -
  obtain m where "heap_ok m 0x80000 demo_num_blocks" using demo_num_heap by blast
  note f = demo_num_facts [OF this]
  have "num_int (demo_nums m) 0x80040 \<noteq> - (2 ^ (64 * (unat (demo_nums m (osize 0x80040)) - 1)))"
    unfolding f(5,7) by simp
  from num_negate_correct [OF f(1,2) this] f(5) show ?thesis by auto
qed

text \<open>
  C28. The smallest number of \<open>n\<close> words has no negation of \<open>n\<close> words: \<open>num_negate\<close> leaves 1 as its sign
  word, which is neither the sign 0 nor the sign -1.
\<close>

theorem num_negate_minimum:
  assumes "heap_inv h m L" "is_num m L p" "num_int m p = - (2 ^ (64 * (unat (m (osize p)) - 1)))"
  shows "\<exists>m'. num_negate m p = Some m' \<and> top_word m' p = 1"
proof -
  let ?n = "unat (m (osize p))" and ?C = "(\<lambda>j. contents p (of_nat j)) ` {..<unat (m (osize p))}"
  have o: "is_obj m L p" and s: "2 \<le> m (osize p)" and t: "top_word m p = 0 \<or> top_word m p = - 1"
    using assms(2) by (auto simp: is_num_def)
  obtain k where k: "?n = Suc k" "of_nat k = m (osize p) - 1" using size_pred [OF s] that [of "?n - 1"] by simp
  let ?B = "2 ^ (64 * k) :: int"
  have P: "(2 :: int) ^ (64 * ?n) = 2 ^ 64 * ?B" by (simp add: k(1) power_add)
  obtain m' c where m': "num_negate m p = Some m'" "same_except ?C m m'"
    "val m' p ?n + 2 ^ (64 * ?n) * c + val m p ?n = 2 ^ (64 * ?n)"
    using num_negate_val [OF assms(1) o] by blast
  have sz: "m' (osize p) = m (osize p)" by (rule same_exceptD [OF m'(2) obj_size_apart [OF assms(1) o]])
  have "int (val m' p ?n) + 2 ^ 64 * ?B * int c + int (val m p ?n) = 2 ^ 64 * ?B"
    using arg_cong [OF m'(3), of int] P by simp
  moreover have "int (val m p ?n) = 2 ^ 64 * ?B - ?B"
  proof -
    have "num_int m p < 0" using assms(3) by simp
    then have "top_word m p \<noteq> 0" using num_int_sign [OF s t] by simp
    then show ?thesis using assms(3) P unfolding num_int_def by (simp add: k(1))
  qed
  moreover have "?B < 2 ^ 64 * ?B" by simp
  ultimately have v: "int (val m' p ?n) + 2 ^ 64 * ?B * int c = ?B" by linarith
  have "c = 0"
  proof (rule ccontr)
    assume "c \<noteq> 0"
    then have "2 ^ 64 * ?B * 1 \<le> 2 ^ 64 * ?B * int c" by (intro mult_left_mono) simp_all
    with v \<open>?B < 2 ^ 64 * ?B\<close> show False by linarith
  qed
  then have e: "int (val m' p k) + ?B * int (unat (top_word m' p)) = ?B"
    using v k sz by (simp add: top_word_def)
  have b: "int (val m' p k) < ?B" using val_bound [of m' p k] by (simp flip: of_nat_less_iff)
  have "int (unat (top_word m' p)) = 1"
  proof -
    have "?B * 0 < ?B * int (unat (top_word m' p))" "?B * int (unat (top_word m' p)) < ?B * 2" using e b by linarith+
    then have "0 < int (unat (top_word m' p))" "int (unat (top_word m' p)) < 2"
      by (simp_all only: mult_less_cancel_left_pos zero_less_power zero_less_numeral)
    then show ?thesis by linarith
  qed
  then have "unat (top_word m' p) = 1" by linarith
  then have "top_word m' p = 1" by (simp add: word_unat_eq_iff)
  with m'(1) show ?thesis by blast
qed


theorem num_negate_minimum_witness:
  "\<exists>m m'. num_int m 0x80040 = - (2 ^ 64) \<and> num_negate m 0x80040 = Some m' \<and> top_word m' 0x80040 = 1"
proof -
  obtain m where m: "heap_ok m 0x80000 demo_num_blocks" using demo_num_heap by blast
  note f = demo_num_facts [OF m]
  let ?m = "fold (\<lambda>(x, v) f. f(x := v)) [(0x80060, 0), (0x80068, - 1)] (demo_nums m)"
  have "heap_ok ?m 0x80000 demo_num_blocks"
    by (rule heap_ok_writes [OF demo_num_ok [OF m]]) (simp add: live_demo_num_blocks demo_num_live_def payload_def)
  then have i: "heap_inv 0x80000 ?m demo_num_live" unfolding heap_inv_def using live_demo_num_blocks by blast
  have s: "?m (osize 0x80040) = 2" using f(7) by (simp add: osize_def)
  have c: "?m (contents 0x80040 0) = 0" "?m (contents 0x80040 1) = - 1" by (simp_all add: contents_def)
  have t: "top_word ?m 0x80040 = - 1" unfolding top_word_def s using c by simp
  have n: "is_num ?m demo_num_live 0x80040"
    using f(2) s t f(7) by (simp add: is_num_def is_obj_def del: fold_simps)
  have v: "num_int ?m 0x80040 = - (2 ^ 64)"
    unfolding num_int_def t s using c minus_1_val by (simp add: val_2)
  have "num_int ?m 0x80040 = - (2 ^ (64 * (unat (?m (osize 0x80040)) - 1)))" unfolding v s by simp
  from num_negate_minimum [OF i n this] v show ?thesis by blast
qed

text \<open>
  C5. \<open>num_add\<close>, when the heap has room for the result, returns a new object whose value is the sum of
  the values, for all lengths and signs: also when the sum needs one word more, and when it needs
  fewer. Of the words of all other objects only the count of references to the type changes.
\<close>

theorem num_add_correct:
  assumes "heap_inv h m L" "is_num m L x" "is_num m L y" "is_obj m L (num_type T)"
    and "alloc m h (umax (m (osize x)) (m (osize y)) + 4) \<noteq> Some (m, 0)"
  shows "\<exists>m' r s. num_add T m h x y = Some (m', r) \<and> heap_inv h m' (insert (r + 8, s) L) \<and> r + 8 \<notin> fst ` L \<and>
    is_num m' (insert (r + 8, s) L) r \<and> num_int m' r = num_int m x + num_int m y \<and>
    (\<forall>z \<in> area L. z \<noteq> refcount (num_type T) \<longrightarrow> m' z = m z)"
proof -
  obtain m1 q where "alloc m h (umax (m (osize x)) (m (osize y)) + 4) = Some (m1, q)" "q \<noteq> 0"
    using alloc_inv [OF assms(1)] assms(5) by blast
  note ok = num_add_ok [OF assms(1-4) this]
  obtain r where "q = r + 8" using that [of "q - 8"] by simp
  with ok show ?thesis by (auto simp only: add_diff_cancel_right')
qed

theorem num_add_correct_witness:
  "\<exists>T m m' r. num_int m 0x80040 = 2 ^ 64 - 1 \<and> num_int m 0x80070 = 1 \<and>
    num_add T m 0x80000 0x80040 0x80070 = Some (m', r) \<and> num_int m' r = 2 ^ 64"
proof -
  obtain m where m: "heap_ok m 0x80000 demo_num_blocks" using demo_num_heap by blast
  note f = demo_num_facts [OF m]
  have "umax (demo_nums m (osize 0x80040)) (demo_nums m (osize 0x80070)) + 4 = 6"
    unfolding f(7,8) by (simp add: umax_def)
  then have "alloc (demo_nums m) 0x80000 (umax (demo_nums m (osize 0x80040)) (demo_nums m (osize 0x80070)) + 4)
      \<noteq> Some (demo_nums m, 0)" using f(9) by auto
  from num_add_correct [OF f(1-3) _ this, of "undefined\<lparr>num_type := 0x800a0\<rparr>"] f(4-6) show ?thesis by fastforce
qed

end
