(* ===== verification/Obj_Props.thy ===== *)
theory Obj_Props
  imports Num_Props
begin

text \<open>
  The properties of objects: what a new object holds and how an object grows.
\<close>

text \<open>
  C21. Every new object has the type it is made with: \<open>object\<close> returns an object with this type, reference
  count 0 and \<open>n\<close> words in use, copied from the given address unless that is the null pointer, in a new
  block with room for \<open>sz\<close> words, and adds 1 to the reference count of the type; no other word outside the
  new block changes. It returns the null pointer, and nothing has changed, only when the heap refuses the
  block.
\<close>

theorem object_correct:
  assumes "heap_inv h m L" "is_obj m L type" "unat sz + 4 < 2 ^ 64" "n \<le> sz"
    and "cells cont n \<subseteq> below h \<union> area L - {refcount type}"
  shows "\<exists>m' p. object m h type sz cont n = Some (m', p) \<and>
    (if p = 0 then m' = m \<and> alloc m h (sz + 3) = Some (m, 0)
     else \<exists>s. p + 8 \<notin> fst ` L \<and> heap_inv h m' (insert (p + 8, s) L) \<and> is_obj m' {(p + 8, s)} p \<and>
       unat sz + 4 \<le> unat s \<and> m' (otype p) = type \<and> m' (refcount p) = 0 \<and> m' (osize p) = n \<and>
       (cont = 0 \<or> obj_words m' p = block_words m cont n) \<and>
       same_except (insert (refcount type) (- (below h \<union> area L))) m m' \<and>
       m' (refcount type) = m (refcount type) + 1)"
proof -
  have n: "unat n \<le> unat sz" using assms(4) by (simp add: word_le_nat_alt)
  from object_ok [OF assms] obtain m' p where o: "object m h type sz cont n = Some (m', p)"
    "p = 0 \<and> m' = m \<and> alloc m h (sz + 3) = Some (m, 0) \<or>
     (\<exists>s. p \<noteq> 0 \<and> p + 8 \<notin> fst ` L \<and> heap_inv h m' (insert (p + 8, s) L) \<and> unat sz + 4 \<le> unat s \<and>
      m' (otype p) = type \<and> m' (refcount p) = 0 \<and> m' (osize p) = n \<and>
      m' (refcount type) = m (refcount type) + 1 \<and> (cont = 0 \<or> obj_words m' p = block_words m cont n) \<and>
      (\<forall>x \<in> below h \<union> area L. x \<noteq> refcount type \<longrightarrow> m' x = m x))" by blast
  show ?thesis
  proof (cases "p = 0")
    case False
    with o(2) obtain s where s: "p + 8 \<notin> fst ` L" "heap_inv h m' (insert (p + 8, s) L)" "unat sz + 4 \<le> unat s"
      "m' (otype p) = type" "m' (refcount p) = 0" "m' (osize p) = n"
      "m' (refcount type) = m (refcount type) + 1" "cont = 0 \<or> obj_words m' p = block_words m cont n"
      "\<forall>x \<in> below h \<union> area L. x \<noteq> refcount type \<longrightarrow> m' x = m x" by blast
    have "is_obj m' {(p + 8, s)} p" using s(3,6) n by (simp add: is_obj_def)
    moreover have "same_except (insert (refcount type) (- (below h \<union> area L))) m m'"
      using s(9) unfolding same_except_def by blast
    ultimately show ?thesis using o(1) s False
      by - (rule exI [of _ m'], rule exI [of _ p], simp, rule exI [of _ s], simp)
  qed (use o in auto)
qed

lemma demo_object:
  "\<exists>m m1 q. heap_inv 0x80000 m {(0x80048, 4)} \<and> m (osize 0x80040) = 0 \<and> alloc m 0x80000 5 = Some (m1, q) \<and> q \<noteq> 0"
proof -
  let ?bs = "[(0x80040, 4, True)] @ [(0x80060, 88, False)] :: block list"
  obtain m where m: "heap_ok m 0x80000 ?bs" using demo_one by auto
  let ?m = "fold (\<lambda>(x, v) f. f(x := v)) [(0x80058, 0)] m"
  have L: "live ?bs = {(0x80048, 4)}" by (simp add: live_def)
  have ok: "heap_ok ?m 0x80000 ?bs" by (rule heap_ok_writes [OF m]) (simp add: L payload_def)
  then have i: "heap_inv 0x80000 ?m {(0x80048, 4)}" unfolding heap_inv_def using L by (intro exI [of _ ?bs]) simp
  have "need 5 + min_alloc_sz \<le> 88" "need 5 \<le> 88" by (simp_all add: need_def umds_sz_def min_alloc_sz_def)
  from alloc_last [OF ok _ this] obtain m1 where al: "alloc ?m 0x80000 5 = Some (m1, 0x80068)" by auto
  have "?m (osize 0x80040) = 0" "(0x80068 :: u64) \<noteq> 0" by (simp_all add: osize_def)
  with i al show ?thesis by blast
qed

lemma object_correct_witness:
  "\<exists>m m' p. object m 0x80000 0x80040 2 0x90 2 = Some (m', p) \<and> p \<noteq> 0 \<and> obj_words m' p = [m 0x90, m 0x98] \<and>
     m' (otype p) = 0x80040"
proof -
  obtain m m1 q where m: "heap_inv 0x80000 m {(0x80048, 4)}" "m (osize 0x80040) = 0"
    "alloc m 0x80000 5 = Some (m1, q)" "q \<noteq> 0" using demo_object by blast
  have o: "is_obj m {(0x80048, 4)} 0x80040" by (simp add: is_obj_def m(2))
  have sz: "unat (2 :: u64) + 4 < 2 ^ 64" "(2 :: u64) \<le> 2" by simp_all
  have c: "cells 0x90 2 \<subseteq> {0x90, 0x98}"
  proof
    fix x :: u64 assume "x \<in> cells 0x90 2"
    then obtain j :: u64 where j: "j < 2" "x = 0x90 + 8 * j" unfolding cells_def by blast
    have "unat j = unat (0 :: u64) \<or> unat j = unat (1 :: u64)" using j(1) by (simp add: word_less_nat_alt) linarith
    then have "j = 0 \<or> j = 1" unfolding word_unat_eq_iff .
    then show "x \<in> {0x90, 0x98}" using j(2) by auto
  qed
  have "cells 0x90 2 \<subseteq> below 0x80000 \<union> area {(0x80048, 4)} - {refcount 0x80040}"
    by (rule order.trans [OF c]) (simp add: below_def refcount_def ctl_cells_def heap_cells)
  note ob = object_correct [OF m(1) o sz this]
  have b: "block_words m 0x90 2 = [m 0x90, m 0x98]" by (simp add: block_words_def upt_rec)
  have k: "(2 + 3 :: u64) = 5" "(0x90 :: u64) \<noteq> 0" by simp_all
  from ob obtain m' p where r: "object m 0x80000 0x80040 2 0x90 2 = Some (m', p)"
    "p = 0 \<Longrightarrow> alloc m 0x80000 5 = Some (m, 0)"
    "p \<noteq> 0 \<Longrightarrow> obj_words m' p = block_words m 0x90 2 \<and> m' (otype p) = 0x80040"
    using ob [unfolded k(1)] k(2) by (elim exE conjE) (auto split: if_splits)
  have "p \<noteq> 0" using r(2) m(3,4) by auto
  with r(1,3) b show ?thesis by metis
qed

text \<open>
  C9. \<open>object_append_word\<close> puts the word behind the words in use and keeps the type and the reference count
  of the object, whether the object has room or must move to a larger block: then its words are copied and
  the old block is released. When the heap refuses a block for one and a half times the words, it returns
  the null pointer and changes nothing. No word of another live block changes.
\<close>

theorem object_append_word_correct:
  assumes "heap_inv h m (insert (p + 8, s) L)" "p + 8 \<notin> fst ` L" "is_obj m {(p + 8, s)} p"
  shows "\<exists>m' p'. object_append_word m h p w = Some (m', p') \<and> keeps (below h) L m m' \<and>
    (if p' = 0 then m' = m \<and> alloc m h (obj_sz + m (osize p) + m (osize p) div 2 + 1) = Some (m, 0)
     else \<exists>t. p' + 8 \<notin> fst ` L \<and> heap_inv h m' (insert (p' + 8, t) L) \<and> is_obj m' {(p' + 8, t)} p' \<and>
       obj_words m' p' = obj_words m p @ [w] \<and> m' (otype p') = m (otype p) \<and> m' (refcount p') = m (refcount p))"
proof -
  have "unat (m (osize p)) + 4 \<le> unat s" using assms(3) by (simp add: is_obj_def)
  from object_append_word_ok [OF assms(1,2) this, of w] show ?thesis by (auto simp: is_obj_def)
qed


lemma object_append_word_correct_witness:
  "\<exists>m m' p'. obj_words m 0x80040 = [] \<and> object_append_word m 0x80000 0x80040 7 = Some (m', p') \<and> p' \<noteq> 0 \<and>
     obj_words m' p' = [7]"
proof -
  obtain m m1 q where m: "heap_inv 0x80000 m {(0x80048, 4)}" "m (osize 0x80040) = 0"
    "alloc m 0x80000 5 = Some (m1, q)" "q \<noteq> 0" using demo_object by blast
  have i: "heap_inv 0x80000 m (insert (0x80040 + 8, 4) {})" "(0x80040 + 8 :: u64) \<notin> fst ` {}" using m(1) by simp_all
  have z: "obj_words m 0x80040 = []" "is_obj m {(0x80040 + 8, 4)} 0x80040"
    by (simp_all add: obj_words_def is_obj_def m(2))
  from object_append_word_correct [OF i z(2), of 7] obtain m' p' where
    ap: "object_append_word m 0x80000 0x80040 7 = Some (m', p')"
      "p' = 0 \<Longrightarrow> alloc m 0x80000 (obj_sz + m (osize 0x80040) + m (osize 0x80040) div 2 + 1) = Some (m, 0)"
      "p' \<noteq> 0 \<Longrightarrow> obj_words m' p' = obj_words m 0x80040 @ [7]" by meson
  have k: "obj_sz + m (osize 0x80040) + m (osize 0x80040) div 2 + 1 = 5" unfolding m(2) by (simp add: obj_sz_def)
  have "p' \<noteq> 0" using ap(2) [unfolded k] m(3,4) by auto
  with ap(1,3) z(1) show ?thesis by (metis append_Nil)
qed

end
