(* ===== verification/Queue.thy ===== *)
theory Queue
  imports Containers Heap_Client
begin

text \<open>
  The queue of \<open>datastructures.c\<close>: a doubly linked list whose links are blocks of the heap. Items go in at
  the front and come out at the front (\<open>queue_pop\<close>) or at the back (\<open>queue_last\<close>), so it is a stack and a
  queue. The collector and the interpreter use it as both.
\<close>

subsection \<open>Linked lists in memory\<close>

text \<open>The addresses of the first and of the last link, or the one given when there is none.\<close>

definition head_addr :: "(u64 \<times> u64) list \<Rightarrow> u64 \<Rightarrow> u64" where
  "head_addr xs n = (if xs = [] then n else fst (hd xs))"

definition last_addr :: "(u64 \<times> u64) list \<Rightarrow> u64 \<Rightarrow> u64" where
  "last_addr xs p = (if xs = [] then p else fst (last xs))"

lemma addr_simps [simp]:
  "head_addr [] n = n" "head_addr ((a, d) # xs) n = a" "last_addr [] p = p" "last_addr (xs @ [(a, d)]) p = a"
  "last_addr ((a, d) # xs) p = last_addr xs a" "head_addr (xs @ ys) n = head_addr xs (head_addr ys n)"
  by (auto simp: head_addr_def last_addr_def)

text \<open>The links \<open>xs\<close> (address and data) stand in memory one behind the other, between \<open>p\<close> and \<open>n\<close>.\<close>

fun links :: "mem \<Rightarrow> u64 \<Rightarrow> (u64 \<times> u64) list \<Rightarrow> u64 \<Rightarrow> bool" where
  "links m p [] n \<longleftrightarrow> True"
| "links m p ((a, d) # xs) n \<longleftrightarrow>
     m (l_data a) = d \<and> m (l_prev a) = p \<and> m (l_next a) = head_addr xs n \<and> links m a xs n"

definition dll :: "mem \<Rightarrow> u64 \<Rightarrow> (u64 \<times> u64) list \<Rightarrow> bool" where
  "dll m q xs \<longleftrightarrow> m (q_first q) = head_addr xs 0 \<and> m (q_last q) = last_addr xs 0 \<and> links m 0 xs 0"

lemma links_append [simp]:
  "links m p (xs @ ys) n \<longleftrightarrow> links m p xs (head_addr ys n) \<and> links m (last_addr xs p) ys n"
  by (induction m p xs n rule: links.induct) auto

definition link_cells :: "u64 \<Rightarrow> u64 set" where
  "link_cells a = {l_data a, l_next a, l_prev a}"

lemma links_frame:
  assumes "links m p xs n" "\<forall>a \<in> set (map fst xs). \<forall>x \<in> link_cells a. m' x = m x"
  shows "links m' p xs n"
  using assms by (induction m p xs n rule: links.induct) (simp_all add: link_cells_def)

lemma link_neq [simp]:
  "l_data a \<noteq> l_next a" "l_data a \<noteq> l_prev a" "l_next a \<noteq> l_data a" "l_next a \<noteq> l_prev a"
  "l_prev a \<noteq> l_data a" "l_prev a \<noteq> l_next a" "q_first q \<noteq> q_last q" "q_last q \<noteq> q_first q"
  "l_data a = l_data b \<longleftrightarrow> a = b" "l_next a = l_next b \<longleftrightarrow> a = b" "l_prev a = l_prev b \<longleftrightarrow> a = b"
  by (simp_all add: queue_fields)

text \<open>The links and the queue do not overlap.\<close>

definition links_apart :: "u64 \<Rightarrow> u64 set \<Rightarrow> bool" where
  "links_apart q A \<longleftrightarrow> 0 \<notin> A \<and> (\<forall>a \<in> A. q_first q \<notin> link_cells a \<and> q_last q \<notin> link_cells a) \<and>
     (\<forall>a \<in> A. \<forall>b \<in> A. a \<noteq> b \<longrightarrow> link_cells a \<inter> link_cells b = {})"

lemma links_apartD:
  assumes "links_apart q A" "a \<in> A"
  shows "a \<noteq> 0" "q_first q \<notin> link_cells a" "q_last q \<notin> link_cells a"
    "b \<in> A \<Longrightarrow> a \<noteq> b \<Longrightarrow> x \<in> link_cells b \<Longrightarrow> x \<notin> link_cells a"
  using assms unfolding links_apart_def by blast+

lemma in_link_cells [simp]: "l_data a \<in> link_cells a" "l_next a \<in> link_cells a" "l_prev a \<in> link_cells a"
  by (simp_all add: link_cells_def)

text \<open>The words that the operations on links write.\<close>

definition queue_words :: "u64 \<Rightarrow> u64 set \<Rightarrow> u64 set" where
  "queue_words q A = {q_first q, q_last q} \<union> (\<Union>a \<in> A. link_cells a)"

lemma queue_wordsI [simp]:
  "q_first q \<in> queue_words q A" "q_last q \<in> queue_words q A" "a \<in> A \<Longrightarrow> x \<in> link_cells a \<Longrightarrow> x \<in> queue_words q A"
  by (auto simp: queue_words_def)

lemma head_in: "xs \<noteq> [] \<Longrightarrow> head_addr xs n \<in> set (map fst xs)"
  by (cases xs) auto

lemma last_in: "xs \<noteq> [] \<Longrightarrow> last_addr xs p \<in> set (map fst xs)"
  unfolding last_addr_def by simp

lemma links_next:
  assumes "links m p ((a, d) # xs) n" "links_apart q A" "insert a (set (map fst xs)) \<subseteq> A" "a \<notin> set (map fst xs)"
    and e: "same_except (link_cells a \<union> {q_first q, q_last q} \<union> X) m m'" "\<forall>b \<in> set (map fst xs). link_cells b \<inter> X = {}"
  shows "links m' a xs n"
proof (rule links_frame)
  show "links m a xs n" using assms(1) by simp
  show "\<forall>b \<in> set (map fst xs). \<forall>x \<in> link_cells b. m' x = m x"
  proof (intro ballI)
    fix b x assume b: "b \<in> set (map fst xs)" "x \<in> link_cells b"
    have A: "a \<in> A" "b \<in> A" "a \<noteq> b" using assms(3,4) b(1) by auto
    have "x \<notin> link_cells a" using links_apartD(4) [OF assms(2) A b(2)] .
    moreover have "x \<noteq> q_first q" "x \<noteq> q_last q" using links_apartD(2,3) [OF assms(2) A(2)] b(2) by auto
    moreover have "x \<notin> X" using e(2) b by blast
    ultimately show "m' x = m x" by (intro same_exceptD [OF e(1)]) simp
  qed
qed

lemma link_front_ok:
  assumes d: "dll m q xs" and a: "links_apart q (insert x (set (map fst xs)))" and x: "distinct (x # map fst xs)"
  shows "dll (link_front m q x v) q ((x, v) # xs)"
    "same_except (queue_words q (insert x (set (map fst xs)))) m (link_front m q x v)"
proof -
  let ?A = "insert x (set (map fst xs))" and ?m = "link_front m q x v"
  note ax = links_apartD [OF a insertI1]
  have q: "q_first q \<noteq> l_data x" "q_first q \<noteq> l_next x" "q_first q \<noteq> l_prev x"
    "q_last q \<noteq> l_data x" "q_last q \<noteq> l_next x" "q_last q \<noteq> l_prev x"
    using ax(2,3) by (auto simp: link_cells_def)
  note qs = q q [THEN not_sym]
  have D: "m (q_first q) = head_addr xs 0" "m (q_last q) = last_addr xs 0" "links m 0 xs 0"
    using d by (simp_all add: dll_def)
  have "dll ?m q ((x, v) # xs) \<and> same_except (queue_words q ?A) m ?m"
  proof (cases xs)
    case Nil
    have e: "?m = m(l_data x := v, l_next x := 0, l_prev x := 0, q_last q := x, q_first q := x)"
      unfolding link_front_def Let_def using D(1) Nil qs by (simp del: fun_upd_apply add: fun_upd_other)
    have "same_except (queue_words q ?A) m ?m" unfolding e
      by (simp only: same_except_write same_except_refl queue_wordsI(1,2) queue_wordsI(3) [OF insertI1] in_link_cells)
    then show ?thesis using Nil qs unfolding e by (simp add: dll_def)
  next
    case (Cons y ys)
    obtain b e where y: "y = (b, e)" by fastforce
    have b: "b \<in> ?A" "b \<noteq> x" "b \<notin> set (map fst ys)" using Cons y x by auto
    note ab = links_apartD(1-3) [OF a b(1)]
    have qb: "q_first q \<noteq> l_prev b" "q_last q \<noteq> l_prev b" using ab(2,3) by (auto simp: link_cells_def)
    have xb: "z \<noteq> y" if "y \<in> link_cells x" "z \<in> link_cells b" for y z
      using links_apartD(4) [OF a b(1) insertI1 b(2) that(1)] that(2) by auto
    have qb': "z \<noteq> q_first q" "z \<noteq> q_last q" if "z \<in> link_cells b" for z using ab(2,3) that by auto
    have k: "z \<noteq> l_data x" "z \<noteq> l_next x" "z \<noteq> l_prev x" "z \<noteq> q_first q" "z \<noteq> q_last q" if "z \<in> link_cells b" for z
      using xb [OF _ that] qb' [OF that] by simp_all
    note n = qs k [OF in_link_cells(1)] k [OF in_link_cells(2)] k [OF in_link_cells(3)]
      k [OF in_link_cells(3), THEN not_sym]
    have f: "m (q_first q) = b" using D(1) Cons y by simp
    have e: "?m = m(l_data x := v, l_next x := b, l_prev x := 0, l_prev b := x, q_first q := x)"
      unfolding link_front_def Let_def using f ab(1) n by (simp del: fun_upd_apply add: fun_upd_other)
    have se: "same_except (queue_words q ?A) m ?m" unfolding e
      by (simp only: same_except_write same_except_refl queue_wordsI(1,2) queue_wordsI(3) [OF insertI1] in_link_cells queue_wordsI(3) [OF b(1)])
    have "same_except (link_cells b \<union> {q_first q, q_last q} \<union> link_cells x) m ?m"
      unfolding e by (simp only: same_except_write same_except_refl in_link_cells Un_iff insert_iff simp_thms)
    moreover have "\<forall>c \<in> set (map fst ys). link_cells c \<inter> link_cells x = {}"
    proof (intro ballI)
      fix c assume "c \<in> set (map fst ys)"
      then have c: "c \<in> ?A" "c \<noteq> x" using Cons x by auto
      from links_apartD(4) [OF a c(1) insertI1 c(2)] show "link_cells c \<inter> link_cells x = {}" by blast
    qed
    ultimately have "links ?m b ys 0"
      using links_next [of m 0 b e ys 0 q ?A] D(3) a Cons y b(3) by auto
    with se show ?thesis using D Cons y f n unfolding e by (simp add: dll_def)
  qed
  then show "dll ?m q ((x, v) # xs)" "same_except (queue_words q ?A) m ?m" by blast+
qed


text \<open>A cell of one link is not a cell of another, nor one of the queue.\<close>

lemma link_cell_neq:
  assumes a: "links_apart q A" and b: "b \<in> A" "z \<in> link_cells b"
  shows "z \<noteq> q_first q" "z \<noteq> q_last q" "c \<in> A \<Longrightarrow> c \<noteq> b \<Longrightarrow> y \<in> link_cells c \<Longrightarrow> z \<noteq> y"
proof -
  show "z \<noteq> q_first q" "z \<noteq> q_last q" using links_apartD(2,3) [OF a b(1)] b(2) by auto
  show "z \<noteq> y" if "c \<in> A" "c \<noteq> b" "y \<in> link_cells c"
    using links_apartD(4) [OF a that(1) b(1) that(2) b(2)] that(3) by auto
qed

lemma unlink_first_ok:
  assumes d: "dll m q ((a, d) # xs)" and A: "links_apart q A" "insert a (set (map fst xs)) \<subseteq> A"
    and x: "distinct (a # map fst xs)"
  shows "dll (unlink_first m q a) q xs" "unlink_first m q a (l_data a) = d"
    "same_except (queue_words q (set (map fst xs))) m (unlink_first m q a)"
proof -
  let ?m = "unlink_first m q a"
  have aA: "a \<in> A" using A(2) by simp
  note ca = link_cell_neq(1,2) [OF A(1) aA]
  have D: "m (q_first q) = a" "m (q_last q) = last_addr xs a" "m (l_data a) = d" "m (l_next a) = head_addr xs 0"
    "links m a xs 0" using d by (simp_all add: dll_def)
  have "dll ?m q xs \<and> ?m (l_data a) = d \<and> same_except (queue_words q (set (map fst xs))) m ?m"
  proof (cases xs)
    case Nil
    have e: "?m = m(q_first q := 0, q_last q := 0)"
      unfolding unlink_first_def Let_def using D(4) Nil ca by (simp del: fun_upd_apply add: fun_upd_same)
    have "same_except (queue_words q (set (map fst xs))) m ?m"
      unfolding e by (simp only: same_except_write same_except_refl queue_wordsI(1,2))
    then show ?thesis using Nil D(3) ca unfolding e by (simp add: dll_def)
  next
    case (Cons y ys)
    obtain b e where y: "y = (b, e)" by fastforce
    have b: "b \<in> A" "b \<noteq> a" "b \<notin> set (map fst ys)" "b \<in> set (map fst xs)" using Cons y x A(2) by auto
    note cb = link_cell_neq [OF A(1) b(1)]
    have ab: "z \<noteq> l_prev b" if "z \<in> link_cells a" for z
      using link_cell_neq(3) [OF A(1) aA that b(1,2)] by simp
    have f: "m (l_next a) = b" using D(4) Cons y by simp
    have e: "?m = m(q_first q := b, l_prev b := 0)"
      unfolding unlink_first_def Let_def using f ca links_apartD(1) [OF A(1) b(1)]
      by (simp del: fun_upd_apply add: fun_upd_same fun_upd_other)
    have se: "same_except (queue_words q (set (map fst xs))) m ?m"
      unfolding e by (simp only: same_except_write same_except_refl queue_wordsI(1,2) queue_wordsI(3) [OF b(4)] in_link_cells)
    have "same_except (link_cells b \<union> {q_first q, q_last q} \<union> {}) m ?m"
      unfolding e by (simp only: same_except_write same_except_refl in_link_cells Un_iff insert_iff simp_thms)
    then have "links ?m b ys 0"
      using links_next [of m a b e ys 0 q A "{}" ?m] D(5) A Cons y b(3) by auto
    moreover have "q_first q \<noteq> l_prev b" "q_last q \<noteq> l_prev b" using cb(1,2) [OF in_link_cells(3)] by auto
    ultimately show ?thesis using se D Cons y f cb(1,2) ab ca unfolding e by (simp add: dll_def)
  qed
  then show "dll ?m q xs" "?m (l_data a) = d" "same_except (queue_words q (set (map fst xs))) m ?m" by blast+
qed

lemma unlink_last_ok:
  assumes d: "dll m q (xs @ [(a, d)])" and A: "links_apart q A" "insert a (set (map fst xs)) \<subseteq> A"
    and x: "distinct (a # map fst xs)"
  shows "dll (unlink_last m q a) q xs" "unlink_last m q a (l_data a) = d"
    "same_except (queue_words q (set (map fst xs))) m (unlink_last m q a)"
proof -
  let ?m = "unlink_last m q a"
  have aA: "a \<in> A" using A(2) by simp
  note ca = link_cell_neq(1,2) [OF A(1) aA]
  have D: "m (q_first q) = head_addr xs a" "m (q_last q) = a" "m (l_data a) = d" "m (l_prev a) = last_addr xs 0"
    "links m 0 xs a" using d by (simp_all add: dll_def)
  have "dll ?m q xs \<and> ?m (l_data a) = d \<and> same_except (queue_words q (set (map fst xs))) m ?m"
  proof (cases xs rule: rev_cases)
    case Nil
    have e: "?m = m(q_last q := 0, q_first q := 0)"
      unfolding unlink_last_def Let_def using D(4) Nil ca by (simp del: fun_upd_apply add: fun_upd_same)
    have "same_except (queue_words q (set (map fst xs))) m ?m"
      unfolding e by (simp only: same_except_write same_except_refl queue_wordsI(1,2))
    then show ?thesis using Nil D(3) ca unfolding e by (simp add: dll_def)
  next
    case (snoc ys y)
    obtain b e where y: "y = (b, e)" by fastforce
    have b: "b \<in> A" "b \<noteq> a" "b \<notin> set (map fst ys)" "b \<in> set (map fst xs)" using snoc y x A(2) by auto
    note cb = link_cell_neq [OF A(1) b(1)]
    have ab: "z \<noteq> l_next b" if "z \<in> link_cells a" for z
      using link_cell_neq(3) [OF A(1) aA that b(1,2)] by simp
    have f: "m (l_prev a) = b" using D(4) snoc y by simp
    have e: "?m = m(q_last q := b, l_next b := 0)"
      unfolding unlink_last_def Let_def using f ca links_apartD(1) [OF A(1) b(1)]
      by (simp del: fun_upd_apply add: fun_upd_same fun_upd_other)
    have se: "same_except (queue_words q (set (map fst xs))) m ?m"
      unfolding e by (simp only: same_except_write same_except_refl queue_wordsI(1,2) queue_wordsI(3) [OF b(4)] in_link_cells)
    have "links m 0 ys b" using D(5) snoc y by simp
    then have "links ?m 0 ys b"
    proof (rule links_frame, intro ballI)
      fix c z assume c: "c \<in> set (map fst ys)" "z \<in> link_cells c"
      have "c \<in> A" "b \<noteq> c" using c(1) b(3) snoc A(2) by auto
      with link_cell_neq [OF A(1) _ c(2)] b(1) show "?m z = m z" unfolding e by simp
    qed
    moreover have "q_first q \<noteq> l_next b" "q_last q \<noteq> l_next b" using cb(1,2) [OF in_link_cells(2)] by auto
    ultimately show ?thesis using se D snoc y f cb(1,2) ab ca unfolding e by (simp add: dll_def)
  qed
  then show "dll ?m q xs" "?m (l_data a) = d" "same_except (queue_words q (set (map fst xs))) m ?m" by blast+
qed


subsection \<open>Links on the heap\<close>

text \<open>
  The object \<open>q\<close> (two words of a live block of \<open>L\<close>) is a queue with the items \<open>ds\<close>: its links are live
  blocks apart from \<open>L\<close>.
\<close>

definition queue_links :: "u64 \<Rightarrow> mem \<Rightarrow> (u64 \<times> u64) set \<Rightarrow> (u64 \<times> u64) set \<Rightarrow> u64 \<Rightarrow> (u64 \<times> u64) list \<Rightarrow> bool" where
  "queue_links h m N L q xs \<longleftrightarrow> heap_inv h m (N \<union> L) \<and> fst ` N \<inter> fst ` L = {} \<and>
     fst ` N = set (map fst xs) \<and> distinct (map fst xs) \<and> {q_first q, q_last q} \<subseteq> area L"

definition queue_of :: "u64 \<Rightarrow> mem \<Rightarrow> (u64 \<times> u64) set \<Rightarrow> u64 \<Rightarrow> u64 list \<Rightarrow> bool" where
  "queue_of h m L q ds \<longleftrightarrow> (\<exists>N xs. queue_links h m N L q xs \<and> dll m q xs \<and> map snd xs = ds)"

lemma link_payload:
  assumes "heap_inv h m K" "(a, s) \<in> K"
  shows "link_cells a \<subseteq> payload a s" "a \<noteq> 0"
proof -
  note f = live_facts(2-4) [OF assms]
  have "a + 8 * 0 \<in> payload a s" "a + 8 * 1 \<in> payload a s" "a + 8 * 2 \<in> payload a s"
    by (rule in_payload(2) [OF f(2)], use f(1) in simp)+
  then show "link_cells a \<subseteq> payload a s" by (simp add: link_cells_def queue_fields)
  show "a \<noteq> 0" using f(3) by auto
qed

lemma queue_linksD:
  assumes "queue_links h m N L q xs"
  shows "heap_inv h m (N \<union> L)" "fst ` N \<inter> fst ` L = {}" "fst ` N = set (map fst xs)" "distinct (map fst xs)"
    "q_first q \<in> area L" "q_last q \<in> area L"
  using assms unfolding queue_links_def by blast+

lemma queue_apart:
  assumes "queue_links h m N L q xs"
  shows "links_apart q (set (map fst xs))" "queue_words q (set (map fst xs)) \<subseteq> area (N \<union> L)"
    "queue_words q (set (map fst xs)) \<inter> area L \<subseteq> {q_first q, q_last q}"
proof -
  note d = queue_linksD [OF assms]
  have in_N: "\<exists>s. (a, s) \<in> N" if "a \<in> set (map fst xs)" for a using that d(3) by force
  have out: "area N \<inter> area L = {}" by (rule heap.apart_areas [OF d(1,2)])
  have sub: "link_cells a \<subseteq> area N" if "a \<in> set (map fst xs)" for a
  proof -
    from in_N [OF that] obtain s where s: "(a, s) \<in> N" by blast
    from link_payload(1) [OF d(1), of a s] s show ?thesis by (auto simp: area_def)
  qed
  show "links_apart q (set (map fst xs))"
    unfolding links_apart_def
  proof (intro conjI ballI impI)
    show "0 \<notin> set (map fst xs)" using link_payload(2) [OF d(1)] in_N by blast
    fix a assume a: "a \<in> set (map fst xs)"
    show "q_first q \<notin> link_cells a" "q_last q \<notin> link_cells a" using sub [OF a] out d(5,6) by blast+
    fix b assume b: "b \<in> set (map fst xs)" "a \<noteq> b"
    obtain s t where "(a, s) \<in> N" "(b, t) \<in> N" using in_N [OF a] in_N [OF b(1)] by blast
    with live_apart [OF d(1), of a s b t] link_payload(1) [OF d(1), of a s] link_payload(1) [OF d(1), of b t] b(2)
    show "link_cells a \<inter> link_cells b = {}" by blast
  qed
  show "queue_words q (set (map fst xs)) \<subseteq> area (N \<union> L)"
    unfolding queue_words_def using sub d(5,6) by auto
  show "queue_words q (set (map fst xs)) \<inter> area L \<subseteq> {q_first q, q_last q}"
    unfolding queue_words_def using sub out by blast
qed

text \<open>The words of the other clients.\<close>

definition queue_keeps :: "u64 \<Rightarrow> u64 \<Rightarrow> (u64 \<times> u64) set \<Rightarrow> mem \<Rightarrow> mem \<Rightarrow> bool" where
  "queue_keeps h q L m m' \<longleftrightarrow> (\<forall>x \<in> below h \<union> area L. x \<noteq> q_first q \<longrightarrow> x \<noteq> q_last q \<longrightarrow> m' x = m x)"


lemma queue_words_mono: "A \<subseteq> B \<Longrightarrow> queue_words q A \<subseteq> queue_words q B"
  by (auto simp: queue_words_def)

text \<open>Writing the words of a queue.\<close>

lemma queue_step:
  assumes n: "queue_links h m N L q xs" and s: "same_except (queue_words q A) m m'" "A \<subseteq> set (map fst xs)"
  shows "heap_inv h m' (N \<union> L)" "queue_keeps h q L m m'"
proof -
  note d = queue_linksD [OF n] and a = queue_apart [OF n]
  have se: "same_except (queue_words q (set (map fst xs))) m m'"
    by (rule same_except_mono [OF s(1) queue_words_mono [OF s(2)]])
  show "heap_inv h m' (N \<union> L)"
    by (rule heap.writes [OF d(1) same_except_mono [OF se le_supI2 [OF a(2)]]])
  have b: "area (N \<union> L) \<inter> below h = {}" by (rule live_below [OF d(1)])
  show "queue_keeps h q L m m'"
    unfolding queue_keeps_def
  proof (intro ballI impI, rule same_exceptD [OF se], rule notI)
    fix x assume x: "x \<in> below h \<union> area L" "x \<noteq> q_first q" "x \<noteq> q_last q"
      and w: "x \<in> queue_words q (set (map fst xs))"
    have "x \<notin> area L" by (rule notI, drule subsetD [OF a(3) IntI [OF w]], use x(2,3) in simp)
    moreover have "x \<notin> below h" using b subsetD [OF a(2) w] by (metis disjoint_iff)
    ultimately show False using x(1) by simp
  qed
qed

lemma dll_kept:
  assumes n: "queue_links h c N L q xs" and d: "dll m q ys" "set (map fst ys) \<subseteq> set (map fst xs)"
    and k: "keeps B K m m'" "queue_words q (set (map fst ys)) \<subseteq> area K"
  shows "dll m' q ys"
proof -
  have e: "m' x = m x" if "x \<in> queue_words q (set (map fst ys))" for x
    using k(1) subsetD [OF k(2) that] unfolding keeps_def by simp
  have "links m 0 ys 0" using d(1) by (simp add: dll_def)
  then have "links m' 0 ys 0" by (rule links_frame) (intro ballI e queue_wordsI(3))
  then show ?thesis using d(1) e [OF queue_wordsI(1)] e [OF queue_wordsI(2)] by (simp add: dll_def)
qed

lemma keeps_queue: "keeps (below h) K m m' \<Longrightarrow> L \<subseteq> K \<Longrightarrow> queue_keeps h q L m m'"
  by (drule (1) keeps_subset) (simp add: keeps_def queue_keeps_def)

lemma queue_keeps_trans: "queue_keeps h q L m m' \<Longrightarrow> queue_keeps h q L m' m'' \<Longrightarrow> queue_keeps h q L m m''"
  by (simp add: queue_keeps_def)

lemma queue_push_ok:
  assumes "queue_of h m L q ds"
  shows "\<exists>m' l. queue_push m h q v = Some (m', l) \<and> queue_keeps h q L m m' \<and>
    (l = 0 \<and> m' = m \<and> alloc m h 3 = Some (m, 0) \<or> l \<noteq> 0 \<and> queue_of h m' L q (v # ds))"
proof -
  obtain N xs where n: "queue_links h m N L q xs" and x: "dll m q xs" "map snd xs = ds"
    using assms unfolding queue_of_def by blast
  note d = queue_linksD [OF n]
  from alloc_inv [OF d(1), of 3] obtain m1 l where al: "alloc m h 3 = Some (m1, l)" "l = 0 \<Longrightarrow> m1 = m"
    "l \<noteq> 0 \<Longrightarrow> \<exists>s. l \<notin> fst ` (N \<union> L) \<and> heap_inv h m1 (insert (l, s) (N \<union> L)) \<and> keeps (below h) (N \<union> L) m m1"
    by blast
  show ?thesis
  proof (cases "l = 0")
    case True
    then show ?thesis using al by (simp add: queue_push_def queue_keeps_def)
  next
    case False
    then obtain s where s: "l \<notin> fst ` (N \<union> L)" "heap_inv h m1 (insert (l, s) (N \<union> L))" "keeps (below h) (N \<union> L) m m1"
      using al(3) by blast
    let ?N = "insert (l, s) N" and ?ys = "(l, v) # xs"
    have n1: "queue_links h m1 ?N L q ?ys"
      using d s(1,2) unfolding queue_links_def by auto
    have d1: "dll m1 q xs" by (rule dll_kept [OF n x(1) order.refl s(3) queue_apart(2) [OF n]])
    have ap: "links_apart q (insert l (set (map fst xs)))" using queue_apart(1) [OF n1] by simp
    have di: "distinct (l # map fst xs)" using queue_linksD(4) [OF n1] by simp
    note f = link_front_ok [OF d1 ap di, of v]
    have st: "heap_inv h (link_front m1 q l v) (?N \<union> L)" "queue_keeps h q L m1 (link_front m1 q l v)"
      by (rule queue_step [OF n1 f(2)], simp)+
    have "queue_links h (link_front m1 q l v) ?N L q ?ys" using n1 st(1) unfolding queue_links_def by blast
    with f(1) x(2) have "queue_of h (link_front m1 q l v) L q (v # ds)" unfolding queue_of_def by fastforce
    moreover have "queue_keeps h q L m (link_front m1 q l v)"
      by (rule queue_keeps_trans [OF keeps_queue [OF s(3)] st(2)]) simp
    ultimately show ?thesis using al(1) False by (simp add: queue_push_def)
  qed
qed

text \<open>A link that was taken off the list is freed.\<close>

lemma free_link:
  assumes n: "queue_links h m N L q xs" and a: "set (map fst xs) = insert a (set (map fst ys))" "a \<notin> set (map fst ys)"
      "distinct (map fst ys)"
    and d: "dll m1 q ys" "same_except (queue_words q (set (map fst ys))) m m1"
  shows "\<exists>m'. free m1 h a = Some m' \<and> queue_of h m' L q (map snd ys) \<and> queue_keeps h q L m m'"
proof -
  note D = queue_linksD [OF n]
  obtain s where s: "(a, s) \<in> N" using D(3) a(1) by force
  let ?N = "N - {(a, s)}"
  have N: "N = insert (a, s) ?N" using s by blast
  have one: "t = s" if "(a, t) \<in> N" for t using live_size [OF D(1), of a t s] that s by simp
  have f: "fst ` ?N = set (map fst ys)"
  proof -
    have "a \<notin> fst ` ?N" using one by force
    moreover have "insert a (fst ` ?N) = insert a (set (map fst ys))" using N a(1) D(3) by (metis fst_conv image_insert)
    ultimately show ?thesis using a(2) insert_ident [of a "fst ` ?N" "set (map fst ys)"] by blast
  qed
  have st: "heap_inv h m1 (N \<union> L)" "queue_keeps h q L m m1"
    by (rule queue_step [OF n d(2)], use a(1) in blast)+
  have "heap_inv h m1 (insert (a, s) (?N \<union> L))" using st(1) N by (metis Un_insert_left)
  moreover have "a \<notin> fst ` (?N \<union> L)" using f a(2) s D(2) by force
  ultimately obtain m' where m': "free m1 h a = Some m'" "heap_inv h m' (?N \<union> L)" "keeps (below h) (?N \<union> L) m1 m'"
    using free_inv [of h m1 a s "?N \<union> L"] by blast
  have n': "queue_links h m' ?N L q ys"
    using m'(2) f a(3) D(2,5,6) unfolding queue_links_def by auto
  have "dll m' q ys" by (rule dll_kept [OF n' d(1) order.refl m'(3) queue_apart(2) [OF n']])
  with n' have "queue_of h m' L q (map snd ys)" unfolding queue_of_def by blast
  moreover have "queue_keeps h q L m m'"
    by (rule queue_keeps_trans [OF st(2) keeps_queue [OF m'(3)]]) simp
  ultimately show ?thesis using m'(1) by blast
qed


lemma queue_pop_ok:
  assumes "queue_of h m L q ds"
  shows "\<exists>m'. queue_pop m h q = Some (m', if ds = [] then 0 else hd ds) \<and>
    queue_of h m' L q (tl ds) \<and> queue_keeps h q L m m' \<and> (ds = [] \<longrightarrow> m' = m)"
proof -
  obtain N xs where n: "queue_links h m N L q xs" and x: "dll m q xs" "map snd xs = ds"
    using assms unfolding queue_of_def by blast
  show ?thesis
  proof (cases xs)
    case Nil
    then show ?thesis using assms x by (simp add: queue_pop_def dll_def queue_keeps_def)
  next
    case (Cons y ys)
    obtain a d where y: "y = (a, d)" by fastforce
    have ap: "links_apart q (insert a (set (map fst ys)))" using queue_apart(1) [OF n] Cons y by simp
    have di: "distinct (a # map fst ys)" using queue_linksD(4) [OF n] Cons y by simp
    note u = unlink_first_ok [OF x(1) [unfolded Cons y] ap order.refl di]
    have "set (map fst xs) = insert a (set (map fst ys))" "a \<notin> set (map fst ys)" "distinct (map fst ys)"
      using Cons y di by simp_all
    from free_link [OF n this u(1,3)] obtain m' where m': "free (unlink_first m q a) h a = Some m'"
      "queue_of h m' L q (map snd ys)" "queue_keeps h q L m m'" by blast
    have "m (q_first q) = a" "a \<noteq> 0" using x(1) Cons y links_apartD(1) [OF ap insertI1] by (simp_all add: dll_def)
    then show ?thesis using m' u(2) x(2) Cons y by (auto simp: queue_pop_def Let_def)
  qed
qed

lemma queue_last_ok:
  assumes "queue_of h m L q ds"
  shows "\<exists>m'. queue_last m h q = Some (m', if ds = [] then 0 else last ds) \<and>
    queue_of h m' L q (butlast ds) \<and> queue_keeps h q L m m' \<and> (ds = [] \<longrightarrow> m' = m)"
proof -
  obtain N xs where n: "queue_links h m N L q xs" and x: "dll m q xs" "map snd xs = ds"
    using assms unfolding queue_of_def by blast
  show ?thesis
  proof (cases xs rule: rev_cases)
    case Nil
    then show ?thesis using assms x by (simp add: queue_last_def dll_def queue_keeps_def)
  next
    case (snoc ys y)
    obtain a d where y: "y = (a, d)" by fastforce
    have ap: "links_apart q (insert a (set (map fst ys)))" using queue_apart(1) [OF n] snoc y by simp
    have di: "distinct (a # map fst ys)" using queue_linksD(4) [OF n] snoc y by simp
    note u = unlink_last_ok [OF x(1) [unfolded snoc y] ap order.refl di]
    have "set (map fst xs) = insert a (set (map fst ys))" "a \<notin> set (map fst ys)" "distinct (map fst ys)"
      using snoc y di by simp_all
    from free_link [OF n this u(1,3)] obtain m' where m': "free (unlink_last m q a) h a = Some m'"
      "queue_of h m' L q (map snd ys)" "queue_keeps h q L m m'" by blast
    have "m (q_last q) = a" "a \<noteq> 0" using x(1) snoc y links_apartD(1) [OF ap insertI1] by (simp_all add: dll_def)
    then show ?thesis using m' u(2) x(2) snoc y by (auto simp: queue_last_def Let_def)
  qed
qed

end
