(* ===== verification/Queue_Props.thy ===== *)
theory Queue_Props
  imports Queue Heap_Props
begin

text \<open>
  The properties of the queue. The locale \<open>deque\<close> states what a client of the queue relies on; its lemmas
  say what comes out after any number of pushes, from either end.
\<close>

subsection \<open>Runs of pushes and of removals\<close>

text \<open>Push items until one is refused, and the number that went in; take \<open>n\<close> items out.\<close>

fun push_all :: "(mem \<Rightarrow> u64 \<Rightarrow> (mem \<times> u64) option) \<Rightarrow> mem \<Rightarrow> u64 list \<Rightarrow> (mem \<times> nat) option" where
  "push_all put m [] = Some (m, 0)"
| "push_all put m (v # vs) =
     (case put m v of None \<Rightarrow> None
      | Some (m', l) \<Rightarrow> if l = 0 then Some (m', 0) else map_option (apsnd Suc) (push_all put m' vs))"

fun take_all :: "(mem \<Rightarrow> (mem \<times> u64) option) \<Rightarrow> mem \<Rightarrow> nat \<Rightarrow> (mem \<times> u64 list) option" where
  "take_all get m 0 = Some (m, [])"
| "take_all get m (Suc n) =
     (case get m of None \<Rightarrow> None | Some (m', v) \<Rightarrow> map_option (apsnd (Cons v)) (take_all get m' n))"

locale deque =
  fixes items :: "mem \<Rightarrow> u64 list \<Rightarrow> bool"
    and put :: "mem \<Rightarrow> u64 \<Rightarrow> (mem \<times> u64) option"
    and pop_front :: "mem \<Rightarrow> (mem \<times> u64) option"
    and pop_back :: "mem \<Rightarrow> (mem \<times> u64) option"
  assumes put_law: "items m ds \<Longrightarrow>
      \<exists>m' l. put m v = Some (m', l) \<and> items m' (if l = 0 then ds else v # ds)"
    and front_law: "items m (d # ds) \<Longrightarrow> \<exists>m'. pop_front m = Some (m', d) \<and> items m' ds"
    and back_law: "items m (ds @ [d]) \<Longrightarrow> \<exists>m'. pop_back m = Some (m', d) \<and> items m' ds"
begin

lemma puts:
  assumes "items m ds"
  shows "\<exists>m' k. push_all put m vs = Some (m', k) \<and> k \<le> length vs \<and> items m' (rev (take k vs) @ ds)"
  using assms
proof (induction vs arbitrary: m ds)
  case (Cons v vs)
  obtain m1 l where p: "put m v = Some (m1, l)" "items m1 (if l = 0 then ds else v # ds)"
    using put_law [OF Cons.prems] by blast
  show ?case
  proof (cases "l = 0")
    case False
    with p Cons.IH [of m1 "v # ds"] obtain m' k where "push_all put m1 vs = Some (m', k)" "k \<le> length vs"
      "items m' (rev (take k vs) @ v # ds)" by auto
    then show ?thesis using p(1) False by simp
  qed (use p in simp)
qed simp

lemma fronts: "items m (xs @ ds) \<Longrightarrow> \<exists>m'. take_all pop_front m (length xs) = Some (m', xs) \<and> items m' ds"
proof (induction xs arbitrary: m)
  case (Cons x xs)
  obtain m1 where m1: "pop_front m = Some (m1, x)" "items m1 (xs @ ds)" using front_law Cons.prems by force
  with Cons.IH [OF m1(2)] show ?case by auto
qed simp

lemma backs: "items m (ds @ rev xs) \<Longrightarrow> \<exists>m'. take_all pop_back m (length xs) = Some (m', xs) \<and> items m' ds"
proof (induction xs arbitrary: m)
  case (Cons x xs)
  have "items m ((ds @ rev xs) @ [x])" using Cons.prems by simp
  from back_law [OF this] obtain m1 where m1: "pop_back m = Some (m1, x)" "items m1 (ds @ rev xs)" by blast
  with Cons.IH [OF m1(2)] show ?case by auto
qed simp

text \<open>Items that went in come out, in their order at the back and in the opposite order at the front.\<close>

lemma run:
  assumes "items m []"
  shows "\<exists>m1 k m2 m3. push_all put m vs = Some (m1, k) \<and> k \<le> length vs \<and>
    take_all pop_back m1 k = Some (m2, take k vs) \<and> items m2 [] \<and>
    take_all pop_front m1 k = Some (m3, rev (take k vs)) \<and> items m3 []"
proof -
  obtain m1 k where p: "push_all put m vs = Some (m1, k)" "k \<le> length vs" "items m1 (rev (take k vs))"
    using puts [OF assms, of vs] by auto
  have "length (take k vs) = k" "length (rev (take k vs)) = k" using p(2) by simp_all
  with backs [of m1 "[]" "take k vs"] fronts [of m1 "rev (take k vs)" "[]"] p show ?thesis by auto
qed

end

lemma queue_deque:
  "deque (\<lambda>m ds. queue_of h m L q ds) (\<lambda>m v. queue_push m h q v) (\<lambda>m. queue_pop m h q) (\<lambda>m. queue_last m h q)"
proof
  fix m ds v assume "queue_of h m L q ds"
  from queue_push_ok [OF this, of v] this
  show "\<exists>m' l. queue_push m h q v = Some (m', l) \<and> queue_of h m' L q (if l = 0 then ds else v # ds)" by auto
next
  fix m d ds assume "queue_of h m L q (d # ds)"
  from queue_pop_ok [OF this] show "\<exists>m'. queue_pop m h q = Some (m', d) \<and> queue_of h m' L q ds" by auto
next
  fix m ds d assume "queue_of h m L q (ds @ [d])"
  from queue_last_ok [OF this] show "\<exists>m'. queue_last m h q = Some (m', d) \<and> queue_of h m' L q ds" by auto
qed

interpretation queue: deque "\<lambda>m ds. queue_of h m L q ds" "\<lambda>m v. queue_push m h q v" "\<lambda>m. queue_pop m h q"
    "\<lambda>m. queue_last m h q" for h L q
  by (rule queue_deque)

subsection \<open>The properties\<close>

text \<open>
  C8. The three operations of the queue are those of the list of its items. \<open>queue_push\<close> puts the data in
  front and returns the link, or returns 0 and changes nothing when the heap has no block for a link;
  \<open>queue_pop\<close> takes the first item out and \<open>queue_last\<close> the last one, both return 0 and change nothing when
  there is none. No operation changes a word outside the heap or a word of a live block other than the two
  of the queue, and the blocks of the links always are those of the items: none leaks and none is freed
  twice.
\<close>

theorem queue_correct:
  assumes "queue_of h m L q ds"
  shows "(\<exists>m' l. queue_push m h q v = Some (m', l) \<and> queue_keeps h q L m m' \<and>
      (if l = 0 then m' = m \<and> alloc m h 3 = Some (m, 0) else queue_of h m' L q (v # ds))) \<and>
    (\<exists>m'. queue_pop m h q = Some (m', if ds = [] then 0 else hd ds) \<and>
      (if ds = [] then m' = m else queue_of h m' L q (tl ds)) \<and> queue_keeps h q L m m') \<and>
    (\<exists>m'. queue_last m h q = Some (m', if ds = [] then 0 else last ds) \<and>
      (if ds = [] then m' = m else queue_of h m' L q (butlast ds)) \<and> queue_keeps h q L m m')"
proof (intro conjI)
  show "\<exists>m' l. queue_push m h q v = Some (m', l) \<and> queue_keeps h q L m m' \<and>
      (if l = 0 then m' = m \<and> alloc m h 3 = Some (m, 0) else queue_of h m' L q (v # ds))"
    using queue_push_ok [OF assms, of v] by auto
  show "\<exists>m'. queue_pop m h q = Some (m', if ds = [] then 0 else hd ds) \<and>
      (if ds = [] then m' = m else queue_of h m' L q (tl ds)) \<and> queue_keeps h q L m m'"
    using queue_pop_ok [OF assms] by (cases "ds = []") auto
  show "\<exists>m'. queue_last m h q = Some (m', if ds = [] then 0 else last ds) \<and>
      (if ds = [] then m' = m else queue_of h m' L q (butlast ds)) \<and> queue_keeps h q L m m'"
    using queue_last_ok [OF assms] by (cases "ds = []") auto
qed

lemma demo_queue:
  "\<exists>m. queue_of 0x80000 m {(0x80048, 4)} 0x80048 [] \<and> (\<exists>m1 l. alloc m 0x80000 3 = Some (m1, l) \<and> l \<noteq> 0)"
proof -
  let ?bs = "[(0x80040, 4, True)] @ [(0x80060, 88, False)] :: block list"
  obtain m where m: "heap_ok m 0x80000 ?bs" using demo_one by auto
  let ?m = "fold (\<lambda>(x, v) f. f(x := v)) [(0x80048, 0), (0x80050, 0)] m"
  have L: "live ?bs = {(0x80048, 4)}" by (simp add: live_def)
  have ok: "heap_ok ?m 0x80000 ?bs" by (rule heap_ok_writes [OF m]) (simp add: L payload_def)
  then have i: "heap_inv 0x80000 ?m {(0x80048, 4)}" unfolding heap_inv_def using L by blast
  have c: "q_first 0x80048 = 0x80048" "q_last 0x80048 = 0x80050" by (simp_all add: queue_fields)
  have "queue_links 0x80000 ?m {} {(0x80048, 4)} 0x80048 []"
    unfolding queue_links_def c using i by (simp add: payload_def)
  moreover have "dll ?m 0x80048 []" unfolding dll_def c by simp
  ultimately have q: "queue_of 0x80000 ?m {(0x80048, 4)} 0x80048 []" unfolding queue_of_def by fastforce
  have "need 3 + min_alloc_sz \<le> 88" "need 3 \<le> 88" by (simp_all add: need_def umds_sz_def min_alloc_sz_def)
  from alloc_last [OF ok _ this] obtain m' where "alloc ?m 0x80000 3 = Some (m', 0x80060 + 8)" by auto
  moreover have "(0x80060 :: u64) + 8 \<noteq> 0" by simp
  ultimately show ?thesis using q by blast
qed

lemma queue_correct_witness:
  "\<exists>m m' l. queue_of 0x80000 m {(0x80048, 4)} 0x80048 [] \<and> queue_push m 0x80000 0x80048 7 = Some (m', l) \<and>
     l \<noteq> 0 \<and> queue_of 0x80000 m' {(0x80048, 4)} 0x80048 [7]"
proof -
  obtain m m1 l1 where m: "queue_of 0x80000 m {(0x80048, 4)} 0x80048 []" "alloc m 0x80000 3 = Some (m1, l1)" "l1 \<noteq> 0"
    using demo_queue by blast
  from queue_correct [OF m(1), of 7] obtain m' l where "queue_push m 0x80000 0x80048 7 = Some (m', l)"
    "if l = 0 then m' = m \<and> alloc m 0x80000 3 = Some (m, 0) else queue_of 0x80000 m' {(0x80048, 4)} 0x80048 [7]"
    by blast
  with m show ?thesis by (auto split: if_splits)
qed

text \<open>
  C22. Whatever goes into an empty queue comes out of it. A run of pushes accepts the first \<open>k\<close> items (fewer
  than all only when the heap is full); \<open>k\<close> calls of \<open>queue_last\<close> then return them in the order they went
  in, \<open>k\<close> calls of \<open>queue_pop\<close> return them in the opposite order, and the queue is empty again.
\<close>

theorem queue_delivers:
  assumes "queue_of h m L q []"
  shows "\<exists>m1 k m2 m3. push_all (\<lambda>m v. queue_push m h q v) m vs = Some (m1, k) \<and> k \<le> length vs \<and>
    take_all (\<lambda>m. queue_last m h q) m1 k = Some (m2, take k vs) \<and> queue_of h m2 L q [] \<and>
    take_all (\<lambda>m. queue_pop m h q) m1 k = Some (m3, rev (take k vs)) \<and> queue_of h m3 L q []"
  using assms by (rule queue.run)

lemma queue_delivers_witness:
  "\<exists>m m1 m2. queue_of 0x80000 m {(0x80048, 4)} 0x80048 [] \<and>
     push_all (\<lambda>m v. queue_push m 0x80000 0x80048 v) m [7] = Some (m1, 1) \<and>
     take_all (\<lambda>m. queue_last m 0x80000 0x80048) m1 1 = Some (m2, [7])"
proof -
  obtain m m0 l0 where m: "queue_of 0x80000 m {(0x80048, 4)} 0x80048 []" "alloc m 0x80000 3 = Some (m0, l0)" "l0 \<noteq> 0"
    using demo_queue by blast
  from queue_push_ok [OF m(1), of 7] m(2,3) obtain m' l where p: "queue_push m 0x80000 0x80048 7 = Some (m', l)" "l \<noteq> 0"
    by auto
  from queue_delivers [OF m(1), of "[7]"] obtain m1 k m2
    where r: "push_all (\<lambda>m v. queue_push m 0x80000 0x80048 v) m [7] = Some (m1, k)"
      "take_all (\<lambda>m. queue_last m 0x80000 0x80048) m1 k = Some (m2, take k [7])" by blast
  have "k = 1" using r(1) p by simp
  with r m(1) show ?thesis by auto
qed

end
