(* ===== verification/Asm.thy ===== *)
theory Asm
  imports Containers Bignum
begin

text \<open>
  The assembler (\<^verbatim>\<open>asm.c\<close>, lines 1 to 348): the table of instructions, the scanner and \<^verbatim>\<open>compile\<close>, which
  translates the text of a program, one word per character, to an array of instruction words.

  An instruction word has the opcode in its upper byte (the top bit tells that the last operand is
  a register), then five bits for each register from the top down, and an immediate operand in
  the bits that remain.
\<close>

subsection \<open>Instructions\<close>

definition opcode_len :: u64 where "opcode_len = 8"
definition arg_size :: u64 where "arg_size = 5"
definition opcode_start :: u64 where "opcode_start = 64 - opcode_len"
definition num_regs :: u64 where "num_regs = push_bit 5 1"
definition inst_mask :: u64 where "inst_mask = push_bit 56 (push_bit 7 1 - 1)"
definition exc_cont_mask :: u64 where "exc_cont_mask = push_bit 63 1"
definition instr_uses_reg :: u64 where "instr_uses_reg = push_bit 63 1"
definition mx_reg_args :: nat where "mx_reg_args = 10"

lemmas asm_consts = opcode_len_def arg_size_def opcode_start_def num_regs_def inst_mask_def
  exc_cont_mask_def instr_uses_reg_def mx_reg_args_def

datatype opcode =
    Acx | Ads | Sbs | Mls | Mlu | Dvs | Dvu | And | Orr | Xor | Nor | Shf | Ldr | Str | Jnc | Exc

definition opcodes :: "opcode list" where
  "opcodes = [Acx, Ads, Sbs, Mls, Mlu, Dvs, Dvu, And, Orr, Xor, Nor, Shf, Ldr, Str, Jnc, Exc]"

fun op_args :: "opcode \<Rightarrow> u64" where
  "op_args Exc = 1"
| "op_args _ = 3"

fun op_name :: "opcode \<Rightarrow> u64 list" where
  "op_name Acx = lit ''acx''"
| "op_name Ads = lit ''ads''"
| "op_name Sbs = lit ''sbs''"
| "op_name Mls = lit ''mls''"
| "op_name Mlu = lit ''mlu''"
| "op_name Dvs = lit ''dvs''"
| "op_name Dvu = lit ''dvu''"
| "op_name And = lit ''and''"
| "op_name Orr = lit ''orr''"
| "op_name Xor = lit ''xor''"
| "op_name Nor = lit ''nor''"
| "op_name Shf = lit ''shf''"
| "op_name Ldr = lit ''ldr''"
| "op_name Str = lit ''str''"
| "op_name Jnc = lit ''jnc''"
| "op_name Exc = lit ''exc''"

text \<open>The table \<^verbatim>\<open>instructions\<close>, indexed by the number of the opcode: operand count and name.\<close>

definition instructions :: "(u64 \<times> u64 list) list" where
  "instructions = map (\<lambda>o1. (op_args o1, op_name o1)) opcodes"

definition get_flx_op_mask :: "u64 \<Rightarrow> u64" where
  "get_flx_op_mask n = shr (-1) (opcode_len + (if n \<noteq> 0 then n - 1 else 0) * arg_size)"

subsection \<open>Scanning\<close>

text \<open>
  The scanner works on the words from \<open>code\<close> on. Its functions return an error code, 0 for success,
  and the new index, which is the old one after an error.
\<close>

definition whitespace :: "u64 \<Rightarrow> bool" where
  "whitespace ch = (ch = 32 \<or> ch = 10 \<or> ch = 9 \<or> ch = 0)"

function skip_while :: "(u64 \<Rightarrow> bool) \<Rightarrow> mem \<Rightarrow> u64 \<Rightarrow> u64 \<Rightarrow> u64 \<Rightarrow> u64" where
  "skip_while p m code code_sz i =
     (if i < code_sz \<and> p (m (code + 8 * i)) then skip_while p m code code_sz (i + 1) else i)"
  by pat_completeness auto
termination
  by (relation "measure (\<lambda>(p, m, code, code_sz, i). unat (code_sz - i))") auto

declare skip_while.simps [simp del]

definition ignore_whitespace :: "mem \<Rightarrow> u64 \<Rightarrow> u64 \<Rightarrow> u64 \<Rightarrow> u64" where
  "ignore_whitespace m code code_sz idx = skip_while whitespace m code code_sz idx"

definition ignore_non_whitespace :: "mem \<Rightarrow> u64 \<Rightarrow> u64 \<Rightarrow> u64 \<Rightarrow> u64" where
  "ignore_non_whitespace m code code_sz idx = skip_while (\<lambda>c. \<not> whitespace c) m code code_sz idx"

definition expect_whitespace :: "mem \<Rightarrow> u64 \<Rightarrow> u64 \<Rightarrow> u64 \<Rightarrow> u64 \<times> u64" where
  "expect_whitespace m code code_sz idx =
     (if code_sz \<le> idx \<or> \<not> whitespace (m (code + 8 * idx)) then (1, idx)
      else (0, ignore_whitespace m code code_sz idx))"

definition expect_whitespace_or_end :: "mem \<Rightarrow> u64 \<Rightarrow> u64 \<Rightarrow> u64 \<Rightarrow> u64 \<times> u64" where
  "expect_whitespace_or_end m code code_sz idx =
     (let (ws, idx) = expect_whitespace m code code_sz idx
      in if ws = 0 \<or> code_sz \<le> idx then (0, idx) else (1, idx))"

text \<open>How far a string agrees with the text at an index.\<close>

datatype match_result = Matched u64 | Mismatch | End_of_code

fun match_chars :: "mem \<Rightarrow> u64 \<Rightarrow> u64 \<Rightarrow> u64 \<Rightarrow> u64 list \<Rightarrow> match_result" where
  "match_chars m code code_sz idx [] = Matched idx"
| "match_chars m code code_sz idx (ch # chs) =
     (if code_sz \<le> idx then End_of_code
      else if ch \<noteq> m (code + 8 * idx) then Mismatch
      else match_chars m code code_sz (idx + 1) chs)"

text \<open>\<^verbatim>\<open>match_opcode\<close>: at the end of the text it fails without trying the other names.\<close>

fun match_opcode_from ::
    "mem \<Rightarrow> u64 \<Rightarrow> u64 \<Rightarrow> u64 \<Rightarrow> u64 \<Rightarrow> u64 \<Rightarrow> (u64 \<times> u64 list) list \<Rightarrow> u64 \<times> u64 \<times> u64" where
  "match_opcode_from m code code_sz index output i [] = (1, index, output)"
| "match_opcode_from m code code_sz index output i (ins # inss) =
     (case match_chars m code code_sz index (snd ins) of
        End_of_code \<Rightarrow> (1, index, output)
      | Mismatch \<Rightarrow> match_opcode_from m code code_sz index output (i + 1) inss
      | Matched idx \<Rightarrow> (0, idx, i))"

definition match_opcode :: "mem \<Rightarrow> u64 \<Rightarrow> u64 \<Rightarrow> u64 \<Rightarrow> u64 \<Rightarrow> u64 \<times> u64 \<times> u64" where
  "match_opcode m code code_sz index output =
     match_opcode_from m code code_sz index output 0 instructions"

definition expect_str :: "mem \<Rightarrow> u64 \<Rightarrow> u64 \<Rightarrow> u64 \<Rightarrow> u64 list \<Rightarrow> u64 \<times> u64" where
  "expect_str m code code_sz index str =
     (case match_chars m code code_sz index str of
        Matched idx \<Rightarrow> (0, idx)
      | Mismatch \<Rightarrow> (1, index)
      | End_of_code \<Rightarrow> (1, index))"

text \<open>
  The loop of \<^verbatim>\<open>expect_hex_from_str\<close>: the index behind the digits, their number and their value, or
  \<open>None\<close> when the value exceeds the maximum.
\<close>

function hex_from ::
    "mem \<Rightarrow> u64 \<Rightarrow> u64 \<Rightarrow> u64 \<Rightarrow> u64 \<Rightarrow> u64 \<Rightarrow> u64 \<Rightarrow> (u64 \<times> u64 \<times> u64) option" where
  "hex_from m code code_sz max_val idx i res =
     (if i < 16 \<and> idx < code_sz then
        (case hex_val (m (code + 8 * idx)) of
           None \<Rightarrow> Some (idx, i, res)
         | Some tmp \<Rightarrow>
             (let pval = push_bit 4 res OR tmp
              in if max_val < pval then None
                 else hex_from m code code_sz max_val (idx + 1) (i + 1) pval))
      else Some (idx, i, res))"
  by pat_completeness auto
termination
  by (relation "measure (\<lambda>(m, code, code_sz, max_val, idx, i, res). unat (16 - i))")
    (simp_all only: in_measure case_prod_conv word_loop_measure wf_measure)

declare hex_from.simps [simp del]

definition expect_hex_from_str ::
    "mem \<Rightarrow> u64 \<Rightarrow> u64 \<Rightarrow> u64 \<Rightarrow> u64 \<Rightarrow> u64 \<Rightarrow> u64 \<times> u64 \<times> u64" where
  "expect_hex_from_str m code code_sz index max_val output =
     (case hex_from m code code_sz max_val index 0 0 of
        None \<Rightarrow> (1, index, output)
      | Some (idx, i, res) \<Rightarrow> if i = 0 then (1, index, output) else (0, idx, res))"

subsection \<open>Labels\<close>

definition lbl_info_sz :: u64 where "lbl_info_sz = 2"

text \<open>A label entry: the address of its text and the number of the instruction.\<close>

definition lbl_label :: "u64 \<Rightarrow> u64" where "lbl_label r = r"
definition lbl_addr :: "u64 \<Rightarrow> u64" where "lbl_addr r = r + 8"

definition ref_eq :: "mem \<Rightarrow> u64 \<Rightarrow> u64 \<Rightarrow> u64 option" where
  "ref_eq m r1 r2 = Some (of_bool (m (lbl_label r1) = m (lbl_label r2)))"

partial_function (option) lbl_streq_from :: "mem \<Rightarrow> u64 \<Rightarrow> u64 \<Rightarrow> u64 \<Rightarrow> u64 option" where
  "lbl_streq_from m max_ptr l1 l2 =
     (if l1 < max_ptr \<and> l2 < max_ptr then
        if whitespace (m l1) then Some (if whitespace (m l2) then 1 else 0)
        else if m l1 \<noteq> m l2 then Some 0
        else lbl_streq_from m max_ptr (l1 + 8) (l2 + 8)
      else Some 1)"

definition lbl_streq :: "u64 \<Rightarrow> mem \<Rightarrow> u64 \<Rightarrow> u64 \<Rightarrow> u64 option" where
  "lbl_streq max_ptr m s1 s2 = lbl_streq_from m max_ptr (m (lbl_label s1)) (m (lbl_label s2))"

subsection \<open>Operands\<close>

text \<open>\<^verbatim>\<open>instr_idx -= arg_size; instr |= (output << instr_idx)\<close>\<close>

definition put_reg :: "u64 \<Rightarrow> u64 \<Rightarrow> u64 \<Rightarrow> u64 \<times> u64" where
  "put_reg instr instr_idx reg = (let instr_idx = instr_idx - arg_size in (instr OR shl reg instr_idx, instr_idx))"

text \<open>
  The loop over all operands but the last one: each is a register followed by white space. The result
  is \<open>None\<close> for an error, else the instruction, the bit position and the index.
\<close>

fun reg_operands ::
    "mem \<Rightarrow> u64 \<Rightarrow> u64 \<Rightarrow> nat \<Rightarrow> u64 \<Rightarrow> u64 \<Rightarrow> u64 \<Rightarrow> (u64 \<times> u64 \<times> u64) option" where
  "reg_operands m code code_sz 0 instr instr_idx idx = Some (instr, instr_idx, idx)"
| "reg_operands m code code_sz (Suc n) instr instr_idx idx =
     (let (ret_code, idx) = expect_str m code code_sz idx (lit ''r'') in
      if ret_code \<noteq> 0 then None
      else let (ret_code, idx, output) = expect_hex_from_str m code code_sz idx (num_regs - 1) 0 in
      if ret_code \<noteq> 0 then None
      else let (instr, instr_idx) = put_reg instr instr_idx output;
               (ret_code, idx) = expect_whitespace m code code_sz idx in
      if ret_code \<noteq> 0 then None
      else reg_operands m code code_sz n instr instr_idx idx)"

text \<open>
  The last operand: a number, a register or (the third case) a label. The index is where the attempts to
  read it have stopped.
\<close>

datatype operand = Imm u64 | Reg u64 | Label

definition last_operand :: "mem \<Rightarrow> u64 \<Rightarrow> u64 \<Rightarrow> u64 \<Rightarrow> u64 \<Rightarrow> operand \<times> u64" where
  "last_operand m code code_sz n_args reset_addr =
     (let idx = reset_addr;
          (not_neg, idx) = expect_str m code code_sz idx (lit ''-'');
          (r1, idx, output) =
            expect_hex_from_str m code code_sz idx (drop_bit 1 (get_flx_op_mask n_args)) 0;
          (r2, idx) = expect_whitespace_or_end m code code_sz idx
      in if r1 OR r2 \<noteq> 0 then
           let idx = reset_addr;
               (r1, idx) = expect_str m code code_sz idx (lit ''r'');
               (r2, idx, output) = expect_hex_from_str m code code_sz idx (num_regs - 1) output;
               (r3, idx) = expect_whitespace_or_end m code code_sz idx
           in if r1 OR r2 OR r3 \<noteq> 0 then (Label, idx)
              else (Reg output, idx)
         else (Imm (if not_neg = 0 then (NOT output + 1) AND get_flx_op_mask n_args else output), idx))"

definition put_operand :: "u64 \<Rightarrow> u64 \<Rightarrow> operand \<Rightarrow> u64" where
  "put_operand instr instr_idx opd = (case opd of
       Imm v \<Rightarrow> instr OR v
     | Reg r \<Rightarrow> fst (put_reg instr instr_idx r) OR instr_uses_reg
     | Label \<Rightarrow> instr)"

subsection \<open>The compiler\<close>

text \<open>The local variables whose address \<^verbatim>\<open>compile\<close> passes on.\<close>

definition asm_word :: u64 where "asm_word = 0x7f900"
definition asm_lbl :: u64 where "asm_lbl = 0x7f910"

text \<open>The local variables of \<^verbatim>\<open>compile\<close>; \<open>failed\<close> is set by \<^verbatim>\<open>goto error\<close>.\<close>

record asm =
  a_mem :: mem
  a_arr :: u64
  a_refs :: u64
  a_lbls :: u64
  a_pc :: u64
  a_idx :: u64
  a_failed :: bool

text \<open>\<^verbatim>\<open>tmp_arr = array_append(...); if (!tmp_arr){goto error;}\<close> for each of the three arrays.\<close>

definition add_word_item :: "u64 \<Rightarrow> asm \<Rightarrow> u64 \<Rightarrow> asm option" where
  "add_word_item heap s v = do {
     (m, p) \<leftarrow> array_append ((a_mem s)(asm_word := v)) heap (a_arr s) asm_word;
     Some (if p = 0 then s\<lparr>a_mem := m, a_failed := True\<rparr> else s\<lparr>a_mem := m, a_arr := p\<rparr>) }"

definition add_ref :: "u64 \<Rightarrow> asm \<Rightarrow> u64 \<Rightarrow> asm option" where
  "add_ref heap s lbl = do {
     (m, p) \<leftarrow> array_append ((a_mem s)(lbl_label asm_lbl := lbl, lbl_addr asm_lbl := a_pc s)) heap
        (a_refs s) asm_lbl;
     Some (if p = 0 then s\<lparr>a_mem := m, a_failed := True\<rparr> else s\<lparr>a_mem := m, a_refs := p\<rparr>) }"

definition add_label :: "u64 \<Rightarrow> asm \<Rightarrow> u64 \<Rightarrow> asm option" where
  "add_label heap s lbl = do {
     let m = (a_mem s)(lbl_label asm_lbl := lbl, lbl_addr asm_lbl := a_pc s);
     found \<leftarrow> array_find m (a_lbls s) (a_lbls s) asm_lbl ref_eq;
     if found \<noteq> 0 then Some (s\<lparr>a_mem := m\<rparr>)
     else do {
       (m, p) \<leftarrow> array_append m heap (a_lbls s) asm_lbl;
       Some (if p = 0 then s\<lparr>a_mem := m, a_failed := True\<rparr> else s\<lparr>a_mem := m, a_lbls := p\<rparr>) } }"

text \<open>An instruction, from behind the white space that follows its name.\<close>

definition compile_instr :: "u64 \<Rightarrow> u64 \<Rightarrow> u64 \<Rightarrow> u64 \<Rightarrow> asm \<Rightarrow> asm option" where
  "compile_instr heap code code_sz opc s =
     (let m = a_mem s;
          instr = shl opc opcode_start;
          n_args = fst (instructions ! unat opc)
      in case reg_operands m code code_sz (if n_args \<noteq> 0 then unat n_args - 1 else 0)
                instr opcode_start (a_idx s) of
           None \<Rightarrow> Some (s\<lparr>a_failed := True\<rparr>)
         | Some (instr, instr_idx, idx) \<Rightarrow> do {
             let (opd, idx') = (if n_args \<noteq> 0 then last_operand m code code_sz n_args idx else (Imm 0, idx));
             s \<leftarrow> (if opd = Label then add_ref heap s (code + 8 * idx) else Some s);
             if a_failed s then Some s
             else do {
               let idx' = (if opd = Label then ignore_non_whitespace (a_mem s) code code_sz idx' else idx');
               s \<leftarrow> add_word_item heap s (put_operand instr instr_idx opd);
               if a_failed s then Some s
               else Some (s\<lparr>a_idx := ignore_whitespace (a_mem s) code code_sz idx',
                            a_pc := a_pc s + 1\<rparr>) } })"

text \<open>One iteration of the main loop: a number, an instruction or the definition of a label.\<close>

definition compile_token :: "u64 \<Rightarrow> u64 \<Rightarrow> u64 \<Rightarrow> asm \<Rightarrow> asm option" where
  "compile_token heap code code_sz s =
     (let m = a_mem s;
          instr_begin = a_idx s;
          (r1, idx, output) = expect_hex_from_str m code code_sz instr_begin (-1) 0;
          (r2, idx) = expect_whitespace_or_end m code code_sz idx
      in if r1 OR r2 = 0 then do {
           s \<leftarrow> add_word_item heap s output;
           Some (if a_failed s then s else s\<lparr>a_idx := idx, a_pc := a_pc s + 1\<rparr>) }
         else
           let (r1, idx, opc) = match_opcode m code code_sz instr_begin output;
               (r2, idx) = expect_whitespace m code code_sz idx
           in if r1 OR r2 \<noteq> 0 then do {
                s \<leftarrow> add_label heap s (code + 8 * instr_begin);
                if a_failed s then Some s
                else do {
                  let idx = ignore_non_whitespace (a_mem s) code code_sz instr_begin;
                  let idx = ignore_whitespace (a_mem s) code code_sz idx;
                  Some (s\<lparr>a_idx := idx\<rparr>) } }
              else compile_instr heap code code_sz opc (s\<lparr>a_idx := idx\<rparr>))"

definition compile_text :: "u64 \<Rightarrow> u64 \<Rightarrow> u64 \<Rightarrow> asm \<Rightarrow> asm option" where
  "compile_text heap code code_sz s =
     while_o (\<lambda>s. \<not> a_failed s \<and> a_idx s < code_sz) (compile_token heap code code_sz) s"

text \<open>
  The references to labels get the number of the instruction behind the label; an undefined label is
  an error.
\<close>

partial_function (option) resolve_labels :: "u64 \<Rightarrow> u64 \<Rightarrow> asm \<Rightarrow> asm option" where
  "resolve_labels max_ptr i s =
     (if i < array_len (a_mem s) (a_refs s) then do {
        let m = a_mem s;
        let ref = a_refs s + 16 * i;
        let ref_addr = m (lbl_addr ref);
        p \<leftarrow> array_find m (a_lbls s) (a_lbls s) ref (lbl_streq max_ptr);
        if p = 0 then Some (s\<lparr>a_failed := True\<rparr>)
        else let a = a_arr s + 8 * ref_addr
             in resolve_labels max_ptr (i + 1) (s\<lparr>a_mem := m(a := m a OR m (lbl_addr p))\<rparr>) }
      else Some s)"

definition compile :: "mem \<Rightarrow> u64 \<Rightarrow> u64 \<Rightarrow> u64 \<Rightarrow> (mem \<times> u64) option" where
  "compile m heap code code_sz =
     (if code_sz = 0 \<or> heap = 0 \<or> code = 0 then Some (m, 0)
      else do {
        (m, arr) \<leftarrow> array m heap (code_sz div 32) 1;
        if arr = 0 then Some (m, 0)
        else do {
          (m, refs) \<leftarrow> array m heap (code_sz div 8) lbl_info_sz;
          if refs = 0 then do { m \<leftarrow> array_delete m heap arr; Some (m, 0) }
          else do {
            (m, lbls) \<leftarrow> array m heap (code_sz div 8) lbl_info_sz;
            if lbls = 0 then do {
              m \<leftarrow> array_delete m heap refs;
              m \<leftarrow> array_delete m heap arr;
              Some (m, 0) }
            else do {
              s \<leftarrow> compile_text heap code code_sz
                \<lparr>a_mem = m, a_arr = arr, a_refs = refs, a_lbls = lbls, a_pc = 0,
                 a_idx = ignore_whitespace m code code_sz 0, a_failed = False\<rparr>;
              s \<leftarrow> (if a_failed s then Some s else resolve_labels (code + 8 * code_sz) 0 s);
              m \<leftarrow> array_delete (a_mem s) heap (a_lbls s);
              m \<leftarrow> array_delete m heap (a_refs s);
              if a_failed s then do { m \<leftarrow> array_delete m heap (a_arr s); Some (m, 0) }
              else Some (m, a_arr s) } } } })"

end
