(* ===== verification/Vm.thy ===== *)
theory Vm
  imports Asm Objects
begin

text \<open>
  The virtual machine (\<^verbatim>\<open>run\<close> of \<^verbatim>\<open>asm.c\<close>) and the functions that join it to the interpreter. Registers are
  the words from \<open>regs\<close> on; the machine addresses memory in words, so its address \<open>a\<close> is the
  byte address \<open>8 * a\<close>. Register 32 is hidden: it holds the immediate operand.

  The supervisor call is an instruction of the processor: what memory looks like after the exception
  handler ran is the parameter \<open>svc\<close>. An instruction word whose opcode is not in the table makes
  the C code read behind the table, which C leaves undefined: the model has no result then, as
  for a program that does not stop.
\<close>

definition reg :: "u64 \<Rightarrow> u64 \<Rightarrow> u64" where "reg regs i = regs + 8 * i"

definition r_sp :: u64 where "r_sp = num_regs - 8"
definition r_lr :: u64 where "r_lr = num_regs - 5"
definition r_ir :: u64 where "r_ir = num_regs - 4"
definition r_rr :: u64 where "r_rr = num_regs - 3"
definition r_pc :: u64 where "r_pc = num_regs - 2"
definition r_sr :: u64 where "r_sr = num_regs - 1"

lemmas reg_aliases = r_sp_def r_lr_def r_ir_def r_rr_def r_pc_def r_sr_def

subsection \<open>Decoding\<close>

definition instr_opcode :: "u64 \<Rightarrow> u64" where
  "instr_opcode instr = drop_bit 56 (instr AND inst_mask)"

definition uses_reg :: "u64 \<Rightarrow> u64" where
  "uses_reg instr = instr AND instr_uses_reg"

text \<open>The immediate operand of an instruction with \<open>n_args\<close> operands, sign extended.\<close>

definition immediate :: "u64 \<Rightarrow> u64 \<Rightarrow> u64" where
  "immediate instr n_args =
     (let idx = opcode_len + (n_args - 1) * arg_size;
          imm = instr AND get_flx_op_mask n_args
      in if imm AND shr (push_bit 63 1) idx \<noteq> 0 then imm OR shl (-1) (64 - idx) else imm)"

text \<open>The register operands are taken off the instruction from the last one to the first.\<close>

fun take_args :: "nat \<Rightarrow> u64 \<Rightarrow> u64 list \<Rightarrow> u64 list" where
  "take_args 0 instr args = args"
| "take_args (Suc i) instr args =
     take_args i (drop_bit 5 instr) (args[i := instr AND (push_bit 5 1 - 1)])"

text \<open>The operands of an instruction, and the memory with the immediate in its register.\<close>

definition decode_args :: "mem \<Rightarrow> u64 \<Rightarrow> u64 \<Rightarrow> u64 \<Rightarrow> u64 list \<Rightarrow> mem \<times> u64 list" where
  "decode_args m regs instr n_args args =
     (let (m, n_args, args) =
            (if uses_reg instr = 0 \<and> n_args \<noteq> 0
             then (m(reg regs num_regs := immediate instr n_args), n_args - 1,
                   args[unat (n_args - 1) := num_regs])
             else (m, n_args, args));
          instr = shr instr (64 - (opcode_len + n_args * arg_size))
      in (m, take_args (unat n_args) instr args))"

subsection \<open>Executing an instruction\<close>

text \<open>
  How an instruction ends: at the bottom of the loop, where the program counter is increased, with
  \<^verbatim>\<open>continue\<close>, or with \<^verbatim>\<open>return\<close>.
\<close>

datatype outcome = Next mem | Continue mem | Return mem u64

definition shift_reg :: "u64 \<Rightarrow> u64 \<Rightarrow> u64" where
  "shift_reg v sh =
     (let shift = min_s (abs_w sh) 64
      in if sint sh < 0 then shl v shift else shr v shift)"

definition load_word :: "mem \<Rightarrow> u64 \<Rightarrow> u64" where
  "load_word m addr = (let lower = load32 m addr; upper = push_bit 32 (load32 m (addr + 4)) in lower OR upper)"

definition store_word :: "mem \<Rightarrow> u64 \<Rightarrow> u64 \<Rightarrow> mem" where
  "store_word m addr v = store32 (store32 m addr (take_bit 32 v)) (addr + 4) (drop_bit 32 v)"

definition exec_exc :: "(u64 \<Rightarrow> mem \<Rightarrow> mem) \<Rightarrow> u64 \<Rightarrow> u64 \<Rightarrow> u64 \<Rightarrow> mem \<Rightarrow> outcome" where
  "exec_exc svc regs exc_num_sz n m =
     (let r = reg regs in
      if n = -1 then
        let m = m(r r_pc := m (r r_lr));
            m = m(r r_lr := m (8 * m (r r_sp)));
            m = m(r r_sp := m (r r_sp) - (1 + exc_num_sz))
        in Continue m
      else if n < 32 then Next (svc n m)
      else Next m)"

definition exec_jnc :: "u64 \<Rightarrow> u64 \<Rightarrow> u64 list \<Rightarrow> mem \<Rightarrow> outcome" where
  "exec_jnc regs retn_zero args m =
     (let r = reg regs; a = (\<lambda>i. r (args ! i)) in
      if m (a 0) \<noteq> 0 then
        let m = m(r r_pc := m (a 1) + m (a 2))
        in if m (r r_pc) = 0 \<and> retn_zero \<noteq> 0 then Return m (m (r r_rr)) else Continue m
      else Next m)"

fun exec :: "(u64 \<Rightarrow> mem \<Rightarrow> mem) \<Rightarrow> u64 \<Rightarrow> u64 \<Rightarrow> u64 \<Rightarrow> opcode \<Rightarrow> u64 list \<Rightarrow> mem \<Rightarrow> outcome" where
  "exec svc regs retn_zero exc_num_sz Acx args m =
     (let a = (\<lambda>i. reg regs (args ! i));
          (m, old) = atomic_cas m (8 * m (a 0)) (m (a 1)) (m (a 2))
      in Next (m(a 1 := old)))"
| "exec svc regs retn_zero exc_num_sz Ads args m =
     (let a = (\<lambda>i. reg regs (args ! i)) in Next (m(a 0 := m (a 1) + m (a 2))))"
| "exec svc regs retn_zero exc_num_sz Sbs args m =
     (let a = (\<lambda>i. reg regs (args ! i)) in Next (m(a 0 := m (a 1) + (NOT (m (a 2)) + 1))))"
| "exec svc regs retn_zero exc_num_sz Mls args m =
     (let a = (\<lambda>i. reg regs (args ! i)) in
      Next (m(a 0 := word_of_int (sint (m (a 1)) * sint (m (a 2))))))"
| "exec svc regs retn_zero exc_num_sz Mlu args m =
     (let a = (\<lambda>i. reg regs (args ! i)) in Next (m(a 0 := m (a 1) * m (a 2))))"
| "exec svc regs retn_zero exc_num_sz Dvs args m =
     (let a = (\<lambda>i. reg regs (args ! i));
          m = m(reg regs r_rr := smod64 (m (a 1)) (m (a 2)))
      in Next (m(a 0 := sdiv64 (m (a 1)) (m (a 2)))))"
| "exec svc regs retn_zero exc_num_sz Dvu args m =
     (let a = (\<lambda>i. reg regs (args ! i));
          m = m(reg regs r_rr := m (a 1) mod m (a 2))
      in Next (m(a 0 := m (a 1) div m (a 2))))"
| "exec svc regs retn_zero exc_num_sz And args m =
     (let a = (\<lambda>i. reg regs (args ! i)) in Next (m(a 0 := m (a 1) AND m (a 2))))"
| "exec svc regs retn_zero exc_num_sz Orr args m =
     (let a = (\<lambda>i. reg regs (args ! i)) in Next (m(a 0 := m (a 1) OR m (a 2))))"
| "exec svc regs retn_zero exc_num_sz Xor args m =
     (let a = (\<lambda>i. reg regs (args ! i)) in Next (m(a 0 := m (a 1) XOR m (a 2))))"
| "exec svc regs retn_zero exc_num_sz Nor args m =
     (let a = (\<lambda>i. reg regs (args ! i)) in Next (m(a 0 := NOT (m (a 1) OR m (a 2)))))"
| "exec svc regs retn_zero exc_num_sz Shf args m =
     (let a = (\<lambda>i. reg regs (args ! i)) in Next (m(a 0 := shift_reg (m (a 1)) (m (a 2)))))"
| "exec svc regs retn_zero exc_num_sz Ldr args m =
     (let a = (\<lambda>i. reg regs (args ! i)) in
      Next (m(a 0 := load_word m (8 * m (a 1) + 8 * m (a 2)))))"
| "exec svc regs retn_zero exc_num_sz Str args m =
     (let a = (\<lambda>i. reg regs (args ! i)) in
      Next (store_word m (8 * m (a 1) + 8 * m (a 2)) (m (a 0))))"
| "exec svc regs retn_zero exc_num_sz Jnc args m = exec_jnc regs retn_zero args m"
| "exec svc regs retn_zero exc_num_sz Exc args m =
     exec_exc svc regs exc_num_sz (m (reg regs (args ! 0))) m"

text \<open>The array \<^verbatim>\<open>exc_num\<close> on the stack.\<close>

definition exc_num :: u64 where "exc_num = 0x7d000"

text \<open>A pending exception is pushed on the stack of the machine and control goes to its handler.\<close>

definition take_exception :: "u64 \<Rightarrow> u64 \<Rightarrow> u64 \<Rightarrow> mem \<Rightarrow> mem" where
  "take_exception fifo regs exc_num_sz m =
     (let r = reg regs;
          (m, ret) = concurrent_fifo_pop m fifo exc_num
      in if ret = 0 then
           let oldsp = m (r r_sp) + 1;
               m = m(r r_sp := m (r r_sp) + (1 + exc_num_sz));
               m = m(8 * m (r r_sp) := m (r r_lr));
               m = copy_words m (8 * oldsp) exc_num 0 exc_num_sz;
               m = m(r r_lr := m (r r_pc));
               m = m(r r_pc := m (r r_ir))
           in m
         else m)"

text \<open>The state of the loop: memory, the array \<open>args\<close>, and the result after a \<^verbatim>\<open>return\<close>.\<close>

type_synonym vm = "mem \<times> u64 list \<times> u64 option"

definition vm_step :: "(u64 \<Rightarrow> mem \<Rightarrow> mem) \<Rightarrow> u64 \<Rightarrow> u64 \<Rightarrow> u64 \<Rightarrow> u64 \<Rightarrow> vm \<Rightarrow> vm option" where
  "vm_step svc fifo regs retn_zero exc_num_sz s =
     (let (m, args, _) = s;
          m = take_exception fifo regs exc_num_sz m;
          instr = m (m (reg regs r_pc) * 8);
          opc = instr_opcode instr
      in if 16 \<le> opc then None
         else let (m, args) = decode_args m regs instr (fst (instructions ! unat opc)) args
              in (case exec svc regs retn_zero exc_num_sz (opcodes ! unat opc) args m of
                    Next m \<Rightarrow> Some (m(reg regs r_pc := m (reg regs r_pc) + 1), args, None)
                  | Continue m \<Rightarrow> Some (m, args, None)
                  | Return m v \<Rightarrow> Some (m, args, Some v)))"

definition vm_running :: "u64 \<Rightarrow> vm \<Rightarrow> bool" where
  "vm_running regs s = (let (m, _, ret) = s in ret = None \<and> m (reg regs r_sr) AND exc_cont_mask \<noteq> 0)"

definition run :: "(u64 \<Rightarrow> mem \<Rightarrow> mem) \<Rightarrow> mem \<Rightarrow> u64 \<Rightarrow> u64 \<Rightarrow> u64 \<Rightarrow> (mem \<times> u64) option" where
  "run svc m fifo regs retn_zero = do {
     let exc_num_sz = concurrent_fifo_item_sz m fifo;
     (m, args, ret) \<leftarrow> while_o (vm_running regs) (vm_step svc fifo regs retn_zero exc_num_sz)
        (m, replicate mx_reg_args 0, None);
     Some (m, case ret of Some v \<Rightarrow> v | None \<Rightarrow> m (reg regs r_rr)) }"

subsection \<open>Compiling and running expressions\<close>

text \<open>The text of one element of an expression: the string itself or one that is freed afterwards.\<close>

definition expr_str :: "types \<Rightarrow> mem \<Rightarrow> u64 \<Rightarrow> u64 \<Rightarrow> (mem \<times> u64) option" where
  "expr_str T m heap exp_i =
     (let type = m (otype exp_i) in
      if obj_cmp m type (num_type T) = 0 then num_to_str T m heap exp_i
      else if obj_cmp m type (bcode_type T) = 0 then do {
        (m, tmp_num) \<leftarrow> word_to_num T m heap (contents exp_i 0 div 8);
        (m, tmp_str) \<leftarrow> num_to_str T m heap tmp_num;
        m \<leftarrow> o_del T m heap tmp_num;
        Some (m, tmp_str) }
      else if obj_cmp m type (string_type T) \<noteq> 0 then do {
        (m, tmp_num) \<leftarrow> word_to_num T m heap exp_i;
        (m, tmp_str) \<leftarrow> num_to_str T m heap tmp_num;
        m \<leftarrow> o_del T m heap tmp_num;
        Some (m, tmp_str) }
      else Some (m, exp_i))"

partial_function (option) append_contents :: "u64 \<Rightarrow> mem \<Rightarrow> u64 \<Rightarrow> u64 \<Rightarrow> u64 \<Rightarrow> (mem \<times> u64) option" where
  "append_contents heap m string str j =
     (if j < m (osize str) then do {
        (m, string) \<leftarrow> object_append_word m heap string (m (contents str j));
        append_contents heap m string str (j + 1) }
      else Some (m, string))"

definition comp_expr :: "types \<Rightarrow> mem \<Rightarrow> u64 \<Rightarrow> u64 \<Rightarrow> (mem \<times> u64) option" where
  "comp_expr T m heap val = do {
     (m, tmp) \<leftarrow> obj_array_flatten T m heap val;
     (m, string) \<leftarrow> object m heap (string_type T) 32 0 0;
     let tmp_sz = obj_array_size m tmp;
     (m, string) \<leftarrow> for_up_o 0 tmp_sz (\<lambda>i (m, string). do {
         let exp_i = obj_array_idx m tmp i;
         (m, tmp_str) \<leftarrow> expr_str T m heap exp_i;
         (m, string) \<leftarrow> append_contents heap m string tmp_str 0;
         (m, string) \<leftarrow> object_append_word m heap string 32;
         m \<leftarrow> (if tmp_str \<noteq> exp_i then o_del T m heap tmp_str else Some m);
         Some (m, string) }) (m, string);
     m \<leftarrow> o_del T m heap tmp;
     (m, bc) \<leftarrow> compile m heap (contents string 0) (m (osize string));
     m \<leftarrow> o_del T m heap string;
     let bc_sz = array_len m bc;
     (m, ret) \<leftarrow> object m heap (bcode_type T) (bc_sz + 1) bc bc_sz;
     let m = m(contents ret bc_sz := 0);
     let m = m(osize ret := m (osize ret) + 1);
     m \<leftarrow> array_delete m heap bc;
     Some (m, ret) }"

definition run_expr :: "(u64 \<Rightarrow> mem \<Rightarrow> mem) \<Rightarrow> mem \<Rightarrow> u64 \<Rightarrow> u64 \<Rightarrow> u64 \<Rightarrow> (mem \<times> u64) option" where
  "run_expr svc m fifo regs val =
     (let bc_obj = obj_array_idx m val 0;
          bytecode = contents bc_obj 0
      in run svc (m(reg regs r_pc := bytecode div 8)) fifo regs 1)"

definition init_regs :: "mem \<Rightarrow> u64 \<Rightarrow> u64 \<Rightarrow> (mem \<times> u64) option" where
  "init_regs m heap bytecode = do {
     (m, regs) \<leftarrow> alloc m heap (num_regs + 1);
     let m = for_up 0 (num_regs + 1) (\<lambda>i m. m(reg regs i := 0)) m;
     let m = m(reg regs r_sr := exc_cont_mask);
     let m = m(reg regs r_pc := bytecode div 8);
     Some (m, regs) }"

end
