(* ===== verification/Instr.thy ===== *)
theory Instr
  imports Vm
begin

text \<open>
  The assembler and the virtual machine agree on the format of an instruction word: what the
  assembler puts into a word, the machine takes out of it.
\<close>

subsection \<open>Fields\<close>

text \<open>The word that \<open>compile_instr\<close> builds from an opcode, the registers before the last operand and that operand.\<close>

definition put_regs :: "u64 list \<Rightarrow> u64 \<times> u64 \<Rightarrow> u64 \<times> u64" where
  "put_regs = fold (\<lambda>r (instr, idx). put_reg instr idx r)"

definition encode :: "u64 \<Rightarrow> u64 list \<Rightarrow> operand \<Rightarrow> u64" where
  "encode opc rs opd = (let (instr, idx) = put_regs rs (shl opc opcode_start, opcode_start) in put_operand instr idx opd)"

lemma encode_3:
  "encode opc [r0, r1] (Imm v) = push_bit 56 opc OR push_bit 51 r0 OR push_bit 46 r1 OR v"
  "encode opc [r0, r1] (Reg r) = push_bit 56 opc OR push_bit 51 r0 OR push_bit 46 r1 OR push_bit 41 r OR push_bit 63 1"
  by (simp_all add: encode_def put_regs_def put_reg_def put_operand_def shl_def asm_consts or.assoc)

lemma encode_1:
  "encode opc [] (Imm v) = push_bit 56 opc OR v"
  "encode opc [] (Reg r) = push_bit 56 opc OR push_bit 51 r OR push_bit 63 1"
  by (simp_all add: encode_def put_regs_def put_reg_def put_operand_def shl_def asm_consts or.assoc)

lemma reg_bit: "(r :: u64) < 32 \<Longrightarrow> bit r n \<Longrightarrow> n < 5"
  by (rule bit_small) (simp_all add: word_less_nat_alt)

lemma opc_bit: "(r :: u64) < 16 \<Longrightarrow> bit r n \<Longrightarrow> n < 4"
  by (rule bit_small) (simp_all add: word_less_nat_alt)

lemma decode_field:
  fixes w r :: u64
  assumes "r < 32" "k + 5 \<le> 64" "\<And>n. k \<le> n \<Longrightarrow> n < k + 5 \<Longrightarrow> bit w n = bit r (n - k)"
  shows "drop_bit k w AND 31 = r"
proof (rule bit_word_eqI)
  fix n assume "n < LENGTH(64)"
  have "(31 :: u64) = mask 5" by (simp add: mask_eq_exp_minus_1)
  have e: "bit (drop_bit k w AND 31) n = (bit w (k + n) \<and> n < 5)"
    unfolding \<open>31 = mask 5\<close> using assms(2) by (auto simp: bit_simps simp del: mask_numeral)
  show "bit (drop_bit k w AND 31) n = bit r n"
    unfolding e using assms(3) [of "k + n"] reg_bit [OF assms(1), of n] by auto
qed


lemma take_args_3:
  "take_args 3 w args = ((args[2 := w AND 31])[1 := drop_bit 5 w AND 31])[0 := drop_bit 10 w AND 31]"
proof -
  have "take_args (Suc (Suc (Suc 0))) w args =
      ((args[Suc (Suc 0) := w AND 31])[Suc 0 := drop_bit 5 w AND 31])[0 := drop_bit 10 w AND 31]"
    by (simp add: drop_bit_drop_bit)
  then show ?thesis by (simp only: numeral_3_eq_3 numeral_2_eq_2 One_nat_def)
qed

text \<open>The bits of the masks.\<close>

lemma bit_one_63: "bit (push_bit 63 1 :: u64) n \<longleftrightarrow> n = 63"
  unfolding bit_push_bit_iff by (auto simp: bit_1_iff)

lemma bit_inst_mask: "bit inst_mask n \<longleftrightarrow> 56 \<le> n \<and> n < 63"
proof -
  have e: "inst_mask = push_bit 56 (mask 7)" by (simp add: inst_mask_def mask_eq_exp_minus_1)
  show ?thesis unfolding e bit_push_bit_iff bit_mask_iff by auto
qed

lemma uses_reg_bit: "uses_reg w = 0 \<longleftrightarrow> \<not> bit w 63"
proof -
  have "bit (uses_reg w) n \<longleftrightarrow> bit w n \<and> n = 63" for n
    unfolding uses_reg_def instr_uses_reg_def bit_and_iff bit_one_63 ..
  note b = this
  show ?thesis
  proof
    assume "uses_reg w = 0"
    then show "\<not> bit w 63" using b [of 63] by simp
  next
    assume "\<not> bit w 63"
    then have "bit (uses_reg w) n = bit 0 n" for n using b [of n] by auto
    then show "uses_reg w = 0" by (rule bit_word_eqI)
  qed
qed

lemma opcode_field:
  assumes "opc < 16" "\<And>n. 56 \<le> n \<Longrightarrow> n < 63 \<Longrightarrow> bit w n = bit opc (n - 56)"
  shows "instr_opcode w = opc"
proof (rule bit_word_eqI)
  fix n
  have "bit (instr_opcode w) n \<longleftrightarrow> bit w (56 + n) \<and> n < 7"
    unfolding instr_opcode_def bit_drop_bit_eq o_apply bit_and_iff bit_inst_mask by auto
  then show "bit (instr_opcode w) n = bit opc n"
    using assms(2) [of "56 + n"] opc_bit [OF assms(1), of n] by auto
qed

text \<open>An instruction with three registers.\<close>

lemma decode_registers:
  assumes "opc < 16" "r0 < 32" "r1 < 32" "r2 < 32"
  shows "instr_opcode (encode opc [r0, r1] (Reg r2)) = opc"
    "decode_args m regs (encode opc [r0, r1] (Reg r2)) 3 args = (m, ((args[2 := r2])[1 := r1])[0 := r0])"
proof -
  let ?w = "encode opc [r0, r1] (Reg r2)"
  note b = reg_bit [OF assms(2)] reg_bit [OF assms(3)] reg_bit [OF assms(4)] opc_bit [OF assms(1)]
  have bw: "bit ?w n \<longleftrightarrow> n < 64 \<and> (56 \<le> n \<and> bit opc (n - 56) \<or> 51 \<le> n \<and> bit r0 (n - 51) \<or> 46 \<le> n \<and> bit r1 (n - 46) \<or>
      41 \<le> n \<and> bit r2 (n - 41) \<or> n = 63)" for n
    unfolding encode_3 bit_or_iff bit_push_bit_iff bit_one_63 by auto
  show "instr_opcode ?w = opc"
    by (rule opcode_field [OF assms(1)]) (use b in \<open>fastforce simp: bw\<close>)
  have u: "uses_reg ?w \<noteq> 0" unfolding uses_reg_bit bw by simp
  have f: "drop_bit 41 ?w AND 31 = r2" "drop_bit 46 ?w AND 31 = r1" "drop_bit 51 ?w AND 31 = r0"
    by (rule decode_field; use assms b in \<open>fastforce simp: bw\<close>)+
  show "decode_args m regs ?w 3 args = (m, ((args[2 := r2])[1 := r1])[0 := r0])"
    using u f by (simp add: decode_args_def take_args_3 shr_def asm_consts drop_bit_drop_bit)
qed


subsection \<open>Immediate operands\<close>

text \<open>The bits of a small number from its sign on are all the same.\<close>

lemma bits_small:
  assumes "- (2 ^ k) \<le> sint (x :: u64)" "sint x < 2 ^ k" "k \<le> n" "n < 64"
  shows "bit x n = bit x k"
proof -
  have e: "signed_take_bit k (sint x) = sint x" by (rule signed_take_bit_int_eq_self [OF assms(1,2)])
  have s: "bit (sint x) j = bit x j" if "j < 64" for j using that by (simp add: bit_sint_iff)
  have "bit (signed_take_bit k (sint x)) n = bit (sint x) k"
    using assms(3) by (simp add: bit_signed_take_bit_iff)
  then show ?thesis using s [of n] s [of k] assms(3,4) unfolding e by simp
qed

lemma immediate_ok:
  assumes n: "n_args = 3 \<and> k = 45 \<or> n_args = 1 \<and> k = 55"
    and x: "- (2 ^ k) \<le> sint (x :: u64)" "sint x < 2 ^ k" and w: "\<And>j. j \<le> k \<Longrightarrow> bit w j = bit x j"
  shows "immediate w n_args = x"
proof -
  have k: "k < 63" using n by auto
  have m: "get_flx_op_mask n_args = mask (k + 1)"
    using n by (auto simp: get_flx_op_mask_def shr_def asm_consts mask_eq_exp_minus_1)
  have i: "shr (push_bit 63 1) (opcode_len + (n_args - 1) * arg_size) = push_bit k 1"
    "shl (- 1) (64 - (opcode_len + (n_args - 1) * arg_size)) = push_bit (k + 1) (- 1)"
    using n by (auto simp: shr_def shl_def asm_consts)
  have b: "bit (w AND mask (k + 1)) j \<longleftrightarrow> j \<le> k \<and> bit x j" for j
    using w [of j] unfolding bit_and_iff bit_mask_iff using k by auto
  have z: "(w AND mask (k + 1)) AND push_bit k 1 = 0 \<longleftrightarrow> \<not> bit x k"
  proof
    assume e: "(w AND mask (k + 1)) AND push_bit k 1 = 0"
    have "bit ((w AND mask (k + 1)) AND push_bit k 1) k = bit x k"
      unfolding bit_and_iff [of "w AND mask (k + 1)"] b bit_push_bit_iff using k by simp
    then show "\<not> bit x k" unfolding e by simp
  next
    assume e: "\<not> bit x k"
    have "bit ((w AND mask (k + 1)) AND push_bit k 1) j = bit 0 j" for j
      unfolding bit_and_iff [of "w AND mask (k + 1)"] b bit_push_bit_iff using e by (auto simp: bit_1_iff)
    then show "(w AND mask (k + 1)) AND push_bit k 1 = 0" by (rule bit_word_eqI)
  qed
  show ?thesis
  proof (rule bit_word_eqI)
    fix j assume j: "j < LENGTH(64)"
    have h: "k \<le> j \<Longrightarrow> bit x j = bit x k" using bits_small [OF x, of j] j by simp
    show "bit (immediate w n_args) j = bit x j"
      unfolding immediate_def Let_def m i if_distrib [of "\<lambda>x. bit x j"] z bit_or_iff b bit_push_bit_iff
      using h j k by (cases "j \<le> k") auto
  qed
qed


text \<open>
  An instruction with two registers and a number: the assembler keeps the low bits of the number, the
  machine puts the number, with its sign, into the hidden register.
\<close>

lemma decode_number:
  assumes "opc < 16" "r0 < 32" "r1 < 32" and x: "- (2 ^ 45) \<le> sint (x :: u64)" "sint x < 2 ^ 45"
  shows "instr_opcode (encode opc [r0, r1] (Imm (x AND get_flx_op_mask 3))) = opc"
    "decode_args m regs (encode opc [r0, r1] (Imm (x AND get_flx_op_mask 3))) 3 args =
       (m(reg regs 32 := x), ((args[2 := 32])[1 := r1])[0 := r0])"
proof -
  let ?w = "encode opc [r0, r1] (Imm (x AND get_flx_op_mask 3))"
  note b = reg_bit [OF assms(2)] reg_bit [OF assms(3)] opc_bit [OF assms(1)]
  have mask: "get_flx_op_mask 3 = mask 46" by (simp add: get_flx_op_mask_def shr_def asm_consts mask_eq_exp_minus_1)
  have bw: "bit ?w n \<longleftrightarrow> n < 64 \<and> (56 \<le> n \<and> bit opc (n - 56) \<or> 51 \<le> n \<and> bit r0 (n - 51) \<or> 46 \<le> n \<and> bit r1 (n - 46) \<or>
      n < 46 \<and> bit x n)" for n
    unfolding encode_3 mask bit_or_iff bit_push_bit_iff bit_and_iff bit_mask_iff by auto
  show "instr_opcode ?w = opc"
    by (rule opcode_field [OF assms(1)]) (use b in \<open>fastforce simp: bw\<close>)
  have u: "uses_reg ?w = 0" unfolding uses_reg_bit bw using opc_bit [OF assms(1), of 7] reg_bit [OF assms(2), of 12]
    reg_bit [OF assms(3), of 17] by auto
  have f: "drop_bit 46 ?w AND 31 = r1" "drop_bit 51 ?w AND 31 = r0"
    by (rule decode_field; use assms(2,3) b in \<open>fastforce simp: bw\<close>)+
  have i: "immediate ?w 3 = x"
    by (rule immediate_ok [where k = 45]) (use x in \<open>simp_all add: bw\<close>)
  have t: "take_args 2 w args = (args[1 := w AND 31])[0 := drop_bit 5 w AND 31]" for w args
    by (simp add: numeral_2_eq_2)
  show "decode_args m regs ?w 3 args = (m(reg regs 32 := x), ((args[2 := 32])[1 := r1])[0 := r0])"
    using u f i by (simp add: decode_args_def t shr_def asm_consts drop_bit_drop_bit)
qed


text \<open>
  The number of the program text: the assembler has read the digits \<open>out\<close>, behind a minus sign or not,
  and keeps the low bits of the negation.
\<close>

lemma number_ok:
  assumes n: "n = 3 \<and> k = 45 \<or> n = 1 \<and> k = 55" and le: "out \<le> drop_bit 1 (get_flx_op_mask n)"
    and x_def: "x = (if neg then - out else out)"
  shows "(if neg then (NOT out + 1) AND get_flx_op_mask n else out) = x AND get_flx_op_mask n"
    "- (2 ^ k) \<le> sint x" "sint x < 2 ^ k"
proof -
  have k: "k < 63" using n by auto
  have m: "get_flx_op_mask n = mask (k + 1)"
    using n by (auto simp: get_flx_op_mask_def shr_def asm_consts mask_eq_exp_minus_1)
  have "bit (drop_bit 1 (mask (k + 1)) :: u64) j \<Longrightarrow> j < k" for j
    unfolding bit_drop_bit_eq o_apply bit_mask_iff using k by auto
  then have "drop_bit 1 (mask (k + 1)) = (take_bit k (drop_bit 1 (mask (k + 1))) :: u64)"
    by (intro bit_word_eqI) (auto simp: bit_take_bit_iff)
  then have "unat (drop_bit 1 (mask (k + 1)) :: u64) = take_bit k (unat (drop_bit 1 (mask (k + 1)) :: u64))"
    by (metis unsigned_take_bit_eq)
  then have "unat (drop_bit 1 (mask (k + 1)) :: u64) < 2 ^ k" by (metis take_bit_nat_less_exp)
  then have le: "unat out < 2 ^ k" using le unfolding m by (simp add: word_le_nat_alt)
  then have b: "bit out j \<Longrightarrow> j < k" for j by (rule bit_small)
  have "out AND mask (k + 1) = out"
  proof (rule bit_word_eqI)
    show "bit (out AND mask (k + 1)) j = bit out j" for j
      unfolding bit_and_iff bit_mask_iff using b [of j] k by auto
  qed
  moreover have "NOT out + 1 = - out" by (simp add: minus_eq_not_plus_1)
  ultimately show "(if neg then (NOT out + 1) AND get_flx_op_mask n else out) = x AND get_flx_op_mask n"
    unfolding x_def m by (simp only: if_distrib [of "\<lambda>w. w AND mask (k + 1)"])
  have "int (unat out) < int (2 ^ k)" using le by (simp only: of_nat_less_iff)
  then have u: "uint out < 2 ^ k" by simp
  have "(2 :: int) ^ k \<le> 2 ^ 63" using k by (intro power_increasing) simp_all
  then have u0: "0 \<le> uint out" "(2 :: int) ^ k \<le> 2 ^ (LENGTH(64) - Suc 0)" "(2 :: int) ^ k \<le> 2 ^ 63"
    "(0 :: int) < 2 ^ k" by simp_all
  have so: "sint out = uint out"
    unfolding sint_uint by (rule signed_take_bit_int_eq_self) (use u u0 in linarith)+
  have "sint (- out) = signed_take_bit 63 (- uint out)" unfolding sint_word_ariths so by simp
  also have "\<dots> = - uint out" by (rule signed_take_bit_int_eq_self) (use u u0 in linarith)+
  finally have sx: "sint x = (if neg then - uint out else uint out)" using so by (simp add: x_def)
  show "- (2 ^ k) \<le> sint x" "sint x < 2 ^ k"
    unfolding sx using u u0(1,4) by (cases neg; simp only: if_True if_False; linarith)+
qed

text \<open>An instruction with one operand.\<close>

lemma decode_register_1:
  assumes "opc < 16" "r < 32"
  shows "instr_opcode (encode opc [] (Reg r)) = opc"
    "decode_args m regs (encode opc [] (Reg r)) 1 args = (m, args[0 := r])"
proof -
  let ?w = "encode opc [] (Reg r)"
  note b = reg_bit [OF assms(2)] opc_bit [OF assms(1)]
  have bw: "bit ?w n \<longleftrightarrow> n < 64 \<and> (56 \<le> n \<and> bit opc (n - 56) \<or> 51 \<le> n \<and> bit r (n - 51) \<or> n = 63)" for n
    unfolding encode_1 bit_or_iff bit_push_bit_iff bit_one_63 by auto
  show "instr_opcode ?w = opc"
    by (rule opcode_field [OF assms(1)]) (use b in \<open>fastforce simp: bw\<close>)
  have u: "uses_reg ?w \<noteq> 0" unfolding uses_reg_bit bw by simp
  have f: "drop_bit 51 ?w AND 31 = r"
    by (rule decode_field) (use assms b in \<open>fastforce simp: bw\<close>)+
  show "decode_args m regs ?w 1 args = (m, args[0 := r])"
    using u f by (simp add: decode_args_def shr_def asm_consts)
qed

lemma decode_number_1:
  assumes "opc < 16" and x: "- (2 ^ 55) \<le> sint (x :: u64)" "sint x < 2 ^ 55"
  shows "instr_opcode (encode opc [] (Imm (x AND get_flx_op_mask 1))) = opc"
    "decode_args m regs (encode opc [] (Imm (x AND get_flx_op_mask 1))) 1 args =
       (m(reg regs 32 := x), args[0 := 32])"
proof -
  let ?w = "encode opc [] (Imm (x AND get_flx_op_mask 1))"
  note b = opc_bit [OF assms(1)]
  have mask: "get_flx_op_mask 1 = mask 56" by (simp add: get_flx_op_mask_def shr_def asm_consts mask_eq_exp_minus_1)
  have bw: "bit ?w n \<longleftrightarrow> n < 64 \<and> (56 \<le> n \<and> bit opc (n - 56) \<or> n < 56 \<and> bit x n)" for n
    unfolding encode_1 mask bit_or_iff bit_push_bit_iff bit_and_iff bit_mask_iff by auto
  show "instr_opcode ?w = opc"
    by (rule opcode_field [OF assms(1)]) (use b in \<open>fastforce simp: bw\<close>)
  have u: "uses_reg ?w = 0" unfolding uses_reg_bit bw using opc_bit [OF assms(1), of 7] by auto
  have i: "immediate ?w 1 = x"
    by (rule immediate_ok [where k = 55]) (use x in \<open>simp_all add: bw\<close>)
  show "decode_args m regs ?w 1 args = (m(reg regs 32 := x), args[0 := 32])"
    using u i by (simp add: decode_args_def asm_consts)
qed

end
