(* ===== verification/Asm_Text.thy ===== *)
theory Asm_Text
  imports Instr
begin

text \<open>
  What the assembler makes of the text of an instruction: the spelling of instructions, and the scanner
  and the translation of one line on such a text.
\<close>

subsection \<open>Text in memory\<close>

text \<open>The characters \<open>cs\<close> stand in the text from the index \<open>i\<close> on.\<close>

fun text_at :: "mem \<Rightarrow> u64 \<Rightarrow> u64 \<Rightarrow> u64 \<Rightarrow> u64 list \<Rightarrow> bool" where
  "text_at m code sz i [] = (i \<le> sz)"
| "text_at m code sz i (c # cs) = (i < sz \<and> m (code + 8 * i) = c \<and> text_at m code sz (i + 1) cs)"

lemma text_at_le: "text_at m code sz i cs \<Longrightarrow> i \<le> sz"
  by (cases cs) auto

lemma text_at_append:
  "text_at m code sz i (xs @ ys) \<longleftrightarrow> text_at m code sz i xs \<and> text_at m code sz (i + of_nat (length xs)) ys"
  by (induction xs arbitrary: i) (auto simp: text_at_le add.assoc)

text \<open>A word ends at \<open>j\<close>: with the text or before a blank.\<close>

definition word_end :: "mem \<Rightarrow> u64 \<Rightarrow> u64 \<Rightarrow> u64 \<Rightarrow> bool" where
  "word_end m code sz j \<longleftrightarrow> sz \<le> j \<or> whitespace (m (code + 8 * j))"

lemma skip_text:
  "text_at m code sz i cs \<Longrightarrow> list_all p cs \<Longrightarrow>
   skip_while p m code sz i = skip_while p m code sz (i + of_nat (length cs))"
proof (induction cs arbitrary: i)
  case (Cons c cs)
  from Cons.prems have "skip_while p m code sz i = skip_while p m code sz (i + 1)"
    by (subst skip_while.simps) simp
  also have "\<dots> = skip_while p m code sz (i + 1 + of_nat (length cs))"
    using Cons.prems by (intro Cons.IH) simp_all
  finally show ?case by (simp add: add.assoc)
qed simp

lemma skip_stop: "text_at m code sz i (c # cs) \<Longrightarrow> \<not> p c \<Longrightarrow> skip_while p m code sz i = i"
  by (subst skip_while.simps) simp

text \<open>Blanks between words.\<close>

definition blanks :: "u64 list \<Rightarrow> bool" where
  "blanks ws \<longleftrightarrow> ws \<noteq> [] \<and> list_all whitespace ws"

lemma expect_blanks:
  assumes "text_at m code sz i (ws @ c # cs)" "blanks ws" "\<not> whitespace c"
  shows "expect_whitespace m code sz i = (0, i + of_nat (length ws))"
    "expect_whitespace_or_end m code sz i = (0, i + of_nat (length ws))"
proof -
  obtain b bs where ws: "ws = b # bs" "whitespace b" using assms(2) by (cases ws) (auto simp: blanks_def)
  have "skip_while whitespace m code sz i = i + of_nat (length ws)"
    using skip_text [of m code sz i ws whitespace] skip_stop [of m code sz "i + of_nat (length ws)" c cs whitespace]
      assms by (simp add: text_at_append blanks_def)
  then show "expect_whitespace m code sz i = (0, i + of_nat (length ws))"
    using assms(1) ws by (simp add: expect_whitespace_def ignore_whitespace_def not_le)
  then show "expect_whitespace_or_end m code sz i = (0, i + of_nat (length ws))"
    by (simp add: expect_whitespace_or_end_def)
qed

lemma no_blank:
  assumes "text_at m code sz i (c # cs)" "\<not> whitespace c"
  shows "expect_whitespace m code sz i = (1, i)" "expect_whitespace_or_end m code sz i = (1, i)"
  using assms by (simp_all add: expect_whitespace_def expect_whitespace_or_end_def not_le)

lemma expect_end:
  assumes "word_end m code sz j"
  shows "expect_whitespace_or_end m code sz j = (0, ignore_whitespace m code sz j)"
proof -
  have "sz \<le> j \<Longrightarrow> ignore_whitespace m code sz j = j"
    unfolding ignore_whitespace_def by (subst skip_while.simps) (simp add: not_less [symmetric])
  then show ?thesis using assms
    by (auto simp: expect_whitespace_or_end_def expect_whitespace_def word_end_def)
qed

subsection \<open>Names\<close>

lemma match_text: "text_at m code sz i cs \<Longrightarrow> match_chars m code sz i cs = Matched (i + of_nat (length cs))"
  by (induction cs arbitrary: i) (auto simp: add.assoc)

lemma match_other:
  "text_at m code sz i cs \<Longrightarrow> length ds = length cs \<Longrightarrow> ds \<noteq> cs \<Longrightarrow> match_chars m code sz i ds = Mismatch"
proof (induction cs arbitrary: i ds)
  case (Cons c cs)
  then obtain d es where "ds = d # es" by (cases ds) auto
  with Cons show ?case by (cases "d = c") auto
qed simp

lemma match_first:
  assumes "text_at m code sz i (c # cs)" "d \<noteq> c"
  shows "match_chars m code sz i (d # ds) = Mismatch"
proof -
  have "\<not> sz \<le> i" using assms(1) by (simp add: not_le)
  then show ?thesis using assms by simp
qed

lemma expect_text: "text_at m code sz i cs \<Longrightarrow> expect_str m code sz i cs = (0, i + of_nat (length cs))"
  by (simp add: expect_str_def match_text)

lemma expect_other:
  assumes "text_at m code sz i (c # cs)" "d \<noteq> c"
  shows "expect_str m code sz i (d # ds) = (1, i)"
  unfolding expect_str_def match_first [OF assms] by simp

lemma match_names:
  assumes "text_at m code sz i nm" "k < length inss" "snd (inss ! k) = nm"
    "list_all (\<lambda>x. length (snd x) = length nm) inss" "distinct (map snd inss)"
  shows "match_opcode_from m code sz i out k0 inss = (0, i + of_nat (length nm), k0 + of_nat k)"
  using assms(2-)
proof (induction inss arbitrary: k k0)
  case (Cons x inss)
  show ?case
  proof (cases k)
    case 0
    then show ?thesis using Cons.prems match_text [OF assms(1)] by simp
  next
    case (Suc k')
    then have k': "k' < length inss" "snd (inss ! k') = nm" using Cons.prems by simp_all
    then have "nm \<in> snd ` set inss" using nth_mem [OF k'(1)] by force
    then have "snd x \<noteq> nm" using Cons.prems(4) by auto
    then have "match_chars m code sz i (snd x) = Mismatch"
      using Cons.prems(3) by (intro match_other [OF assms(1)]) simp_all
    then show ?thesis using Cons.IH [of k' "k0 + 1"] Cons.prems k' Suc by (simp add: add.assoc)
  qed
qed simp

subsection \<open>Numbers\<close>

text \<open>The value of digits, on top of \<open>v\<close>, and the words that are spelled by digits.\<close>

fun digits_val :: "nat \<Rightarrow> u64 list \<Rightarrow> nat" where
  "digits_val v [] = v"
| "digits_val v (c # cs) = digits_val (16 * v + unat (the (hex_val c))) cs"

definition spells :: "u64 \<Rightarrow> u64 list \<Rightarrow> bool" where
  "spells v ds \<longleftrightarrow> ds \<noteq> [] \<and> length ds \<le> 16 \<and> list_all (\<lambda>c. hex_val c \<noteq> None) ds \<and> digits_val 0 ds = unat v"

lemma digits_val_mono: "v \<le> digits_val v cs"
proof (induction cs arbitrary: v)
  case (Cons c cs)
  have "v \<le> 16 * v + unat (the (hex_val c))" by simp
  also have "\<dots> \<le> digits_val (16 * v + unat (the (hex_val c))) cs" by (rule Cons.IH)
  finally show ?case by simp
qed simp

lemma hex_val_less: "hex_val c = Some t \<Longrightarrow> unat t < 16"
  by (auto simp: hex_val_def word_le_nat_alt unat_sub split: if_splits)

lemma whitespace_no_digit: "whitespace c \<Longrightarrow> hex_val c = None"
  by (auto simp: whitespace_def hex_val_def)

lemma add_digit:
  assumes "unat (res :: u64) < 2 ^ 60" "unat t < 16"
  shows "unat (push_bit 4 res OR t) = 16 * unat res + unat t"
proof -
  have t: "bit t n \<Longrightarrow> n < 4" for n by (rule bit_small) (use assms(2) in simp_all)
  have "bit (push_bit 4 res AND t) n = bit 0 n" for n
    unfolding bit_and_iff bit_push_bit_iff using t [of n] by auto
  then have "push_bit 4 res AND t = 0" by (rule bit_word_eqI)
  then have "push_bit 4 res OR t = push_bit 4 res + t" by (rule disjunctive_add_eq_or [symmetric])
  moreover have "unat (push_bit 4 res) = 16 * unat res"
  proof -
    have "unat (push_bit 4 res) = take_bit 64 (push_bit 4 (unat res))" by (simp add: unsigned_push_bit_eq)
    also have "\<dots> = push_bit 4 (unat res)"
      by (rule take_bit_nat_eq_self) (use assms(1) in \<open>simp add: push_bit_eq_mult\<close>)
    finally show ?thesis by (simp add: push_bit_eq_mult)
  qed
  moreover have "16 * unat res + unat t < 2 ^ 64" using assms by simp
  ultimately show ?thesis by (simp only: unat_word_ariths) simp
qed

text \<open>The digits are read up to their end, as long as the value does not exceed the maximum.\<close>

lemma hex_run:
  assumes "text_at m code sz idx ds" "list_all (\<lambda>c. hex_val c \<noteq> None) ds" "unat i + length ds \<le> 16"
    "digits_val (unat res) ds \<le> unat mx" "digits_val (unat res) ds < 2 ^ 60"
    and stop: "sz \<le> idx + of_nat (length ds) \<or> hex_val (m (code + 8 * (idx + of_nat (length ds)))) = None"
  shows "hex_from m code sz mx idx i res =
    Some (idx + of_nat (length ds), i + of_nat (length ds), of_nat (digits_val (unat res) ds))"
  using assms
proof (induction ds arbitrary: idx i res)
  case Nil
  then show ?case by (subst hex_from.simps) auto
next
  case (Cons c cs)
  obtain t where t: "hex_val c = Some t" using Cons.prems(2) by auto
  note t16 = hex_val_less [OF t]
  have res: "unat res < 2 ^ 60"
    using digits_val_mono [of "unat res" "c # cs"] Cons.prems(4,5) by linarith
  let ?v = "push_bit 4 res OR t"
  have v: "unat ?v = 16 * unat res + unat t" by (rule add_digit [OF res t16])
  have dv: "digits_val (unat res) (c # cs) = digits_val (unat ?v) cs" by (simp add: v t)
  have le: "\<not> mx < ?v"
    using digits_val_mono [of "unat ?v" cs] Cons.prems(4) unfolding dv by (simp add: not_less word_le_nat_alt)
  have i16: "i < 16" using Cons.prems(3) by (simp add: word_less_nat_alt)
  have i1: "unat (i + 1) = unat i + 1" using unat_suc [OF i16] by simp
  have at: "idx < sz" "m (code + 8 * idx) = c" "text_at m code sz (idx + 1) cs" using Cons.prems(1) by simp_all
  have "hex_from m code sz mx idx i res = hex_from m code sz mx (idx + 1) (i + 1) ?v"
    by (subst hex_from.simps) (use at(1,2) i16 t le in \<open>simp add: Let_def\<close>)
  also have "\<dots> = Some (idx + 1 + of_nat (length cs), i + 1 + of_nat (length cs), of_nat (digits_val (unat ?v) cs))"
  proof (rule Cons.IH [OF at(3)])
    show "list_all (\<lambda>c. hex_val c \<noteq> None) cs" using Cons.prems(2) by simp
    show "unat (i + 1) + length cs \<le> 16" using Cons.prems(3) i1 by simp
    show "digits_val (unat ?v) cs \<le> unat mx" using Cons.prems(4) unfolding dv .
    show "digits_val (unat ?v) cs < 2 ^ 60" using Cons.prems(5) unfolding dv .
    show "sz \<le> idx + 1 + of_nat (length cs) \<or> hex_val (m (code + 8 * (idx + 1 + of_nat (length cs)))) = None"
      using Cons.prems(6) by (simp add: add.assoc)
  qed
  finally show ?case unfolding dv by (simp add: add.assoc)
qed

lemma expect_number:
  assumes "text_at m code sz i ds" "spells v ds" "v \<le> mx" "unat mx < 2 ^ 60"
    and "sz \<le> i + of_nat (length ds) \<or> hex_val (m (code + 8 * (i + of_nat (length ds)))) = None"
  shows "expect_hex_from_str m code sz i mx out = (0, i + of_nat (length ds), v)"
proof -
  have s: "list_all (\<lambda>c. hex_val c \<noteq> None) ds" "length ds \<le> 16" "ds \<noteq> []" "digits_val 0 ds = unat v"
    using assms(2) by (simp_all add: spells_def)
  have "hex_from m code sz mx i 0 0 = Some (i + of_nat (length ds), 0 + of_nat (length ds), of_nat (digits_val (unat (0 :: u64)) ds))"
    by (rule hex_run [OF assms(1) s(1) _ _ _ assms(5)]) (use s assms(3,4) in \<open>simp_all add: word_le_nat_alt\<close>)
  moreover have "(of_nat (length ds) :: u64) \<noteq> 0"
  proof
    assume "(of_nat (length ds) :: u64) = 0"
    then have "unat (of_nat (length ds) :: u64) = 0" by simp
    moreover have "unat (of_nat (length ds) :: u64) = length ds" using s(2) by (simp add: unat_of_nat take_bit_nat_eq_self)
    ultimately show False using s(3) by simp
  qed
  ultimately show ?thesis using s(4) by (simp add: expect_hex_from_str_def)
qed

lemma no_number:
  assumes "text_at m code sz i (c # cs)" "hex_val c = None"
  shows "expect_hex_from_str m code sz i mx out = (1, i, out)"
proof -
  have "hex_from m code sz mx i 0 0 = Some (i, 0, 0)"
    by (subst hex_from.simps) (use assms in simp)
  then show ?thesis by (simp add: expect_hex_from_str_def)
qed

subsection \<open>Operands\<close>

text \<open>
  A register operand is spelled by its number and the blanks behind it; the last operand is a register
  or a number, with a minus sign or without.
\<close>

type_synonym reg_text = "u64 \<times> u64 list \<times> u64 list"

fun reg_chars :: "reg_text \<Rightarrow> u64 list" where
  "reg_chars (r, ds, ws) = lit ''r'' @ ds @ ws"

fun reg_spelled :: "reg_text \<Rightarrow> bool" where
  "reg_spelled (r, ds, ws) = (r < 32 \<and> spells r ds \<and> blanks ws)"

datatype last_text = Last_Reg u64 "u64 list" | Last_Num bool u64 "u64 list"

fun last_chars :: "last_text \<Rightarrow> u64 list" where
  "last_chars (Last_Reg r ds) = lit ''r'' @ ds"
| "last_chars (Last_Num neg v ds) = (if neg then lit ''-'' else []) @ ds"

text \<open>A number has one bit less than the operand it is written to.\<close>

fun last_spelled :: "u64 \<Rightarrow> last_text \<Rightarrow> bool" where
  "last_spelled n (Last_Reg r ds) = (r < 32 \<and> spells r ds)"
| "last_spelled n (Last_Num neg v ds) = (v \<le> drop_bit 1 (get_flx_op_mask n) \<and> spells v ds)"

fun last_value :: "u64 \<Rightarrow> last_text \<Rightarrow> operand" where
  "last_value n (Last_Reg r ds) = Reg r"
| "last_value n (Last_Num neg v ds) = Imm (if neg then (NOT v + 1) AND get_flx_op_mask n else v)"

lemma lit_chars: "lit ''r'' = [114]" "lit ''-'' = [45]"
  by (simp_all add: lit_def)

lemma no_blanks: "\<not> whitespace 114" "\<not> whitespace 45" "hex_val 114 = None" "hex_val 45 = None"
  by (simp_all add: whitespace_def hex_val_def)

lemma digit_no_blank: "hex_val c \<noteq> None \<Longrightarrow> \<not> whitespace c \<and> c \<noteq> 45 \<and> c \<noteq> 114"
  using whitespace_no_digit no_blanks by auto

lemma blank_after:
  assumes "text_at m code sz i (ds @ ws @ cs)" "blanks ws"
  shows "hex_val (m (code + 8 * (i + of_nat (length ds)))) = None"
proof -
  obtain b bs where "ws = b # bs" "whitespace b" using assms(2) by (cases ws) (auto simp: blanks_def)
  then show ?thesis using assms(1) whitespace_no_digit by (simp add: text_at_append)
qed

lemma expect_register:
  assumes "text_at m code sz i (lit ''r'' @ ds @ cs)" "spells r ds" "r < 32"
    and "sz \<le> i + 1 + of_nat (length ds) \<or> hex_val (m (code + 8 * (i + 1 + of_nat (length ds)))) = None"
  shows "expect_str m code sz i (lit ''r'') = (0, i + 1)"
    "expect_hex_from_str m code sz (i + 1) (num_regs - 1) out = (0, i + 1 + of_nat (length ds), r)"
proof -
  have t: "text_at m code sz i (lit ''r'')" "text_at m code sz (i + 1) ds"
    using assms(1) unfolding text_at_append by (simp_all add: lit_chars)
  show "expect_str m code sz i (lit ''r'') = (0, i + 1)" using expect_text [OF t(1)] by (simp add: lit_chars)
  have n: "r \<le> num_regs - 1" "unat (num_regs - 1) < 2 ^ 60"
    using assms(3) by (simp_all add: num_regs_def word_le_nat_alt word_less_nat_alt)
  show "expect_hex_from_str m code sz (i + 1) (num_regs - 1) out = (0, i + 1 + of_nat (length ds), r)"
    by (rule expect_number [OF t(2) assms(2) n assms(4)])
qed

text \<open>All operands but the last one.\<close>

lemma reg_operands_text:
  "text_at m code sz i (concat (map reg_chars ops) @ c # cs) \<Longrightarrow> list_all reg_spelled ops \<Longrightarrow> \<not> whitespace c \<Longrightarrow>
   reg_operands m code sz (length ops) instr ii i =
     (let (instr, ii) = put_regs (map fst ops) (instr, ii) in
      Some (instr, ii, i + of_nat (length (concat (map reg_chars ops)))))"
proof (induction ops arbitrary: i instr ii)
  case Nil
  show ?case by (simp add: put_regs_def)
next
  case (Cons x ops)
  obtain r ds ws where x: "x = (r, ds, ws)" by (cases x) auto
  have sp: "r < 32" "spells r ds" "blanks ws" using Cons.prems(2) x by simp_all
  let ?rest = "concat (map reg_chars ops) @ c # cs"
  have t: "text_at m code sz i (lit ''r'' @ ds @ ws @ ?rest)" using Cons.prems(1) x by simp
  have tw: "text_at m code sz (i + 1 + of_nat (length ds)) (ws @ ?rest)"
    "text_at m code sz (i + 1) (ds @ ws @ ?rest)"
    "text_at m code sz (i + 1 + of_nat (length ds) + of_nat (length ws)) ?rest"
    using t by (simp_all add: text_at_append lit_chars)
  note e = expect_register [OF t sp(2,1) disjI2 [OF blank_after [OF tw(2) sp(3)]]]
  obtain d es where d: "?rest = d # es" "\<not> whitespace d"
  proof (cases ops)
    case Nil
    then show ?thesis using that Cons.prems(3) by simp
  next
    case (Cons y ys)
    obtain r' ds' ws' where "y = (r', ds', ws')" by (cases y) auto
    then show ?thesis using that [of 114] Cons no_blanks by (simp add: lit_chars)
  qed
  have b: "expect_whitespace m code sz (i + 1 + of_nat (length ds)) = (0, i + 1 + of_nat (length ds) + of_nat (length ws))"
    by (rule expect_blanks(1) [OF _ sp(3) d(2)]) (use tw(1) in \<open>simp only: d(1)\<close>)
  obtain instr' ii' where p: "put_reg instr ii r = (instr', ii')" by fastforce
  have "reg_operands m code sz (length (x # ops)) instr ii i =
      reg_operands m code sz (length ops) instr' ii' (i + 1 + of_nat (length ds) + of_nat (length ws))"
    by (simp add: e b p)
  also have "\<dots> = (let (instr, ii) = put_regs (map fst ops) (instr', ii') in
      Some (instr, ii, i + 1 + of_nat (length ds) + of_nat (length ws) + of_nat (length (concat (map reg_chars ops)))))"
    using Cons.IH [OF tw(3)] Cons.prems(2,3) by simp
  finally show ?case
    by (simp add: x put_regs_def p lit_chars add.assoc split: prod.splits)
qed

text \<open>The last operand.\<close>

lemma last_operand_text:
  assumes t: "text_at m code sz i (last_chars l)" and l: "last_spelled n l"
    and e: "word_end m code sz (i + of_nat (length (last_chars l)))" and n: "unat (drop_bit 1 (get_flx_op_mask n)) < 2 ^ 60"
  shows "last_operand m code sz n i =
    (last_value n l, ignore_whitespace m code sz (i + of_nat (length (last_chars l))))"
proof -
  note ee = expect_end [OF e]
  have stop: "sz \<le> i + of_nat (length (last_chars l)) \<or> hex_val (m (code + 8 * (i + of_nat (length (last_chars l))))) = None"
    using e unfolding word_end_def by (elim disjE) (simp_all add: whitespace_no_digit)
  show ?thesis
  proof (cases l)
    case l': (Last_Reg r ds)
    have sp: "spells r ds" "r < 32" using l l' by simp_all
    have t': "text_at m code sz i (114 # ds)" "text_at m code sz i (lit ''r'' @ ds @ [])"
      using t l' by (simp_all add: lit_chars)
    have j: "i + of_nat (length (last_chars l)) = i + 1 + of_nat (length ds)" using l' by (simp add: lit_chars)
    note er = expect_register [OF t'(2) sp stop [unfolded j]]
    have m1: "expect_str m code sz i (lit ''-'') = (1, i)"
      unfolding lit_chars by (rule expect_other [OF t'(1)]) simp
    note m2 = no_number [OF t'(1) no_blanks(3)]
    note m3 = no_blank(2) [OF t'(1) no_blanks(1)]
    show ?thesis unfolding j last_operand_def m1 Let_def case_prod_conv m2 m3
      using er ee [unfolded j] l' by simp
  next
    case l': (Last_Num neg v ds)
    have sp: "spells v ds" "v \<le> drop_bit 1 (get_flx_op_mask n)" using l l' by simp_all
    obtain d es where d: "ds = d # es" "hex_val d \<noteq> None" using sp(1) by (cases ds) (auto simp: spells_def)
    let ?k = "if neg then i + 1 else i"
    have t': "text_at m code sz ?k ds" using t l' by (cases neg) (simp_all add: lit_chars)
    have j: "i + of_nat (length (last_chars l)) = ?k + of_nat (length ds)" using l' by (simp add: lit_chars add.assoc)
    have m1: "expect_str m code sz i (lit ''-'') = (if neg then 0 else 1, ?k)"
    proof (cases neg)
      case True
      then have "text_at m code sz i (lit ''-'' @ ds)" using t l' by simp
      then have "text_at m code sz i (lit ''-'')" unfolding text_at_append by (rule conjunct1)
      from expect_text [OF this] True show ?thesis by (simp add: lit_chars)
    next
      case False
      then have u: "text_at m code sz i (d # es)" using t' unfolding d(1) by simp
      have "45 \<noteq> d" using digit_no_blank [OF d(2)] by blast
      from expect_other [OF u this, of "[]"] show ?thesis using False unfolding lit_chars by simp
    qed
    have m2: "expect_hex_from_str m code sz ?k (drop_bit 1 (get_flx_op_mask n)) 0 = (0, ?k + of_nat (length ds), v)"
      by (rule expect_number [OF t' sp n stop [unfolded j]])
    show ?thesis unfolding j last_operand_def m1 Let_def case_prod_conv m2
      using ee [unfolded j] l' by simp
  qed
qed

subsection \<open>One line\<close>

text \<open>The spelling of an instruction: its name, blanks, the operands.\<close>

definition line_chars :: "u64 \<Rightarrow> u64 list \<Rightarrow> reg_text list \<Rightarrow> last_text \<Rightarrow> u64 list" where
  "line_chars opc ws ops l = op_name (opcodes ! unat opc) @ ws @ concat (map reg_chars ops) @ last_chars l"

definition line_spelled :: "u64 \<Rightarrow> u64 list \<Rightarrow> reg_text list \<Rightarrow> last_text \<Rightarrow> bool" where
  "line_spelled opc ws ops l \<longleftrightarrow> opc < 16 \<and> blanks ws \<and> list_all reg_spelled ops \<and>
     Suc (length ops) = unat (op_args (opcodes ! unat opc)) \<and> last_spelled (op_args (opcodes ! unat opc)) l"

lemma opcode_cases:
  assumes "(opc :: u64) < 16"
  shows "unat opc < length instructions" "instructions ! unat opc = (op_args (opcodes ! unat opc), op_name (opcodes ! unat opc))"
proof -
  have "unat opc < length opcodes" using assms by (simp add: opcodes_def word_less_nat_alt)
  then show "unat opc < length instructions"
    "instructions ! unat opc = (op_args (opcodes ! unat opc), op_name (opcodes ! unat opc))"
    by (simp_all add: instructions_def)
qed

lemma op_args_13: "op_args opn = 3 \<or> op_args opn = 1"
  by (cases opn) simp_all

lemma mask_small: "unat (drop_bit 1 (get_flx_op_mask (op_args opn))) < 2 ^ 60"
  using op_args_13 [of opn] by (auto simp: get_flx_op_mask_def shr_def asm_consts mask_eq_exp_minus_1)

lemma last_chars_first:
  assumes "last_spelled n l"
  obtains c cs where "last_chars l = c # cs" "\<not> whitespace c"
proof (cases l)
  case (Last_Reg r ds)
  then show ?thesis using that [of 114 ds] no_blanks by (simp add: lit_chars)
next
  case (Last_Num neg v ds)
  then obtain d es where "ds = d # es" "hex_val d \<noteq> None" using assms by (cases ds) (auto simp: spells_def)
  then show ?thesis using that Last_Num no_blanks digit_no_blank [of d] by (cases neg) (auto simp: lit_chars)
qed

text \<open>
  The operands of an instruction become the word that \<open>encode\<close> composes of its fields; this word is appended
  to the array and the assembler goes on behind the blanks that follow.
\<close>

definition append_instr :: "u64 \<Rightarrow> u64 \<Rightarrow> u64 \<Rightarrow> asm \<Rightarrow> u64 \<Rightarrow> u64 \<Rightarrow> asm option" where
  "append_instr heap code sz s w idx = do {
     s \<leftarrow> add_word_item heap s w;
     if a_failed s then Some s
     else Some (s\<lparr>a_idx := ignore_whitespace (a_mem s) code sz idx, a_pc := a_pc s + 1\<rparr>) }"

definition line_word :: "u64 \<Rightarrow> reg_text list \<Rightarrow> last_text \<Rightarrow> u64" where
  "line_word opc ops l = encode opc (map fst ops) (last_value (op_args (opcodes ! unat opc)) l)"

lemma compile_instr_text:
  assumes l: "line_spelled opc ws ops l" and s: "\<not> a_failed s"
    and t: "text_at (a_mem s) code sz (a_idx s) (concat (map reg_chars ops) @ last_chars l)"
    and e: "word_end (a_mem s) code sz (a_idx s + of_nat (length (concat (map reg_chars ops) @ last_chars l)))"
  shows "compile_instr heap code sz opc s = append_instr heap code sz s (line_word opc ops l)
    (ignore_whitespace (a_mem s) code sz (a_idx s + of_nat (length (concat (map reg_chars ops) @ last_chars l))))"
proof -
  let ?n = "op_args (opcodes ! unat opc)"
  have sp: "opc < 16" "list_all reg_spelled ops" "Suc (length ops) = unat ?n" "last_spelled ?n l"
    using l by (simp_all add: line_spelled_def)
  obtain c cs where c: "last_chars l = c # cs" "\<not> whitespace c" using last_chars_first [OF sp(4)] by metis
  obtain w k where p: "put_regs (map fst ops) (shl opc opcode_start, opcode_start) = (w, k)" by fastforce
  let ?i = "a_idx s + of_nat (length (concat (map reg_chars ops)))"
  have ro: "reg_operands (a_mem s) code sz (length ops) (shl opc opcode_start) opcode_start (a_idx s) = Some (w, k, ?i)"
    using reg_operands_text [of "a_mem s" code sz "a_idx s" ops c cs] t sp(2) c p by simp
  have j: "a_idx s + of_nat (length (concat (map reg_chars ops) @ last_chars l)) = ?i + of_nat (length (last_chars l))"
    by (simp add: add.assoc)
  have lo: "last_operand (a_mem s) code sz ?n ?i =
      (last_value ?n l, ignore_whitespace (a_mem s) code sz (?i + of_nat (length (last_chars l))))"
    by (rule last_operand_text [OF _ sp(4) _ mask_small]) (use t e in \<open>simp_all only: text_at_append j\<close>)
  have n: "unat ?n - 1 = length ops" "?n \<noteq> 0" using sp(3) op_args_13 [of "opcodes ! unat opc"] by auto
  have "last_value ?n l \<noteq> Label" by (cases l) simp_all
  then show ?thesis
    unfolding compile_instr_def Let_def opcode_cases(2) [OF sp(1)] fst_conv if_P [OF n(2)] n(1) ro option.case
      case_prod_conv lo j line_word_def encode_def p append_instr_def
    by (simp add: s)
qed

text \<open>No name of an instruction is a number.\<close>

definition name_digits :: "opcode \<Rightarrow> u64 list" where
  "name_digits opn = takeWhile (\<lambda>c. hex_val c \<noteq> None) (op_name opn)"

lemma name_split:
  "\<exists>c cs. op_name opn = name_digits opn @ c # cs \<and> hex_val c = None \<and> \<not> whitespace c \<and>
     length (name_digits opn) \<le> 2 \<and> digits_val 0 (name_digits opn) < 256"
  by (cases opn) (simp_all add: name_digits_def lit_def hex_val_def whitespace_def)

lemma name_no_number:
  assumes t: "text_at m code sz i (op_name opn)" and e: "expect_hex_from_str m code sz i (- 1) 0 = (r1, idx, out)"
  shows "r1 OR fst (expect_whitespace_or_end m code sz idx) \<noteq> 0"
proof -
  obtain c cs where n: "op_name opn = name_digits opn @ c # cs" "hex_val c = None" "\<not> whitespace c"
    "length (name_digits opn) \<le> 2" "digits_val 0 (name_digits opn) < 256"
    using name_split [of opn] by blast
  let ?ds = "name_digits opn" and ?j = "i + of_nat (length (name_digits opn))"
  have t': "text_at m code sz i ?ds" "text_at m code sz ?j (c # cs)"
    using t unfolding n(1) text_at_append by blast+
  have d: "list_all (\<lambda>c. hex_val c \<noteq> None) ?ds"
    unfolding name_digits_def list_all_iff using set_takeWhileD [of _ "\<lambda>c. hex_val c \<noteq> None" "op_name opn"] by blast
  have mx: "unat (- 1 :: u64) = 2 ^ 64 - 1" by (simp add: unsigned_minus_1_eq_mask mask_eq_exp_minus_1)
  have "hex_from m code sz (- 1) i 0 0 = Some (?j, 0 + of_nat (length ?ds), of_nat (digits_val (unat (0 :: u64)) ?ds))"
    by (rule hex_run [OF t'(1) d]) (use n(2,4,5) t'(2) in \<open>simp_all add: mx\<close>)
  then have "idx = ?j \<or> r1 = 1" using e by (auto simp: expect_hex_from_str_def split: if_splits)
  moreover have "fst (expect_whitespace_or_end m code sz ?j) = 1" using no_blank(2) [OF t'(2) n(3)] by simp
  ultimately show ?thesis by (auto simp: or_eq_0_iff)
qed

lemma match_opcode_text:
  assumes "opc < 16" "text_at m code sz i (op_name (opcodes ! unat opc))"
  shows "match_opcode m code sz i out = (0, i + 3, opc)"
proof -
  have len: "length (op_name opn) = 3" for opn by (cases opn) (simp_all add: lit_def)
  have "list_all (\<lambda>x. length (snd x) = length (op_name (opcodes ! unat opc))) instructions"
    unfolding len by (simp add: instructions_def list_all_iff len)
  moreover have "distinct (map snd instructions)"
    by (simp add: instructions_def opcodes_def lit_def)
  ultimately have "match_opcode_from m code sz i out 0 instructions =
      (0, i + of_nat (length (op_name (opcodes ! unat opc))), 0 + of_nat (unat opc))"
    by (intro match_names [OF assms(2)]) (simp_all add: opcode_cases [OF assms(1)])
  then show ?thesis by (simp add: match_opcode_def len)
qed

lemma compile_token_text:
  assumes l: "line_spelled opc ws ops l" and s: "\<not> a_failed s"
    and t: "text_at (a_mem s) code sz (a_idx s) (line_chars opc ws ops l)"
    and e: "word_end (a_mem s) code sz (a_idx s + of_nat (length (line_chars opc ws ops l)))"
  shows "\<exists>s0 idx. s0 = s\<lparr>a_idx := a_idx s0\<rparr> \<and> compile_token heap code sz s = append_instr heap code sz s0 (line_word opc ops l) idx \<and>
    idx = ignore_whitespace (a_mem s) code sz (a_idx s + of_nat (length (line_chars opc ws ops l)))"
proof -
  let ?opn = "opcodes ! unat opc" and ?m = "a_mem s" and ?i = "a_idx s"
  let ?tail = "concat (map reg_chars ops) @ last_chars l"
  have sp: "opc < 16" "blanks ws" "list_all reg_spelled ops" "last_spelled (op_args ?opn) l"
    using l by (simp_all add: line_spelled_def)
  have len: "length (op_name ?opn) = 3" by (cases ?opn) (simp_all add: lit_def)
  have t': "text_at ?m code sz ?i (op_name ?opn)" "text_at ?m code sz (?i + 3) (ws @ ?tail)"
    "text_at ?m code sz (?i + 3 + of_nat (length ws)) ?tail"
    using t by (simp_all add: line_chars_def text_at_append len)
  obtain c cs where c: "?tail = c # cs" "\<not> whitespace c"
  proof (cases ops)
    case Nil
    then show ?thesis using last_chars_first [OF sp(4)] that by (metis append_Nil concat.simps(1) list.simps(8))
  next
    case (Cons y ys)
    obtain r ds bs where "y = (r, ds, bs)" by (cases y) auto
    then show ?thesis using that [of 114] Cons no_blanks by (simp add: lit_chars)
  qed
  obtain r1 idx out where h: "expect_hex_from_str ?m code sz ?i (- 1) 0 = (r1, idx, out)" by (metis prod_cases3)
  obtain r2 idx2 where w: "expect_whitespace_or_end ?m code sz idx = (r2, idx2)" by fastforce
  have no: "r1 OR r2 \<noteq> 0" using name_no_number [OF t'(1) h] w by simp
  have b: "expect_whitespace ?m code sz (?i + 3) = (0, ?i + 3 + of_nat (length ws))"
    by (rule expect_blanks(1) [OF _ sp(2) c(2)]) (use t'(2) in \<open>simp only: c(1)\<close>)
  let ?s = "s\<lparr>a_idx := ?i + 3 + of_nat (length ws)\<rparr>"
  have "compile_token heap code sz s = compile_instr heap code sz opc ?s"
    unfolding compile_token_def Let_def h case_prod_conv w match_opcode_text [OF sp(1) t'(1)] b
    using no by simp
  also have "\<dots> = append_instr heap code sz ?s (line_word opc ops l)
      (ignore_whitespace (a_mem ?s) code sz (a_idx ?s + of_nat (length ?tail)))"
    by (rule compile_instr_text [OF l]) (use s t'(3) e in \<open>simp_all add: line_chars_def len add.assoc\<close>)
  finally show ?thesis
    by (intro exI [of _ ?s] exI conjI) (simp_all add: line_chars_def len add.assoc)
qed

subsection \<open>Decoding\<close>

text \<open>The machine gets the operands of a line back from its word.\<close>

definition line_args :: "reg_text list \<Rightarrow> last_text \<Rightarrow> u64 list" where
  "line_args ops l = map fst ops @ [case l of Last_Reg r ds \<Rightarrow> r | Last_Num neg v ds \<Rightarrow> 32]"

definition line_mem :: "u64 \<Rightarrow> last_text \<Rightarrow> mem \<Rightarrow> mem" where
  "line_mem regs l m = (case l of Last_Reg r ds \<Rightarrow> m
     | Last_Num neg v ds \<Rightarrow> m(reg regs 32 := if neg then - v else v))"

lemma decode_line:
  assumes l: "line_spelled opc ws ops l" and a: "length args = mx_reg_args"
  shows "instr_opcode (line_word opc ops l) = opc"
    "decode_args m regs (line_word opc ops l) (op_args (opcodes ! unat opc)) args =
       (line_mem regs l m, line_args ops l @ drop (Suc (length ops)) args)"
proof -
  let ?n = "op_args (opcodes ! unat opc)"
  have sp: "opc < 16" "list_all reg_spelled ops" "Suc (length ops) = unat ?n" "last_spelled ?n l"
    using l by (simp_all add: line_spelled_def)
  have "length args = Suc (Suc (Suc 7))" using a by (simp add: mx_reg_args_def)
  then obtain a0 a1 a2 as where as: "args = a0 # a1 # a2 # as" unfolding length_Suc_conv by blast
  have "instr_opcode (line_word opc ops l) = opc \<and>
    decode_args m regs (line_word opc ops l) ?n args =
       (line_mem regs l m, line_args ops l @ drop (Suc (length ops)) args)"
  proof (cases "?n = 3")
    case n: True
    have "length ops = 2" using sp(3) n by simp
    then obtain x y where xy: "ops = [x, y]" by (auto simp: numeral_2_eq_2 length_Suc_conv)
    have r: "fst x < 32" "fst y < 32" using sp(2) xy by (cases x; cases y; simp)+
    show ?thesis
    proof (cases l)
      case (Last_Reg r ds)
      then have "r < 32" using sp(4) by simp
      from decode_registers [OF sp(1) r this] show ?thesis
        by (simp add: line_word_def line_args_def line_mem_def xy Last_Reg n as)
    next
      case (Last_Num neg v ds)
      then have "v \<le> drop_bit 1 (get_flx_op_mask 3)" using sp(4) n by simp
      note x = number_ok [OF disjI1 [OF conjI [OF refl refl]] this refl, of neg]
      from decode_number [OF sp(1) r x(2,3)] show ?thesis
        by (simp add: line_word_def line_args_def line_mem_def xy Last_Num n as x(1) del: fun_upd_apply)
    qed
  next
    case False
    then have n: "?n = 1" using op_args_13 [of "opcodes ! unat opc"] by simp
    then have ops: "ops = []" using sp(3) by simp
    show ?thesis
    proof (cases l)
      case (Last_Reg r ds)
      then have "r < 32" using sp(4) by simp
      from decode_register_1 [OF sp(1) this] show ?thesis
        by (simp add: line_word_def line_args_def line_mem_def ops Last_Reg n as)
    next
      case (Last_Num neg v ds)
      then have "v \<le> drop_bit 1 (get_flx_op_mask 1)" using sp(4) n by simp
      note x = number_ok [OF disjI2 [OF conjI [OF refl refl]] this refl, of neg]
      from decode_number_1 [OF sp(1) x(2,3)] show ?thesis
        by (simp add: line_word_def line_args_def line_mem_def ops Last_Num n as x(1) del: fun_upd_apply)
    qed
  qed
  then show "instr_opcode (line_word opc ops l) = opc"
    "decode_args m regs (line_word opc ops l) ?n args =
       (line_mem regs l m, line_args ops l @ drop (Suc (length ops)) args)" by blast+
qed

end
