(* ===== verification/Fifo.thy ===== *)
theory Fifo
  imports Ring
begin

text \<open>
  The FIFO of two ring buffers: whatever the distribution of the items over the buffers, the items
  come out in the order in which they were added.
\<close>

subsection \<open>Tagged items\<close>

fun tagged :: "u64 \<Rightarrow> u64 list list \<Rightarrow> u64 list list" where
  "tagged c [] = []"
| "tagged c (x # xs) = (c # x) # tagged (c + 1) xs"

lemma tagged_append: "tagged c (xs @ ys) = tagged c xs @ tagged (c + of_nat (length xs)) ys"
  by (induction xs arbitrary: c) (simp_all add: algebra_simps)

lemma length_tagged [simp]: "length (tagged c xs) = length xs"
  by (induction xs arbitrary: c) simp_all

lemma tagged_hd: "t \<in> set (tagged c xs) \<Longrightarrow> \<exists>i < length xs. hd t = c + of_nat i"
proof (induction xs arbitrary: c)
  case (Cons x xs)
  show ?case
  proof (cases "t = c # x")
    case False
    then obtain i where "i < length xs" "hd t = c + 1 + of_nat i" using Cons by auto
    then show ?thesis by (intro exI [of _ "Suc i"]) simp
  qed (use exI [of _ 0] in auto)
qed simp

text \<open>A later tag is not the current one.\<close>

lemma tagged_later:
  assumes "t \<in> set (tagged (c + 1) xs)" "length xs < 2 ^ 62"
  shows "hd t \<noteq> c"
proof
  assume "hd t = c"
  then obtain i where i: "i < length xs" "c = c + 1 + of_nat i" using tagged_hd [OF assms(1)] by metis
  then have "(of_nat (Suc i) :: u64) = 0" by (simp add: algebra_simps)
  moreover have "unat (of_nat (Suc i) :: u64) = Suc i"
    using i(1) assms(2) by (subst unat_of_nat) (simp add: take_bit_nat_eq_self)
  ultimately show False by simp
qed

lemma shuffles_last: "ys @ [z] \<in> shuffles [z] ys"
  by (induction ys) (simp_all add: Cons_in_shuffles_rightI)

lemma shuffles_add_left: "zs \<in> shuffles xs ys \<Longrightarrow> zs @ [z] \<in> shuffles (xs @ [z]) ys"
  by (induction xs ys arbitrary: zs rule: shuffles.induct) (auto simp: shuffles_last Cons_in_shuffles_rightI Cons_in_shuffles_leftI)

lemma shuffles_add_right: "zs \<in> shuffles xs ys \<Longrightarrow> zs @ [z] \<in> shuffles xs (ys @ [z])"
  using shuffles_add_left [of zs ys xs z] by (simp add: shuffles_commutes)

subsection \<open>The representation\<close>

definition fifo_cells :: "u64 \<Rightarrow> u64 set" where
  "fifo_cells cf = {cf_A cf, cf_B cf, cf_a_lck cf, cf_b_lck cf, cf_tag cf, cf_curr_tag cf}"

text \<open>
  \<open>qa\<close> and \<open>qb\<close> are the contents of the two buffers; together they are the tagged items \<open>xs\<close>, in order.
  \<open>F\<close> are the words of the FIFO. Nothing is said of the locks.
\<close>

definition fifo_parts ::
    "mem \<Rightarrow> u64 \<Rightarrow> nat \<Rightarrow> nat \<Rightarrow> u64 \<Rightarrow> u64 set \<Rightarrow> u64 list list \<Rightarrow> u64 list list \<Rightarrow> u64 list list \<Rightarrow> bool" where
  "fifo_parts m cf ca cb w F xs qa qb \<longleftrightarrow> (\<exists>RA RB.
     ring_queue m (m (cf_A cf)) ca w RA qa \<and> ring_queue m (m (cf_B cf)) cb w RB qb \<and>
     RA \<inter> RB = {} \<and> fifo_cells cf \<inter> (RA \<union> RB) = {} \<and> F = fifo_cells cf \<union> RA \<union> RB \<and>
     F \<inter> cells tagged_item w = {} \<and>
     tagged (m (cf_curr_tag cf)) xs \<in> shuffles qa qb \<and>
     m (cf_tag cf) = m (cf_curr_tag cf) + of_nat (length xs))"

definition fifo :: "mem \<Rightarrow> u64 \<Rightarrow> nat \<Rightarrow> nat \<Rightarrow> u64 \<Rightarrow> u64 set \<Rightarrow> u64 list list \<Rightarrow> bool" where
  "fifo m cf ca cb w F xs \<longleftrightarrow> (\<exists>qa qb. fifo_parts m cf ca cb w F xs qa qb)"

lemma fifo_partsE:
  assumes "fifo_parts m cf ca cb w F xs qa qb"
  obtains RA RB where "ring_queue m (m (cf_A cf)) ca w RA qa" "ring_queue m (m (cf_B cf)) cb w RB qb"
    "RA \<inter> RB = {}" "fifo_cells cf \<inter> (RA \<union> RB) = {}" "F = fifo_cells cf \<union> RA \<union> RB"
    "F \<inter> cells tagged_item w = {}" "tagged (m (cf_curr_tag cf)) xs \<in> shuffles qa qb"
    "m (cf_tag cf) = m (cf_curr_tag cf) + of_nat (length xs)"
  using assms unfolding fifo_parts_def by blast

lemma fifoI:
  assumes "ring_queue m a ca w RA qa" "ring_queue m b cb w RB qb" "RA \<inter> RB = {}"
    "fifo_cells cf \<inter> (RA \<union> RB) = {}" "F = fifo_cells cf \<union> RA \<union> RB" "F \<inter> cells tagged_item w = {}"
    "m (cf_A cf) = a" "m (cf_B cf) = b" "m (cf_curr_tag cf) = c" "tagged c xs \<in> shuffles qa qb"
    "m (cf_tag cf) = c + of_nat (length xs)"
  shows "fifo m cf ca cb w F xs"
  unfolding fifo_def fifo_parts_def using assms by blast

lemma fifo_fields_distinct:
  "cf_A cf \<noteq> cf_B cf" "cf_A cf \<noteq> cf_a_lck cf" "cf_A cf \<noteq> cf_b_lck cf" "cf_A cf \<noteq> cf_tag cf" "cf_A cf \<noteq> cf_curr_tag cf"
  "cf_B cf \<noteq> cf_a_lck cf" "cf_B cf \<noteq> cf_b_lck cf" "cf_B cf \<noteq> cf_tag cf" "cf_B cf \<noteq> cf_curr_tag cf"
  "cf_a_lck cf \<noteq> cf_b_lck cf" "cf_a_lck cf \<noteq> cf_tag cf" "cf_a_lck cf \<noteq> cf_curr_tag cf"
  "cf_b_lck cf \<noteq> cf_tag cf" "cf_b_lck cf \<noteq> cf_curr_tag cf" "cf_tag cf \<noteq> cf_curr_tag cf"
  by (simp_all add: fifo_fields)

lemmas fifo_neq = fifo_fields_distinct fifo_fields_distinct [symmetric]

text \<open>
  Two memories that agree on the buffers and on the fields other than the locks hold the same
  FIFO. In particular the locks may be set and released.
\<close>

lemma fifo_parts_frame:
  assumes f: "fifo_parts m cf ca cb w F xs qa qb"
    and s: "\<forall>x \<in> F - {cf_a_lck cf, cf_b_lck cf}. m' x = m x"
  shows "fifo_parts m' cf ca cb w F xs qa qb"
proof -
  obtain RA RB where R: "ring_queue m (m (cf_A cf)) ca w RA qa" "ring_queue m (m (cf_B cf)) cb w RB qb"
    "RA \<inter> RB = {}" "fifo_cells cf \<inter> (RA \<union> RB) = {}" "F = fifo_cells cf \<union> RA \<union> RB"
    "F \<inter> cells tagged_item w = {}" "tagged (m (cf_curr_tag cf)) xs \<in> shuffles qa qb"
    "m (cf_tag cf) = m (cf_curr_tag cf) + of_nat (length xs)" using f by (rule fifo_partsE)
  have l: "x \<in> F - {cf_a_lck cf, cf_b_lck cf}" if "x \<in> RA \<union> RB" for x
    using that R(4,5) by (auto simp: fifo_cells_def)
  have e: "m' (cf_A cf) = m (cf_A cf)" "m' (cf_B cf) = m (cf_B cf)" "m' (cf_tag cf) = m (cf_tag cf)"
    "m' (cf_curr_tag cf) = m (cf_curr_tag cf)"
    by (rule bspec [OF s], simp add: R(5) fifo_cells_def fifo_neq)+
  have "ring_queue m' (m (cf_A cf)) ca w RA qa" by (rule ring.frame [OF R(1)]) (use l s in blast)
  moreover have "ring_queue m' (m (cf_B cf)) cb w RB qb" by (rule ring.frame [OF R(2)]) (use l s in blast)
  ultimately show ?thesis using R(3-8) unfolding fifo_parts_def e by blast
qed

lemma fifo_length:
  assumes "fifo_parts m cf ca cb w F xs qa qb"
  shows "length xs < 2 ^ 62" "length xs = length qa + length qb"
proof -
  obtain RA RB where R: "ring_queue m (m (cf_A cf)) ca w RA qa" "ring_queue m (m (cf_B cf)) cb w RB qb"
    "tagged (m (cf_curr_tag cf)) xs \<in> shuffles qa qb" using assms by (rule fifo_partsE)
  show "length xs = length qa + length qb" using length_shuffles [OF R(3)] by simp
  moreover have "length qa < 2 ^ 60" "length qb < 2 ^ 60"
    using ring_queueD(6) [OF R(1)] ring_queueD(6) [OF R(2)] ring_capacity(3) [OF ring_queueD(1) [OF R(1)]]
      ring_capacity(3) [OF ring_queueD(1) [OF R(2)]] by linarith+
  ultimately show "length xs < 2 ^ 62" by simp
qed

subsection \<open>Adding an item\<close>

text \<open>The copy of the item behind its tag.\<close>

definition tag_item :: "mem \<Rightarrow> u64 \<Rightarrow> u64 \<Rightarrow> u64 \<Rightarrow> mem" where
  "tag_item m cf item w =
     copy_words (m(tagged_item := m (cf_tag cf), cf_tag cf := m (cf_tag cf) + 1)) tagged_item (item - 8) 1 w"

lemma tag_item_ok:
  assumes w: "w \<noteq> 0" "unat w \<le> 2 ^ 60" and d: "cells (item - 8) w \<inter> cells tagged_item w = {}"
    and t: "cf_tag cf \<notin> cells tagged_item w" "cf_tag cf \<notin> cells (item - 8) w"
  shows "same_except (insert (cf_tag cf) (cells tagged_item w)) m (tag_item m cf item w)"
    "tag_item m cf item w (cf_tag cf) = m (cf_tag cf) + 1"
    "block_words (tag_item m cf item w) tagged_item w = m (cf_tag cf) # block_words m item (w - 1)"
proof -
  let ?m = "m(tagged_item := m (cf_tag cf), cf_tag cf := m (cf_tag cf) + 1)"
  have dis: "cells tagged_item w \<inter> cells (item - 8) w = {}" using d by blast
  have at: "tag_item m cf item w x =
      (if \<exists>j. 1 \<le> j \<and> j < w \<and> x = tagged_item + 8 * j then ?m (item - 8 + (x - tagged_item)) else ?m x)" for x
    unfolding tag_item_def by (rule copy_words_at [OF dis w(2)])
  have first: "tagged_item \<in> cells tagged_item w" using cellsI [of 0 w tagged_item] w(1) by (simp add: word_neq_0_conv)
  have none: "\<not> (\<exists>j. 1 \<le> j \<and> j < w \<and> x = tagged_item + 8 * j)" if "x \<notin> cells tagged_item w" for x
    using that by blast
  show "tag_item m cf item w (cf_tag cf) = m (cf_tag cf) + 1" unfolding at using none [OF t(1)] by (simp only: if_False fun_upd_same)
  show "same_except (insert (cf_tag cf) (cells tagged_item w)) m (tag_item m cf item w)"
    unfolding same_except_def
  proof (intro allI impI)
    fix x assume "x \<notin> insert (cf_tag cf) (cells tagged_item w)"
    then have x: "x \<notin> cells tagged_item w" "x \<noteq> cf_tag cf" "x \<noteq> tagged_item" using first by auto
    show "tag_item m cf item w x = m x"
      unfolding at using none [OF x(1)] x(2,3) by (simp only: if_False) simp
  qed
  have zero: "\<not> (\<exists>j. 1 \<le> j \<and> j < w \<and> tagged_item = tagged_item + 8 * j)"
  proof
    assume "\<exists>j. 1 \<le> j \<and> j < w \<and> tagged_item = tagged_item + 8 * j"
    then obtain j where j: "1 \<le> j" "j < w" "8 * 0 = 8 * j" by auto
    from mult8_inj [OF _ j(2) w(2) j(3)] w(1) j(1) show False by (simp add: word_neq_0_conv)
  qed
  have n: "unat w = Suc (unat (w - 1))" using w(1) by (simp add: unat_minus_one unat_gt_0)
  show "block_words (tag_item m cf item w) tagged_item w = m (cf_tag cf) # block_words m item (w - 1)"
  proof (rule nth_equalityI)
    show "length (block_words (tag_item m cf item w) tagged_item w) = length (m (cf_tag cf) # block_words m item (w - 1))"
      using n by simp
    fix k assume "k < length (block_words (tag_item m cf item w) tagged_item w)"
    then have k: "k < unat w" by simp
    show "block_words (tag_item m cf item w) tagged_item w ! k = (m (cf_tag cf) # block_words m item (w - 1)) ! k"
    proof (cases k)
      case 0
      have "tag_item m cf item w tagged_item = ?m tagged_item" unfolding at by (simp only: zero if_False)
      also have "\<dots> = m (cf_tag cf)" using t(1) first by auto
      finally have "tag_item m cf item w tagged_item = m (cf_tag cf)" .
      then show ?thesis using 0 k by (simp add: block_words_nth)
    next
      case (Suc i)
      let ?x = "tagged_item + 8 * of_nat k"
      have "unat (of_nat k :: u64) = k" using k w(2) by (simp add: unat_of_nat take_bit_nat_eq_self)
      then have "1 \<le> (of_nat k :: u64)" "of_nat k < w"
        using k Suc by (simp_all add: word_le_nat_alt word_less_nat_alt del: of_nat_Suc)
      then have "\<exists>j. 1 \<le> j \<and> j < w \<and> ?x = tagged_item + 8 * j" by blast
      then have "tag_item m cf item w ?x = ?m (item - 8 + (?x - tagged_item))"
        unfolding at by (simp only: if_True)
      then have "tag_item m cf item w ?x = ?m (item - 8 + 8 * of_nat k)" by (simp only: add_diff_cancel_left')
      moreover have "item - 8 + 8 * of_nat k \<in> cells (item - 8) w" using k by simp
      then have "?m (item - 8 + 8 * of_nat k) = m (item - 8 + 8 * of_nat k)" using t(2) first dis by auto
      moreover have "item - 8 + 8 * of_nat k = item + 8 * of_nat i" using Suc by (simp add: algebra_simps)
      ultimately have "tag_item m cf item w ?x = m (item + 8 * of_nat i)" by simp
      then show ?thesis using k Suc n by (simp add: block_words_nth del: of_nat_Suc)
    qed
  qed
qed

text \<open>
  The buffers after the tag and the item were written: only the tag counter has changed.
\<close>

lemma fifo_tagged:
  assumes R: "ring_queue m (m (cf_A cf)) ca w RA qa" "ring_queue m (m (cf_B cf)) cb w RB qb"
      "fifo_cells cf \<inter> (RA \<union> RB) = {}" "(fifo_cells cf \<union> RA \<union> RB) \<inter> cells tagged_item w = {}"
    and i: "cells (item - 8) w \<inter> (fifo_cells cf \<union> cells tagged_item w) = {}"
    and m1: "m1 = tag_item m cf item w"
  shows "ring_queue m1 (m (cf_A cf)) ca w RA qa" "ring_queue m1 (m (cf_B cf)) cb w RB qb"
    "x \<in> fifo_cells cf - {cf_tag cf} \<Longrightarrow> m1 x = m x" "m1 (cf_tag cf) = m (cf_tag cf) + 1"
    "block_words m1 tagged_item w = m (cf_tag cf) # block_words m item (w - 1)"
proof -
  have sh: "ring_shape (m (cf_A cf)) (m (rb_buf (m (cf_A cf)))) ca w" by (rule ring_queueD(1) [OF R(1)])
  have w: "w \<noteq> 0" "unat w \<le> 2 ^ 60" using ring_capacity(1) [OF sh] ring_word_bound [OF sh] by auto
  have t: "cf_tag cf \<in> fifo_cells cf" by (simp add: fifo_cells_def)
  have "cells (item - 8) w \<inter> cells tagged_item w = {}" "cf_tag cf \<notin> cells tagged_item w"
    "cf_tag cf \<notin> cells (item - 8) w" using i R(4) t by blast+
  note o = tag_item_ok [OF w this, of m, folded m1]
  show "m1 (cf_tag cf) = m (cf_tag cf) + 1"
    "block_words m1 tagged_item w = m (cf_tag cf) # block_words m item (w - 1)" by (fact o)+
  have e: "m1 x = m x" if "x \<in> fifo_cells cf \<union> RA \<union> RB" "x \<noteq> cf_tag cf" for x
    using that R(4) by (intro same_exceptD [OF o(1)]) blast
  then show "x \<in> fifo_cells cf - {cf_tag cf} \<Longrightarrow> m1 x = m x" by blast
  show "ring_queue m1 (m (cf_A cf)) ca w RA qa" by (rule ring.frame [OF R(1)]) (use e R(3) t in blast)
  show "ring_queue m1 (m (cf_B cf)) cb w RB qb" by (rule ring.frame [OF R(2)]) (use e R(3) t in blast)
qed

text \<open>
  An item is added when one of the buffers is not locked and not full; whichever takes it, it is
  the last one of the sequence.
\<close>

lemma fifo_add:
  assumes f: "fifo_parts m cf ca cb w F xs qa qb"
    and i: "cells (item - 8) w \<inter> (fifo_cells cf \<union> cells tagged_item w) = {}"
  shows "\<exists>m' r. concurrent_fifo_add m cf item = (m', r) \<and>
    (if m (cf_a_lck cf) = 0 \<and> length qa + 1 < ca \<or> m (cf_b_lck cf) = 0 \<and> length qb + 1 < cb
     then r = 0 \<and> fifo m' cf ca cb w F (xs @ [block_words m item (w - 1)])
     else r = 1 \<and> fifo m' cf ca cb w F xs)"
proof -
  obtain RA RB where R: "ring_queue m (m (cf_A cf)) ca w RA qa" "ring_queue m (m (cf_B cf)) cb w RB qb"
    "RA \<inter> RB = {}" "fifo_cells cf \<inter> (RA \<union> RB) = {}" "F = fifo_cells cf \<union> RA \<union> RB"
    "F \<inter> cells tagged_item w = {}" "tagged (m (cf_curr_tag cf)) xs \<in> shuffles qa qb"
    "m (cf_tag cf) = m (cf_curr_tag cf) + of_nat (length xs)" using f by (rule fifo_partsE)
  let ?m = "tag_item m cf item w" and ?x = "block_words m item (w - 1)"
  let ?A = "m (cf_A cf)" and ?B = "m (cf_B cf)"
  note t = fifo_tagged [OF R(1,2,4) R(6) [unfolded R(5)] i refl]
  have fl: "?m (cf_A cf) = ?A" "?m (cf_B cf) = ?B" "?m (cf_a_lck cf) = m (cf_a_lck cf)"
    "?m (cf_b_lck cf) = m (cf_b_lck cf)" "?m (cf_curr_tag cf) = m (cf_curr_tag cf)"
    by (rule t(3), simp add: fifo_cells_def fifo_neq)+
  have sz: "ring_buf_item_sz m ?A = w" using ring_queueD(4) [OF R(1)] by (simp add: ring_buf_item_sz_def)
  have full: "\<not> ring_buf_isfull ?m ?A \<longleftrightarrow> length qa + 1 < ca" "\<not> ring_buf_isfull ?m ?B \<longleftrightarrow> length qb + 1 < cb"
    using ring.full_law [OF t(1)] ring.full_law [OF t(2)] ring_queueD(6) [OF R(1)] ring_queueD(6) [OF R(2)] by auto
  have tag: "(m(tagged_item := m (cf_tag cf))) (cf_tag cf) = m (cf_tag cf)" by auto
  have add: "concurrent_fifo_add m cf item =
    (if m (cf_a_lck cf) = 0 \<and> length qa + 1 < ca then (ring_buf_add ?m ?A tagged_item, 0)
     else if m (cf_b_lck cf) = 0 \<and> length qb + 1 < cb then (ring_buf_add ?m ?B tagged_item, 0)
     else (?m(cf_tag cf := m (cf_tag cf)), 1))"
    unfolding concurrent_fifo_add_def Let_def sz tag tag_item_def [symmetric] fl full t(4) by simp
  have dis: "cells tagged_item w \<inter> RA = {}" "cells tagged_item w \<inter> RB = {}" using R(5,6) by blast+
  have last: "tagged (m (cf_curr_tag cf)) (xs @ [?x]) = tagged (m (cf_curr_tag cf)) xs @ [m (cf_tag cf) # ?x]"
    by (simp add: tagged_append R(8))
  have l: "m (cf_curr_tag cf) + of_nat (length (xs @ [?x])) = m (cf_tag cf) + 1" by (simp add: R(8))
  note lawA = ring.add_law [OF t(1) _ dis(1), unfolded t(5)] and lawB = ring.add_law [OF t(2) _ dis(2), unfolded t(5)]
  have out: "m2 y = ?m y" if "same_except RA ?m m2 \<or> same_except RB ?m m2" "y \<in> fifo_cells cf" for m2 y
    using that R(4) unfolding same_except_def by blast
  have cells: "cf_A cf \<in> fifo_cells cf" "cf_B cf \<in> fifo_cells cf" "cf_curr_tag cf \<in> fifo_cells cf"
    "cf_tag cf \<in> fifo_cells cf" by (simp_all add: fifo_cells_def)
  consider (A) "m (cf_a_lck cf) = 0 \<and> length qa + 1 < ca"
    | (B) "\<not> (m (cf_a_lck cf) = 0 \<and> length qa + 1 < ca)" "m (cf_b_lck cf) = 0 \<and> length qb + 1 < cb"
    | (N) "\<not> (m (cf_a_lck cf) = 0 \<and> length qa + 1 < ca)" "\<not> (m (cf_b_lck cf) = 0 \<and> length qb + 1 < cb)"
    by blast
  then show ?thesis
  proof cases
    case A
    let ?m2 = "ring_buf_add ?m ?A tagged_item"
    have a: "ring_queue ?m2 ?A ca w RA (qa @ [m (cf_tag cf) # ?x])" "same_except RA ?m ?m2"
      using lawA A by blast+
    have b: "ring_queue ?m2 ?B cb w RB qb"
      by (rule ring.frame [OF t(2)]) (use a(2) R(3) in \<open>auto simp: same_except_def\<close>)
    have "fifo ?m2 cf ca cb w F (xs @ [?x])"
      by (rule fifoI [OF a(1) b R(3-6), where c = "m (cf_curr_tag cf)"])
        (use l last shuffles_add_left [OF R(7)] in \<open>simp_all add: out [OF disjI1 [OF a(2)]] cells fl t(4)\<close>)
    then show ?thesis unfolding add using A by simp
  next
    case B
    let ?m2 = "ring_buf_add ?m ?B tagged_item"
    have b: "ring_queue ?m2 ?B cb w RB (qb @ [m (cf_tag cf) # ?x])" "same_except RB ?m ?m2"
      using lawB B(2) by blast+
    have a: "ring_queue ?m2 ?A ca w RA qa"
      by (rule ring.frame [OF t(1)]) (use b(2) R(3) in \<open>auto simp: same_except_def\<close>)
    have "fifo ?m2 cf ca cb w F (xs @ [?x])"
      by (rule fifoI [OF a b(1) R(3-6), where c = "m (cf_curr_tag cf)"])
        (use l last shuffles_add_right [OF R(7)] in \<open>simp_all add: out [OF disjI2 [OF b(2)]] cells fl t(4)\<close>)
    then show ?thesis unfolding add if_not_P [OF B(1)] using B(2) by simp
  next
    case N
    let ?m2 = "?m(cf_tag cf := m (cf_tag cf))"
    have n: "cf_tag cf \<notin> RA" "cf_tag cf \<notin> RB" using R(4) cells by blast+
    have "fifo ?m2 cf ca cb w F xs"
    proof (rule fifoI [OF _ _ R(3-6), where c = "m (cf_curr_tag cf)"])
      show "ring_queue ?m2 ?A ca w RA qa" by (rule ring.frame [OF t(1)]) (use n in auto)
      show "ring_queue ?m2 ?B cb w RB qb" by (rule ring.frame [OF t(2)]) (use n in auto)
    qed (use R(7,8) fl in \<open>simp_all add: fifo_neq\<close>)
    then show ?thesis unfolding add using N by auto
  qed
qed

subsection \<open>Taking an item\<close>

lemma ring_peek:
  assumes "ring_queue m rb c w A (x # q)"
  shows "m (m (rb_buf rb) + 8 * (w * m (rb_tail rb))) = hd x"
proof -
  note d = ring_queueD [OF assms]
  have "0 < unat w" by (rule ring_capacity(1) [OF d(1)])
  then have "block_words m (slot (m (rb_buf rb)) w (unat (m (rb_tail rb)))) w \<noteq> []"
    using length_block_words by (metis list.size(3) less_numeral_extra(3))
  then have "hd x = block_words m (slot (m (rb_buf rb)) w (unat (m (rb_tail rb)))) w ! 0"
    using ring_advance(2) [OF assms] by (metis hd_conv_nth)
  also have "\<dots> = m (m (rb_buf rb) + 8 * (w * m (rb_tail rb)))"
    using \<open>0 < unat w\<close> by (simp add: block_words_nth slot_def)
  finally show ?thesis by simp
qed

text \<open>Which buffer holds the next item: the tests of \<open>concurrent_fifo_pop\<close>.\<close>

lemma next_item:
  assumes s: "tagged c (x # xs) \<in> shuffles qa qb" and l: "length xs < 2 ^ 62"
  shows "(qa \<noteq> [] \<and> hd (hd qa) = c \<longleftrightarrow> qa \<noteq> [] \<and> hd qa = c # x \<and> tagged (c + 1) xs \<in> shuffles (tl qa) qb) \<and>
    (qa \<noteq> [] \<and> hd (hd qa) = c \<or> qb \<noteq> [] \<and> hd qb = c # x \<and> tagged (c + 1) xs \<in> shuffles qa (tl qb))"
proof -
  have no: "hd q \<noteq> c" if "q \<in> set (tagged (c + 1) xs)" for q by (rule tagged_later [OF that l])
  from s consider "qa \<noteq> []" "hd qa = c # x" "tagged (c + 1) xs \<in> shuffles (tl qa) qb"
    | "qb \<noteq> []" "hd qb = c # x" "tagged (c + 1) xs \<in> shuffles qa (tl qb)"
    by (auto simp: Cons_in_shuffles_iff)
  then show ?thesis
  proof cases
    case 2
    have "hd (hd qa) \<noteq> c" if "qa \<noteq> []"
      using no [of "hd qa"] set_shuffles [OF 2(3)] hd_in_set [OF that] by blast
    then show ?thesis using 2 by auto
  qed auto
qed

text \<open>The last part of \<open>concurrent_fifo_pop\<close>: the item without its tag goes to the caller.\<close>

lemma copy_item_out:
  assumes w: "w \<noteq> 0" "unat w \<le> 2 ^ 60" and d: "cells (item - 8) w \<inter> cells tagged_item w = {}"
    and t: "block_words m tagged_item w = c # x"
  shows "block_words (copy_words m (item - 8) tagged_item 1 w) item (w - 1) = x"
    "same_except (cells (item - 8) w) m (copy_words m (item - 8) tagged_item 1 w)"
proof -
  let ?m = "copy_words m (item - 8) tagged_item 1 w"
  note at = copy_words_at [OF d w(2), of m 1]
  show "same_except (cells (item - 8) w) m ?m"
    unfolding same_except_def
  proof (intro allI impI)
    fix y assume "y \<notin> cells (item - 8) w"
    then have "\<not> (\<exists>j. 1 \<le> j \<and> j < w \<and> y = item - 8 + 8 * j)" by blast
    then show "?m y = m y" unfolding at by (simp only: if_False)
  qed
  have n: "unat w = Suc (unat (w - 1))" using w(1) by (simp add: unat_minus_one unat_gt_0)
  have len: "length x = unat (w - 1)" using arg_cong [OF t, of length] n by simp
  show "block_words ?m item (w - 1) = x"
  proof (rule nth_equalityI)
    fix k assume "k < length (block_words ?m item (w - 1))"
    then have k: "k < unat (w - 1)" "Suc k < unat w" using n by simp_all
    let ?j = "of_nat (Suc k) :: u64"
    have "unat ?j = Suc k" using k(2) w(2) by (simp add: unat_of_nat take_bit_nat_eq_self del: of_nat_Suc)
    then have "1 \<le> ?j" "?j < w"
      using k(2) by (simp_all add: word_le_nat_alt word_less_nat_alt del: of_nat_Suc)
    then have "\<exists>j. 1 \<le> j \<and> j < w \<and> item - 8 + 8 * ?j = item - 8 + 8 * j" by blast
    then have "?m (item - 8 + 8 * ?j) = m (tagged_item + 8 * ?j)"
      unfolding at by (simp only: if_True add_diff_cancel_left')
    also have "\<dots> = block_words m tagged_item w ! Suc k" using k(2) by (simp only: block_words_nth)
    also have "\<dots> = x ! k" by (simp add: t)
    finally show "block_words ?m item (w - 1) ! k = x ! k"
      using k(1) by (simp add: block_words_nth algebra_simps)
  qed (simp add: len)
qed

lemma fifo_finish:
  assumes q: "ring_queue m2 a ca w RA qa" "ring_queue m2 b cb w RB qb"
    and R: "RA \<inter> RB = {}" "fifo_cells cf \<inter> (RA \<union> RB) = {}" "F = fifo_cells cf \<union> RA \<union> RB"
      "F \<inter> cells tagged_item w = {}"
    and i: "cells (item - 8) w \<inter> (F \<union> cells tagged_item w) = {}"
    and s: "m2 (cf_A cf) = a" "m2 (cf_B cf) = b" "m2 (cf_curr_tag cf) = c"
      "m2 (cf_tag cf) = c + of_nat (Suc (length xs))"
    and t: "block_words m2 tagged_item w = c # x" "tagged (c + 1) xs \<in> shuffles qa qb"
    and l: "lock = cf_a_lck cf \<or> lock = cf_b_lck cf"
    and m4: "m4 = copy_words (m2(lock := 0)) (item - 8) tagged_item 1 w"
  shows "fifo (m4(cf_curr_tag cf := m4 (cf_curr_tag cf) + 1)) cf ca cb w F xs"
    "block_words (m4(cf_curr_tag cf := m4 (cf_curr_tag cf) + 1)) item (w - 1) = x"
    "same_except (F \<union> cells (item - 8) w) m2 (m4(cf_curr_tag cf := m4 (cf_curr_tag cf) + 1))"
proof -
  let ?m5 = "m4(cf_curr_tag cf := m4 (cf_curr_tag cf) + 1)" and ?m3 = "m2(lock := 0)"
  have sh: "ring_shape a (m2 (rb_buf a)) ca w" by (rule ring_queueD(1) [OF q(1)])
  have w: "w \<noteq> 0" "unat w \<le> 2 ^ 60" using ring_capacity(1) [OF sh] ring_word_bound [OF sh] by auto
  have lk: "lock \<in> fifo_cells cf" "cf_curr_tag cf \<in> fifo_cells cf" using l by (auto simp: fifo_cells_def)
  have d: "cells (item - 8) w \<inter> cells tagged_item w = {}" using i by blast
  have "block_words ?m3 tagged_item w = c # x"
    unfolding t(1) [symmetric] by (rule block_words_cong) (use lk R(3,4) in auto)
  note o = copy_item_out [OF w d this, folded m4]
  have "lock \<in> F \<union> cells (item - 8) w" "cf_curr_tag cf \<in> F \<union> cells (item - 8) w" using lk R(3) by blast+
  moreover have "same_except (F \<union> cells (item - 8) w) ?m3 m4" by (rule same_except_mono [OF o(2)]) simp
  ultimately show "same_except (F \<union> cells (item - 8) w) m2 ?m5"
    using same_except_trans [of "F \<union> cells (item - 8) w" m2 ?m3 m4]
    by (simp only: same_except_write same_except_refl simp_thms)
  have F: "m4 y = ?m3 y" if "y \<in> F" for y by (rule same_exceptD [OF o(2)]) (use that i in blast)
  have cA: "?m5 (cf_A cf) = a" "?m5 (cf_B cf) = b" "?m5 (cf_curr_tag cf) = c + 1"
    "?m5 (cf_tag cf) = c + 1 + of_nat (length xs)"
    using l s F [of "cf_A cf"] F [of "cf_B cf"] F [of "cf_curr_tag cf"] F [of "cf_tag cf"]
    by (auto simp: R(3) fifo_cells_def fifo_neq)
  have e: "?m5 y = m2 y" if "y \<in> RA \<union> RB" for y
  proof -
    have "y \<noteq> lock" "y \<noteq> cf_curr_tag cf" using that lk R(2) by blast+
    then show ?thesis using F [of y] that R(3) by simp
  qed
  have "ring_queue ?m5 a ca w RA qa" by (rule ring.frame [OF q(1)]) (use e in blast)
  moreover have "ring_queue ?m5 b cb w RB qb" by (rule ring.frame [OF q(2)]) (use e in blast)
  ultimately show "fifo ?m5 cf ca cb w F xs" by (rule fifoI [OF _ _ R cA(1,2,3) t(2) cA(4)])
  have "cells item (w - 1) \<subseteq> cells (item - 8) w"
  proof
    fix y assume "y \<in> cells item (w - 1)"
    then obtain j where j: "j < w - 1" "y = item + 8 * j" by (auto simp: cells_def)
    then have "j + 1 < w" using w(1) by (simp add: word_less_nat_alt unat_minus_one unat_suc [OF j(1)] unat_gt_0)
    then have "item - 8 + 8 * (j + 1) \<in> cells (item - 8) w" by (rule cellsI)
    then show "y \<in> cells (item - 8) w" by (simp add: j(2) algebra_simps)
  qed
  then have "cf_curr_tag cf \<notin> cells item (w - 1)" using i lk(2) R(3) by blast
  then show "block_words ?m5 item (w - 1) = x"
    unfolding o(1) [symmetric] by (intro block_words_cong) auto
qed

lemma fifo_take:
  assumes q: "ring_queue m a ca w RA (z # qa)" "ring_queue m b cb w RB qb"
    and R: "RA \<inter> RB = {}" "fifo_cells cf \<inter> (RA \<union> RB) = {}" "(fifo_cells cf \<union> RA \<union> RB) \<inter> cells tagged_item w = {}"
    and l: "lock = cf_a_lck cf \<or> lock = cf_b_lck cf"
    and m2: "m2 = ring_buf_pop (m(lock := 1)) a tagged_item"
  shows "ring_queue m2 a ca w RA qa" "ring_queue m2 b cb w RB qb" "block_words m2 tagged_item w = z"
    "same_except (fifo_cells cf \<union> RA \<union> cells tagged_item w) m m2"
    "y \<in> fifo_cells cf \<Longrightarrow> y \<noteq> lock \<Longrightarrow> m2 y = m y"
proof -
  let ?m1 = "m(lock := 1)"
  have lk: "lock \<in> fifo_cells cf" using l by (auto simp: fifo_cells_def)
  then have n: "lock \<notin> RA" "lock \<notin> RB" using R(2) by blast+
  have r: "ring_queue ?m1 a ca w RA (z # qa)" "ring_queue ?m1 b cb w RB qb"
    by (rule ring.frame [OF q(1)], use n in simp) (rule ring.frame [OF q(2)], use n in simp)
  have "tagged_item \<noteq> 0" "cells tagged_item w \<inter> RA = {}" using R(3) by (simp add: tagged_item_def, blast)
  from ring.pop_law [OF r(1) this, folded m2]
  have o: "ring_queue m2 a ca w RA qa" "block_words m2 tagged_item w = z"
    "same_except (RA \<union> cells tagged_item w) ?m1 m2" by blast+
  then show "ring_queue m2 a ca w RA qa" "block_words m2 tagged_item w = z" by blast+
  show "ring_queue m2 b cb w RB qb"
    by (rule ring.frame [OF r(2)]) (use o(3) R(1,3) in \<open>unfold same_except_def, blast\<close>)
  have "same_except (fifo_cells cf \<union> RA \<union> cells tagged_item w) m ?m1"
    using lk by (simp only: same_except_write same_except_refl UnI1)
  then show "same_except (fifo_cells cf \<union> RA \<union> cells tagged_item w) m m2"
    by (rule same_except_trans) (rule same_except_mono [OF o(3)], blast)
  assume "y \<in> fifo_cells cf" "y \<noteq> lock"
  moreover from this(1) have "m2 y = ?m1 y" using R(2,3) by (intro same_exceptD [OF o(3)]) blast
  ultimately show "m2 y = m y" by simp
qed

text \<open>
  The next item is taken from the buffer that holds it and put where the caller wants it; an empty
  FIFO is left as it is and 1 is returned.
\<close>

lemma fifo_pop:
  assumes f: "fifo m cf ca cb w F xs"
    and i: "cells (item - 8) w \<inter> (F \<union> cells tagged_item w) = {}"
  shows "case xs of
      [] \<Rightarrow> concurrent_fifo_pop m cf item = (m, 1)
    | x # xs' \<Rightarrow> \<exists>m'. concurrent_fifo_pop m cf item = (m', 0) \<and> fifo m' cf ca cb w F xs' \<and>
        block_words m' item (w - 1) = x \<and> same_except (F \<union> cells tagged_item w \<union> cells (item - 8) w) m m'"
proof -
  obtain qa qb where fp: "fifo_parts m cf ca cb w F xs qa qb" using f unfolding fifo_def by blast
  then obtain RA RB where R: "ring_queue m (m (cf_A cf)) ca w RA qa" "ring_queue m (m (cf_B cf)) cb w RB qb"
    "RA \<inter> RB = {}" "fifo_cells cf \<inter> (RA \<union> RB) = {}" "F = fifo_cells cf \<union> RA \<union> RB"
    "F \<inter> cells tagged_item w = {}" "tagged (m (cf_curr_tag cf)) xs \<in> shuffles qa qb"
    "m (cf_tag cf) = m (cf_curr_tag cf) + of_nat (length xs)" by (rule fifo_partsE)
  let ?A = "m (cf_A cf)" and ?B = "m (cf_B cf)" and ?c = "m (cf_curr_tag cf)"
  have sz: "ring_buf_item_sz m ?A = w" using ring_queueD(4) [OF R(1)] by (simp add: ring_buf_item_sz_def)
  have emp: "ring_buf_isempty m ?A \<longleftrightarrow> qa = []" "ring_buf_isempty m ?B \<longleftrightarrow> qb = []"
    by (rule ring.empty_law [OF R(1)], rule ring.empty_law [OF R(2)])
  have peek: "qa \<noteq> [] \<Longrightarrow> m (m (rb_buf ?A) + 8 * (w * m (rb_tail ?A))) = hd (hd qa)"
    "qb \<noteq> [] \<Longrightarrow> m (m (rb_buf ?B) + 8 * (w * m (rb_tail ?B))) = hd (hd qb)"
    using ring_peek [of m ?A ca w RA "hd qa" "tl qa"] ring_peek [of m ?B cb w RB "hd qb" "tl qb"] R(1,2) by simp_all
  have ta: "(\<not> ring_buf_isempty m ?A \<and> ?c = m (m (rb_buf ?A) + 8 * (w * m (rb_tail ?A)))) \<longleftrightarrow> qa \<noteq> [] \<and> hd (hd qa) = ?c"
    and tb: "(\<not> ring_buf_isempty m ?B \<and> ?c = m (m (rb_buf ?B) + 8 * (w * m (rb_tail ?B)))) \<longleftrightarrow> qb \<noteq> [] \<and> hd (hd qb) = ?c"
    using peek emp by auto
  have R3: "(fifo_cells cf \<union> RA \<union> RB) \<inter> cells tagged_item w = {}"
    "(fifo_cells cf \<union> RB \<union> RA) \<inter> cells tagged_item w = {}" "RB \<inter> RA = {}" "fifo_cells cf \<inter> (RB \<union> RA) = {}"
    using R(3-6) by blast+
  note pop = concurrent_fifo_pop_def [of m cf item, unfolded Let_def sz ta tb]
  show ?thesis
  proof (cases xs)
    case Nil
    then have "qa = []" "qb = []" using R(7) by simp_all
    then show ?thesis using Nil by (simp add: pop)
  next
    case (Cons x xs')
    have l: "length xs' < 2 ^ 62" using fifo_length(1) [OF fp] Cons by simp
    note nx = next_item [OF R(7) [unfolded Cons] l]
    have tg: "m (cf_tag cf) = ?c + of_nat (Suc (length xs'))" using R(8) Cons by simp
    show ?thesis
    proof (cases "qa \<noteq> [] \<and> hd (hd qa) = ?c")
      case True
      then obtain qa' where qa: "qa = (?c # x) # qa'" "tagged (?c + 1) xs' \<in> shuffles qa' qb"
        using nx by (cases qa) auto
      note t = fifo_take [OF R(1) [unfolded qa(1)] R(2-4) R3(1) disjI1 [OF refl] refl]
      let ?m2 = "ring_buf_pop (m(cf_a_lck cf := 1)) ?A tagged_item"
      have fl: "?m2 (cf_A cf) = ?A" "?m2 (cf_B cf) = ?B" "?m2 (cf_curr_tag cf) = ?c"
        "?m2 (cf_tag cf) = ?c + of_nat (Suc (length xs'))"
        unfolding tg [symmetric] by (rule t(5), simp_all add: fifo_cells_def fifo_neq)+
      note fin = fifo_finish [OF t(1,2) R(3-6) i fl t(3) qa(2) disjI1 [OF refl] refl]
      show ?thesis unfolding Cons list.case pop if_P [OF True] by (rule exI, rule conjI [OF refl conjI [OF fin(1) conjI [OF fin(2)
          same_except_trans [OF same_except_mono [OF t(4)] same_except_mono [OF fin(3)]]]]]) (use R(5) in blast)+
    next
      case False
      then have "qb \<noteq> []" "hd qb = ?c # x" "tagged (?c + 1) xs' \<in> shuffles qa (tl qb)" using nx by blast+
      then obtain qb' where qb: "qb = (?c # x) # qb'" "tagged (?c + 1) xs' \<in> shuffles qa qb'"
        by (cases qb) auto
      have True: "qb \<noteq> [] \<and> hd (hd qb) = ?c" using qb(1) by simp
      note t = fifo_take [OF R(2) [unfolded qb(1)] R(1) R3(3,4,2) disjI2 [OF refl] refl]
      let ?m2 = "ring_buf_pop (m(cf_b_lck cf := 1)) ?B tagged_item"
      have fl: "?m2 (cf_A cf) = ?A" "?m2 (cf_B cf) = ?B" "?m2 (cf_curr_tag cf) = ?c"
        "?m2 (cf_tag cf) = ?c + of_nat (Suc (length xs'))"
        unfolding tg [symmetric] by (rule t(5), simp_all add: fifo_cells_def fifo_neq)+
      note fin = fifo_finish [OF t(2,1) R(3-6) i fl t(3) qb(2) disjI2 [OF refl] refl]
      show ?thesis
        unfolding Cons list.case pop if_not_P [OF False] if_P [OF True] by (rule exI, rule conjI [OF refl conjI [OF fin(1) conjI [OF fin(2)
          same_except_trans [OF same_except_mono [OF t(4)] same_except_mono [OF fin(3)]]]]]) (use R(5) in blast)+
    qed
  qed
qed

end
