(* ===== verification/Fifo_Props.thy ===== *)
theory Fifo_Props
  imports Fifo
begin

text \<open>
  The properties of the ring buffer and of the FIFO. \<open>ring_queue m rb c w A q\<close> says that the ring buffer
  \<open>rb\<close> with \<open>c\<close> slots of \<open>w\<close> words, on the words \<open>A\<close>, holds the items \<open>q\<close>, the oldest first;
  \<open>fifo m cf ca cb w F xs\<close> says the same of a FIFO with two such buffers, whose items \<open>xs\<close> are one word
  shorter than the slots.
\<close>

subsection \<open>Concrete buffers\<close>

lemma cells_bounds:
  assumes "x \<in> cells p n" "unat p + 8 * unat n < 2 ^ 64"
  shows "unat p \<le> unat x \<and> unat x < unat p + 8 * unat n"
proof -
  obtain j where j: "j < n" "x = p + 8 * j" using assms(1) by (auto simp: cells_def)
  have lt: "unat j < unat n" using j(1) by (simp add: word_less_nat_alt)
  then have "unat (8 * j) = 8 * unat j" using assms(2) by (intro unat_mult8) linarith
  then have "unat x = unat p + 8 * unat j" unfolding j(2) using lt assms(2) by (subst unat_add) linarith+
  with lt show ?thesis by simp
qed

definition demo_ring :: "u64 \<Rightarrow> u64 \<Rightarrow> mem \<Rightarrow> mem" where
  "demo_ring rb buf m = m(rb_buf rb := buf, rb_head rb := 0, rb_tail rb := 0, a_mem_sz buf := 9, a_item_sz buf := 2)"

lemma demo_cells:
  assumes "unat rb < 0x1800" "0x2000 \<le> unat buf" "unat buf < 0x3000"
  shows "x \<in> ring_cells rb \<Longrightarrow> unat rb \<le> unat x \<and> unat x < unat rb + 24"
    "x \<in> arr_cells buf \<Longrightarrow> unat buf \<le> unat x + 24 \<and> unat x < unat buf"
    "x \<in> cells buf 6 \<Longrightarrow> unat buf \<le> unat x \<and> unat x < unat buf + 48"
proof -
  have u: "unat (rb + 8) = unat rb + 8" "unat (rb + 16) = unat rb + 16"
    using assms(1) by (intro unat_add_lit, simp)+
  have s: "unat (buf - 24) = unat buf - 24" "unat (buf - 16) = unat buf - 16" "unat (buf - 8) = unat buf - 8"
    using assms(2) by (simp_all add: unat_sub word_le_nat_alt)
  show "x \<in> ring_cells rb \<Longrightarrow> unat rb \<le> unat x \<and> unat x < unat rb + 24"
    using u by (auto simp: ring_cells_def ring_fields)
  show "x \<in> arr_cells buf \<Longrightarrow> unat buf \<le> unat x + 24 \<and> unat x < unat buf"
    using assms(2) s by (auto simp: arr_cells_def array_fields)
  show "x \<in> cells buf 6 \<Longrightarrow> unat buf \<le> unat x \<and> unat x < unat buf + 48"
    using cells_bounds [of x buf 6] assms(3) by simp
qed

lemma demo_ring_queue:
  assumes "unat rb < 0x1800" "0x2000 \<le> unat buf" "unat buf < 0x3000"
  shows "ring_queue (demo_ring rb buf m) rb 3 2 (ring_area rb buf 3 2) []"
proof (rule ring_queueI [OF _ refl, where t = 0])
  note c = demo_cells [OF assms]
  have d: "x \<noteq> y" if "x \<in> ring_cells rb" "y \<in> arr_cells buf \<union> cells buf 6" for x y
    using c(1) [OF that(1)] c(2,3) [of y] that(2) assms(1,2) by auto
  have e: "x \<noteq> y" if "x \<in> arr_cells buf" "y \<in> cells buf 6" for x y
    using c(2) [OF that(1)] c(3) [OF that(2)] by auto
  show "ring_shape rb buf 3 2" unfolding ring_shape_def using d e by (simp add: disjoint_iff) blast
  have n: "a_mem_sz buf \<noteq> a_item_sz buf" by (simp add: array_fields)
  have rn: "rb_buf rb \<noteq> a_mem_sz buf" "rb_head rb \<noteq> a_mem_sz buf" "rb_tail rb \<noteq> a_mem_sz buf"
    "rb_buf rb \<noteq> a_item_sz buf" "rb_head rb \<noteq> a_item_sz buf" "rb_tail rb \<noteq> a_item_sz buf"
    by (rule d, simp_all add: ring_cells_def arr_cells_def)+
  note hd = ring_cells_distinct [of rb]
  show "array_capacity (demo_ring rb buf m) buf = of_nat 3"
    using n by (simp add: demo_ring_def array_capacity_def Array_bsz_def)
  show "demo_ring rb buf m (rb_buf rb) = buf" "demo_ring rb buf m (rb_tail rb) = of_nat 0"
    "demo_ring rb buf m (rb_head rb) = of_nat ((0 + length []) mod 3)"
    using rn hd by (simp_all add: demo_ring_def)
qed (simp_all add: demo_ring_def)

lemma demo_area:
  assumes "unat rb < 0x1800" "0x2000 \<le> unat buf" "unat buf < 0x3000" "x \<in> ring_area rb buf 3 2"
  shows "unat rb \<le> unat x \<and> unat x < unat rb + 24 \<or> unat buf \<le> unat x + 24 \<and> unat x < unat buf + 48"
proof -
  consider "x \<in> ring_cells rb" | "x \<in> arr_cells buf" | "x \<in> cells buf 6"
    using assms(4) by (auto simp: ring_area_def)
  then show ?thesis
  proof cases
    case 1 from demo_cells(1) [OF assms(1-3) this] show ?thesis by simp
  next
    case 2 from demo_cells(2) [OF assms(1-3) this] show ?thesis by simp
  next
    case 3 from demo_cells(3) [OF assms(1-3) this] assms(2) show ?thesis by simp
  qed
qed

text \<open>Blocks above the buffers are apart from them.\<close>

lemma demo_apart:
  assumes "unat rb < 0x1800" "0x2000 \<le> unat buf" "unat buf < 0x3000" "0x4000 \<le> unat p" "unat p + 8 * unat n < 2 ^ 64"
  shows "cells p n \<inter> ring_area rb buf 3 2 = {}"
proof -
  have "x \<notin> ring_area rb buf 3 2" if "x \<in> cells p n" for x
  proof
    assume "x \<in> ring_area rb buf 3 2"
    from demo_area [OF assms(1-3) this] cells_bounds [OF that assms(5)] assms show False by linarith
  qed
  then show ?thesis by blast
qed

subsection \<open>The ring buffer\<close>

text \<open>The tests of a ring buffer: empty means no item, full means all slots but one are in use.\<close>

theorem ring_buf_tests_correct:
  assumes "ring_queue m rb c w A q"
  shows "(ring_buf_isempty m rb \<longleftrightarrow> q = []) \<and> (ring_buf_isfull m rb \<longleftrightarrow> length q + 1 = c)"
  using ring.empty_law [OF assms] ring.full_law [OF assms] by blast

theorem ring_buf_tests_correct_witness:
  "ring_buf_isempty (demo_ring 0x1000 0x2000 (\<lambda>_. 0)) 0x1000 \<and>
   \<not> ring_buf_isfull (demo_ring 0x1000 0x2000 (\<lambda>_. 0)) 0x1000"
  using ring_buf_tests_correct [OF demo_ring_queue [of "0x1000" "0x2000" "\<lambda>_. 0"]] by simp

text \<open>
  C30. \<open>ring_buf_add\<close> on a buffer that is not full appends the item, also when the indices wrap round,
  and writes only words of the buffer.
\<close>

theorem ring_buf_add_correct:
  assumes "ring_queue m rb c w A q" "length q + 1 < c" "cells item w \<inter> A = {}"
  shows "ring_queue (ring_buf_add m rb item) rb c w A (q @ [block_words m item w]) \<and>
    same_except A m (ring_buf_add m rb item)"
  by (rule ring.add_law [OF assms])

theorem ring_buf_add_correct_witness:
  "\<exists>A. ring_queue (ring_buf_add (demo_ring 0x1000 0x2000 (\<lambda>_. 0)) 0x1000 0x5000) 0x1000 3 2 A [[0, 0]]"
proof -
  let ?m = "demo_ring 0x1000 0x2000 (\<lambda>_. 0)" and ?A = "ring_area 0x1000 0x2000 3 2"
  have "cells 0x5000 2 \<inter> ?A = {}"
    using demo_apart [of "0x1000" "0x2000"] by simp
  from ring_buf_add_correct [OF demo_ring_queue _ this, of "\<lambda>_. 0"]
  have "ring_queue (ring_buf_add ?m 0x1000 0x5000) 0x1000 3 2 ?A [block_words ?m 0x5000 2]" by simp
  moreover have "block_words ?m 0x5000 2 = [0, 0]"
    by (simp add: block_words_def demo_ring_def ring_fields array_fields upt_rec)
  ultimately show ?thesis by auto
qed

text \<open>
  C31. \<open>ring_buf_pop\<close> on a buffer that is not empty removes the oldest item and copies it to the caller's
  block.
\<close>

theorem ring_buf_pop_correct:
  assumes "ring_queue m rb c w A (x # q)" "item \<noteq> 0" "cells item w \<inter> A = {}"
  shows "ring_queue (ring_buf_pop m rb item) rb c w A q \<and> block_words (ring_buf_pop m rb item) item w = x \<and>
    same_except (A \<union> cells item w) m (ring_buf_pop m rb item)"
  by (rule ring.pop_law [OF assms])

lemma demo_ring_one:
  "\<exists>m. ring_queue m 0x1000 3 2 (ring_area 0x1000 0x2000 3 2) [[0, 0]]"
proof -
  let ?m = "demo_ring 0x1000 0x2000 (\<lambda>_. 0)"
  have "cells 0x5000 2 \<inter> ring_area 0x1000 0x2000 3 2 = {}"
    using demo_apart [of "0x1000" "0x2000"] by simp
  moreover have "ring_queue ?m 0x1000 3 2 (ring_area 0x1000 0x2000 3 2) []"
    by (rule demo_ring_queue) simp_all
  ultimately have "ring_queue (ring_buf_add ?m 0x1000 0x5000) 0x1000 3 2 (ring_area 0x1000 0x2000 3 2)
      ([] @ [block_words ?m 0x5000 2])" by (intro ring_add) simp_all
  moreover have "block_words ?m 0x5000 2 = [0, 0]"
    by (simp add: block_words_def demo_ring_def ring_fields array_fields upt_rec)
  ultimately show ?thesis by auto
qed

theorem ring_buf_pop_correct_witness:
  "\<exists>m A. ring_queue (ring_buf_pop m 0x1000 0x5000) 0x1000 3 2 A [] \<and>
     block_words (ring_buf_pop m 0x1000 0x5000) 0x5000 2 = [0, 0]"
proof -
  obtain m where m: "ring_queue m 0x1000 3 2 (ring_area 0x1000 0x2000 3 2) [[0, 0]]"
    using demo_ring_one by blast
  have "cells 0x5000 2 \<inter> ring_area 0x1000 0x2000 3 2 = {}"
    using demo_apart [of "0x1000" "0x2000"] by simp
  from ring_buf_pop_correct [OF m _ this] show ?thesis by auto
qed

subsection \<open>The FIFO\<close>

text \<open>
  C14. \<open>concurrent_fifo_add\<close> adds the item as the last one and returns 0 when one of the two buffers is
  neither locked nor full; otherwise it returns 1 and the items are as before. In
  particular an item that arrives while one buffer is locked keeps its place in the order.
\<close>

theorem concurrent_fifo_add_correct:
  assumes "fifo_parts m cf ca cb w F xs qa qb"
    "cells (item - 8) w \<inter> (fifo_cells cf \<union> cells tagged_item w) = {}"
  shows "\<exists>m' r. concurrent_fifo_add m cf item = (m', r) \<and>
    (if m (cf_a_lck cf) = 0 \<and> length qa + 1 < ca \<or> m (cf_b_lck cf) = 0 \<and> length qb + 1 < cb
     then r = 0 \<and> fifo m' cf ca cb w F (xs @ [block_words m item (w - 1)])
     else r = 1 \<and> fifo m' cf ca cb w F xs)"
  by (rule fifo_add [OF assms])

text \<open>A FIFO with two empty buffers; the first one is locked.\<close>

definition demo_fifo :: mem where
  "demo_fifo = (demo_ring 0x1000 0x2000 (demo_ring 0x1100 0x2100 (\<lambda>_. 0)))
     (cf_A 0x3000 := 0x1000, cf_B 0x3000 := 0x1100, cf_a_lck 0x3000 := 1)"

definition demo_words :: "u64 set" where
  "demo_words = fifo_cells 0x3000 \<union> ring_area 0x1000 0x2000 3 2 \<union> ring_area 0x1100 0x2100 3 2"

lemma demo_fifo_cells: "x \<in> fifo_cells 0x3000 \<Longrightarrow> 0x3000 \<le> unat x \<and> unat x < 0x3030"
  by (auto simp: fifo_cells_def fifo_fields)

lemma demo_ring_out: "x \<notin> ring_area rb buf 3 2 \<Longrightarrow> demo_ring rb buf m x = m x"
  by (auto simp: demo_ring_def ring_area_def ring_cells_def arr_cells_def)

lemma demo_fifo_out: "x \<notin> fifo_cells 0x3000 \<Longrightarrow>
    demo_fifo x = demo_ring 0x1000 0x2000 (demo_ring 0x1100 0x2100 (\<lambda>_. 0)) x"
  by (auto simp: demo_fifo_def fifo_cells_def)

lemma demo_fifo_parts: "fifo_parts demo_fifo 0x3000 3 3 2 demo_words [] [] []"
proof -
  let ?A = "ring_area 0x1000 0x2000 3 2" and ?B = "ring_area 0x1100 0x2100 3 2"
  note a = demo_area [of "0x1000" "0x2000", simplified] and b = demo_area [of "0x1100" "0x2100", simplified]
  have c: "x \<notin> fifo_cells 0x3000" if "x \<in> ?A \<union> ?B" for x
    using that a [of x] b [of x] demo_fifo_cells [of x] by auto
  have d: "x \<notin> ?B" if "x \<in> ?A" for x
    using that a [of x] b [of x] by auto
  have d': "x \<notin> ?A" if "x \<in> ?B" for x using d that by blast
  have q: "ring_queue demo_fifo 0x1000 3 2 ?A []"
    by (rule ring_frame [OF demo_ring_queue [where m = "demo_ring 0x1100 0x2100 (\<lambda>_. 0)"]])
      (use c demo_fifo_out in auto)
  have q2: "ring_queue demo_fifo 0x1100 3 2 ?B []"
    by (rule ring_frame [OF demo_ring_queue [where m = "\<lambda>_. 0"]])
      (use c d' in \<open>auto simp: demo_fifo_out demo_ring_out\<close>)
  have t: "x \<notin> cells tagged_item 2" if "x \<in> demo_words" for x
    using that a [of x] b [of x] demo_fifo_cells [of x] cells_bounds [of x tagged_item 2]
    by (auto simp: demo_words_def tagged_item_def)
  have f: "demo_fifo (cf_A 0x3000) = 0x1000" "demo_fifo (cf_B 0x3000) = 0x1100"
    "demo_fifo (cf_curr_tag 0x3000) = 0" "demo_fifo (cf_tag 0x3000) = 0"
    by (simp_all add: demo_fifo_def demo_ring_def fifo_fields ring_fields array_fields)
  have "?A \<inter> ?B = {}" "fifo_cells 0x3000 \<inter> (?A \<union> ?B) = {}" "demo_words \<inter> cells tagged_item 2 = {}"
    using c d t by blast+
  then show ?thesis
    unfolding fifo_parts_def f using q q2
    by (intro exI [of _ ?A] exI [of _ ?B]) (simp add: demo_words_def)
qed

text \<open>Blocks between the FIFO and the stack are apart from both.\<close>

lemma demo_item:
  assumes "x \<in> cells 0x4ff8 2"
  shows "x \<notin> demo_words \<union> cells tagged_item 2"
  using cells_bounds [OF assms] demo_area [of "0x1000" "0x2000" x] demo_area [of "0x1100" "0x2100" x]
    demo_fifo_cells [of x] cells_bounds [of x tagged_item 2]
  by (auto simp: demo_words_def tagged_item_def)

theorem concurrent_fifo_add_correct_witness:
  "\<exists>m'. concurrent_fifo_add demo_fifo 0x3000 0x5000 = (m', 0) \<and> fifo m' 0x3000 3 3 2 demo_words [[0]]"
proof -
  have "cells (0x5000 - 8) 2 \<inter> (fifo_cells 0x3000 \<union> cells tagged_item 2) = {}"
    using demo_item by (auto simp: demo_words_def)
  from concurrent_fifo_add_correct [OF demo_fifo_parts this]
  have "\<exists>m'. concurrent_fifo_add demo_fifo 0x3000 0x5000 = (m', 0) \<and>
      fifo m' 0x3000 3 3 2 demo_words [block_words demo_fifo 0x5000 1]"
    by (auto simp: demo_fifo_def demo_ring_def fifo_fields ring_fields array_fields)
  moreover have "block_words demo_fifo 0x5000 1 = [0]"
    by (simp add: block_words_def demo_fifo_def demo_ring_def fifo_fields ring_fields array_fields)
  ultimately show ?thesis by simp
qed

text \<open>
  C6. \<open>concurrent_fifo_pop\<close> returns the items in the order in which they were added, from whichever buffer
  holds the next one; it writes only words of the FIFO, of the item and of its own local array. An
  empty FIFO is left as it is and 1 is returned.
\<close>

theorem concurrent_fifo_pop_correct:
  assumes "fifo m cf ca cb w F xs" "cells (item - 8) w \<inter> (F \<union> cells tagged_item w) = {}"
  shows "case xs of
      [] \<Rightarrow> concurrent_fifo_pop m cf item = (m, 1)
    | x # xs' \<Rightarrow> \<exists>m'. concurrent_fifo_pop m cf item = (m', 0) \<and> fifo m' cf ca cb w F xs' \<and>
        block_words m' item (w - 1) = x \<and> same_except (F \<union> cells tagged_item w \<union> cells (item - 8) w) m m'"
  by (rule fifo_pop [OF assms])

theorem concurrent_fifo_pop_correct_witness:
  "\<exists>m m'. concurrent_fifo_pop m 0x3000 0x5000 = (m', 0) \<and> m' 0x5000 = 0 \<and>
     fifo m' 0x3000 3 3 2 demo_words []"
proof -
  have i: "cells (0x5000 - 8) 2 \<inter> (demo_words \<union> cells tagged_item 2) = {}"
    using demo_item by auto
  then have "cells (0x5000 - 8) 2 \<inter> (fifo_cells 0x3000 \<union> cells tagged_item 2) = {}"
    by (auto simp: demo_words_def)
  from fifo_add [OF demo_fifo_parts this] obtain m where
    "fifo m 0x3000 3 3 2 demo_words [block_words demo_fifo 0x5000 1]"
    by (auto simp: demo_fifo_def demo_ring_def fifo_fields ring_fields array_fields)
  moreover have "block_words demo_fifo 0x5000 1 = [0]"
    by (simp add: block_words_def demo_fifo_def demo_ring_def fifo_fields ring_fields array_fields)
  ultimately have "fifo m 0x3000 3 3 2 demo_words [[0]]" by simp
  from concurrent_fifo_pop_correct [OF this i] show ?thesis by (auto simp: block_words_def)
qed

end
