(* ===== verification/Vm_Props.thy ===== *)
theory Vm_Props
  imports Asm_Text Fifo_Props Num_Value
begin

text \<open>
  The properties of the virtual machine: the format of the instructions, the arithmetic instructions,
  and the way into and out of an exception handler.
\<close>

subsection \<open>Registers\<close>

lemma reg_neq [simp]:
  assumes "i \<le> 32" "j \<le> 32"
  shows "reg regs i = reg regs j \<longleftrightarrow> i = j"
proof -
  have u: "unat (8 * k :: u64) = 8 * unat k" if "k \<le> 32" for k
    using that by (intro unat_mult8) (simp add: word_le_nat_alt)
  show ?thesis unfolding reg_def add_left_cancel using u [OF assms(1)] u [OF assms(2)]
    by (auto simp: word_unat_eq_iff)
qed

lemma reg_alias_neq [simp]:
  "r_sp = 24" "r_lr = 27" "r_ir = 28" "r_rr = 29" "r_pc = 30" "r_sr = 31"
  by (simp_all add: reg_aliases asm_consts)

subsection \<open>The format of the instructions\<close>

text \<open>
  C35. The machine decodes what the assembler makes of the text. When the text at the index of the assembler
  is an instruction (its name, blanks, registers with blanks behind them, and a register or a number with
  or without a minus sign, each in any spelling with up to sixteen digits; the number is small enough for
  the operand), then \<open>compile_token\<close> appends the word with the fields of the opcode and the operands and
  goes on behind the blanks that follow. Of this word the machine gets the opcode back and the
  operands: the numbers of the registers, and for a number the hidden register 32, which then holds
  the number with its sign. This covers all sixteen instructions, those with three operands and \<open>exc\<close>
  with one; labels as operands are not covered.
\<close>

theorem instruction_roundtrip:
  assumes "line_spelled opc ws ops l" "\<not> a_failed s" "length args = mx_reg_args"
    and "text_at (a_mem s) code sz (a_idx s) (line_chars opc ws ops l)"
    and "word_end (a_mem s) code sz (a_idx s + of_nat (length (line_chars opc ws ops l)))"
  shows "let n = op_args (opcodes ! unat opc); w = encode opc (map fst ops) (last_value n l) in
    (\<exists>s0. s0 = s\<lparr>a_idx := a_idx s0\<rparr> \<and> compile_token heap code sz s = append_instr heap code sz s0 w
       (ignore_whitespace (a_mem s) code sz (a_idx s + of_nat (length (line_chars opc ws ops l))))) \<and>
    instr_opcode w = opc \<and> fst (instructions ! unat opc) = n \<and>
    decode_args m regs w n args = (case l of
        Last_Reg r ds \<Rightarrow> (m, map fst ops @ [r] @ drop (unat n) args)
      | Last_Num neg v ds \<Rightarrow> (m(reg regs 32 := if neg then - v else v), map fst ops @ [32] @ drop (unat n) args))"
proof -
  have opc: "opc < 16" "Suc (length ops) = unat (op_args (opcodes ! unat opc))"
    using assms(1) by (simp_all add: line_spelled_def)
  note c = compile_token_text [OF assms(1,2,4,5), of heap]
  note d = decode_line(1) [OF assms(1,3)] decode_line(2) [OF assms(1,3), of m regs]
  show ?thesis
    unfolding Let_def line_word_def [symmetric] opc(2) [symmetric]
    using c d opcode_cases(2) [OF opc(1)]
    by (cases l) (auto simp: line_args_def line_mem_def simp del: fun_upd_apply)
qed

text \<open>The text \<^verbatim>\<open>ads r5 r6 -1f\<close> at 0x1000.\<close>

definition demo_text :: mem where
  "demo_text = (\<lambda>x. if 0x1000 \<le> x \<and> x < 0x1068 then lit ''ads r5 r6 -1f'' ! (unat (x - 0x1000) div 8) else 0)"

definition demo_asm :: asm where
  "demo_asm = \<lparr>a_mem = demo_text, a_arr = 0, a_refs = 0, a_lbls = 0, a_pc = 0, a_idx = 0, a_failed = False\<rparr>"

theorem instruction_roundtrip_witness:
  "let w = encode 1 [5, 6] (Imm ((NOT 0x1f + 1) AND get_flx_op_mask 3)) in
     (\<exists>s0. compile_token 0x80000 0x1000 13 demo_asm =
        append_instr 0x80000 0x1000 13 s0 w (ignore_whitespace demo_text 0x1000 13 13)) \<and>
     decode_args (\<lambda>_. 0) 0x6000 w 3 (replicate 10 0) =
       ((\<lambda>_. 0)(reg 0x6000 32 := - 0x1f), [5, 6, 32, 0, 0, 0, 0, 0, 0, 0])"
proof -
  let ?ops = "[(5, lit ''5'', [32]), (6, lit ''6'', [32])] :: reg_text list" and ?l = "Last_Num True 0x1f (lit ''1f'')"
  have o: "opcodes ! unat (1 :: u64) = Ads" by (simp add: opcodes_def)
  have mask: "get_flx_op_mask 3 = 0x3fffffffffff"
    by (simp add: get_flx_op_mask_def shr_def asm_consts mask_eq_exp_minus_1)
  have sp: "line_spelled 1 [32] ?ops ?l"
    unfolding line_spelled_def o
    by (simp add: blanks_def whitespace_def spells_def lit_def hex_val_def mask)
  have ch: "line_chars 1 [32] ?ops ?l = lit ''ads r5 r6 -1f''"
    unfolding line_chars_def o by (simp add: lit_def)
  have t: "text_at (a_mem demo_asm) 0x1000 13 (a_idx demo_asm) (line_chars 1 [32] ?ops ?l)"
    unfolding ch by (simp add: demo_asm_def demo_text_def lit_def)
  have e: "word_end (a_mem demo_asm) 0x1000 13 (a_idx demo_asm + of_nat (length (line_chars 1 [32] ?ops ?l)))"
    unfolding ch by (simp add: demo_asm_def word_end_def lit_def)
  have f: "\<not> a_failed demo_asm" "length (replicate 10 (0 :: u64)) = mx_reg_args"
    by (simp_all add: demo_asm_def mx_reg_args_def)
  have r: "replicate 10 (0 :: u64) = [0, 0, 0, 0, 0, 0, 0, 0, 0, 0]" by (simp add: eval_nat_numeral)
  show ?thesis
    using instruction_roundtrip [OF sp f t e, of "0x80000" "\<lambda>_. 0" "0x6000"]
    unfolding Let_def o ch op_args.simps last_value.simps r
    by (auto simp: demo_asm_def lit_def simp del: fun_upd_apply)
qed

subsection \<open>Arithmetic\<close>

text \<open>What the arithmetic and logical instructions compute.\<close>

fun alu :: "opcode \<Rightarrow> (u64 \<Rightarrow> u64 \<Rightarrow> u64) option" where
  "alu Ads = Some (+)"
| "alu Sbs = Some (-)"
| "alu Mls = Some (*)"
| "alu Mlu = Some (*)"
| "alu And = Some (AND)"
| "alu Orr = Some (OR)"
| "alu Xor = Some (XOR)"
| "alu Nor = Some (\<lambda>x y. NOT (x OR y))"
| "alu Shf = Some shift_reg"
| "alu _ = None"

lemma alu_exec:
  assumes "alu opc = Some f"
  shows "exec svc regs rz sz opc args m =
    Next (m(reg regs (args ! 0) := f (m (reg regs (args ! 1))) (m (reg regs (args ! 2)))))"
proof -
  have "x + (NOT y + 1) = x - y" for x y :: u64 by (simp flip: minus_eq_not_plus_1)
  moreover have "word_of_int (sint x * sint y) = x * y" for x y :: u64 by simp
  ultimately show ?thesis using assms by (cases opc) (auto simp: Let_def)
qed

lemma alu_args: "alu (opcodes ! unat opc) = Some f \<Longrightarrow> (opc :: u64) < 16 \<Longrightarrow> fst (instructions ! unat opc) = 3"
proof -
  assume a: "alu (opcodes ! unat opc) = Some f" and o: "opc < 16"
  have "unat opc < length opcodes" using o by (simp add: opcodes_def word_less_nat_alt)
  then have "fst (instructions ! unat opc) = op_args (opcodes ! unat opc)" by (simp add: instructions_def)
  moreover have "alu op = Some f \<Longrightarrow> op_args op = 3" for op by (cases op) simp_all
  ultimately show ?thesis using a by simp
qed

text \<open>
  C38. A step of the machine on an assembled arithmetic instruction, with no exception waiting: the first
  register gets the result for the other two, modulo \<open>2 ^ 64\<close> (so signed and unsigned multiplication are
  the same, and subtraction is the one of words), and the machine goes on with the next word.
\<close>

theorem arithmetic_step:
  assumes "alu (opcodes ! unat opc) = Some f" "opc < 16" "r0 < 32" "r1 < 32" "r2 < 32" "length args = 10"
    and "concurrent_fifo_pop m exc_fifo exc_num = (m, 1)"
    and "m (m (reg regs r_pc) * 8) = encode opc [r0, r1] (Reg r2)"
  shows "let m' = m(reg regs r0 := f (m (reg regs r1)) (m (reg regs r2)))
    in vm_step svc exc_fifo regs rz sz (m, args, None) =
       Some (m'(reg regs r_pc := m' (reg regs r_pc) + 1), ((args[2 := r2])[1 := r1])[0 := r0], None)"
proof -
  have t: "take_exception exc_fifo regs sz m = m" using assms(7) by (simp add: take_exception_def)
  note d = decode_registers [OF assms(2-5)]
  have n: "((args[2 := r2])[1 := r1])[0 := r0] ! 0 = r0" "((args[2 := r2])[1 := r1])[0 := r0] ! 1 = r1"
    "((args[2 := r2])[1 := r1])[0 := r0] ! 2 = r2" using assms(6) by simp_all
  show ?thesis
    unfolding vm_step_def Let_def case_prod_conv t assms(8) d alu_args [OF assms(1,2)] alu_exec [OF assms(1)] n
    using assms(2) by (simp add: not_le)
qed


text \<open>
  A machine with registers at 0x6000, an empty FIFO of exceptions at 0x3000, and the instruction \<open>ads r3 r4 r5\<close>
  at 0x5000.
\<close>

definition demo_vm :: mem where
  "demo_vm = demo_fifo(0x60f0 := 0xa00, 0x5000 := encode 1 [3, 4] (Reg 5), 0x6020 := 5, 0x6028 := 7)"

lemma demo_vm_fifo: "fifo demo_vm 0x3000 3 3 2 demo_words []"
proof -
  have "demo_vm x = demo_fifo x" if "x \<in> demo_words" for x
    using that demo_area [of "0x1000" "0x2000" x] demo_area [of "0x1100" "0x2100" x] demo_fifo_cells [of x]
    by (auto simp: demo_words_def demo_vm_def)
  with fifo_parts_frame [OF demo_fifo_parts] show ?thesis unfolding fifo_def by blast
qed

lemma demo_exc_num: "cells (exc_num - 8) 2 \<inter> (demo_words \<union> cells tagged_item 2) = {}"
proof -
  have "x \<notin> demo_words \<union> cells tagged_item 2" if "x \<in> cells (exc_num - 8) 2" for x
    using cells_bounds [OF that] demo_area [of "0x1000" "0x2000" x] demo_area [of "0x1100" "0x2100" x]
      demo_fifo_cells [of x] cells_bounds [of x tagged_item 2]
    by (auto simp: demo_words_def tagged_item_def exc_num_def)
  then show ?thesis by blast
qed

theorem arithmetic_step_witness:
  "\<exists>m' args. vm_step (\<lambda>_ m. m) 0x3000 0x6000 1 2 (demo_vm, replicate mx_reg_args 0, None) = Some (m', args, None) \<and>
     m' (reg 0x6000 3) = 12 \<and> m' (reg 0x6000 r_pc) = 0xa01"
proof -
  have a: "alu (opcodes ! unat (1 :: u64)) = Some (+)" by (simp add: opcodes_def)
  have p: "concurrent_fifo_pop demo_vm 0x3000 exc_num = (demo_vm, 1)"
    using fifo_pop [OF demo_vm_fifo demo_exc_num] by simp
  have pc: "demo_vm (reg 0x6000 r_pc) = 0xa00" by (simp add: demo_vm_def reg_def)
  have r: "demo_vm (reg 0x6000 4) = 5" "demo_vm (reg 0x6000 5) = 7" by (simp_all add: demo_vm_def reg_def)
  have i: "demo_vm (demo_vm (reg 0x6000 r_pc) * 8) = encode 1 [3, 4] (Reg 5)"
    unfolding pc by (simp add: demo_vm_def)
  have l: "length (replicate mx_reg_args (0 :: u64)) = 10" by (simp add: mx_reg_args_def)
  note st = arithmetic_step [OF a _ _ _ _ l p i, of "\<lambda>_ m. m" 1 2, unfolded Let_def r]
  show ?thesis
    by (rule exI, rule exI, rule conjI, rule st) (simp_all add: pc [simplified] del: r_pc_def)
qed


subsection \<open>Shifts\<close>

lemma sint_unat: "sint (x :: u64) = (if unat x < 2 ^ 63 then int (unat x) else int (unat x) - 2 ^ 64)"
proof -
  define u P where "u = int (unat x)" and "P = (2 :: int) ^ 63"
  have P: "(2 :: int) ^ 64 = 2 * P" "0 < P" by (simp_all add: P_def)
  have "int (unat x) < int (2 ^ 64)" using unat_less_2p64 [of x] by (simp only: of_nat_less_iff)
  then have u: "0 \<le> u" "u < 2 * P" unfolding u_def P(1) [symmetric] by (simp, simp)
  have lt: "unat x < 2 ^ 63 \<longleftrightarrow> u < P"
    unfolding u_def P_def by (simp only: flip: of_nat_less_iff [where 'a = int]) simp
  have "uint x = u" by (simp add: u_def)
  then have s: "sint x = (u + P) mod (2 * P) - P"
    unfolding sint_uint signed_take_bit_eq_take_bit_shift take_bit_eq_mod by (simp add: P_def)
  show ?thesis unfolding lt u_def [symmetric] P(1)
  proof (cases "u < P")
    case True
    then have "(u + P) mod (2 * P) = u + P" using u by (intro mod_pos_pos_trivial) linarith+
    then show "sint x = (if u < P then u else u - 2 * P)" using s True by simp
  next
    case False
    have "u + P = u - P + 2 * P" by simp
    then have "(u + P) mod (2 * P) = (u - P) mod (2 * P)" by (simp only: mod_add_self2)
    also have "\<dots> = u - P" using False u by (intro mod_pos_pos_trivial) linarith+
    finally show "sint x = (if u < P then u else u - 2 * P)" using s False by simp
  qed
qed

lemma unat_neg: "x \<noteq> 0 \<Longrightarrow> unat (- x :: u64) = 2 ^ 64 - unat x"
proof -
  assume "x \<noteq> 0"
  then have x: "0 < unat x" by (simp add: unat_gt_0)
  have "unat (- x) = unat (0 - x)" by simp
  also have "\<dots> = 2 ^ 64 - unat x" using x unat_less_2p64 [of x]
    unfolding unat_sub_if' by simp
  finally show ?thesis .
qed

lemma sign_bit: "drop_bit 63 x AND 1 \<noteq> 0 \<longleftrightarrow> \<not> unat (x :: u64) < 2 ^ 63"
proof -
  have "drop_bit 63 x AND 1 = drop_bit 63 x" using drop_63(2) [of x] by auto
  moreover have "drop_bit 63 x = 0 \<longleftrightarrow> unat x < 2 ^ 63"
    by (simp add: word_unat_eq_iff drop_63(1) div_eq_0_iff)
  ultimately show ?thesis by simp
qed

lemma shift_distance:
  fixes sh :: u64
  shows "unat (min_s (abs_w sh) 64) mod 64 = (if \<bar>sint sh\<bar> < 64 then nat \<bar>sint sh\<bar> else 0)"
proof -
  obtain u where u: "unat sh = u" by blast
  have P: "(2 :: nat) ^ 64 = 2 * 2 ^ 63" "(64 :: nat) < 2 ^ 63" by simp_all
  have lt: "u < 2 ^ 64" using unat_less_2p64 [of sh] u by simp
  show ?thesis
  proof (cases "u < 2 ^ 63")
    case True
    then have a: "abs_w sh = sh" "sint sh = int u" using sign_bit [of sh] by (simp_all add: abs_w_def sint_unat u)
    show ?thesis unfolding min_s_def a by (simp add: u)
  next
    case False
    then have x: "sh \<noteq> 0" using u by auto
    have a: "abs_w sh = - sh" using False sign_bit [of sh] by (simp add: abs_w_def u)
    have n: "unat (- sh) = 2 ^ 64 - u" using unat_neg [OF x] u by simp
    have s: "sint sh = int u - 2 ^ 64" using False by (simp add: sint_unat u)
    show ?thesis
    proof (cases "u = 2 ^ 63")
      case True
      have "sint (- sh) = - (2 ^ 63)" by (simp add: sint_unat n True)
      then show ?thesis unfolding min_s_def a by (simp add: n s True)
    next
      case F: False
      then have "2 ^ 64 - u < 2 ^ 63" using False by simp
      then have "sint (- sh) = 2 ^ 64 - int u" using lt by (simp add: sint_unat n of_nat_diff)
      then show ?thesis unfolding min_s_def a using lt by (auto simp add: n s nat_diff_distrib)
    qed
  qed
qed

text \<open>
  C39. The shift instruction: a positive distance below 64 divides by a power of two, a negative one
  multiplies; a distance of 64 or more does not clear the word but leaves it as it is (the processor
  takes the distance modulo 64).
\<close>

theorem shift_correct:
  "unat (shift_reg v sh) =
     (if 0 \<le> sint sh \<and> sint sh < 64 then unat v div 2 ^ nat (sint sh)
      else if - 64 < sint sh \<and> sint sh < 0 then unat v * 2 ^ nat (- sint sh) mod 2 ^ 64
      else unat v)"
proof -
  let ?k = "unat (min_s (abs_w sh) 64) mod 64"
  note d = shift_distance [of sh]
  have l: "0 \<le> sint sh \<Longrightarrow> shift_reg v sh = drop_bit ?k v" "sint sh < 0 \<Longrightarrow> shift_reg v sh = push_bit ?k v"
    by (simp_all add: shift_reg_def shl_def shr_def)
  have "unat (drop_bit n v) = drop_bit n (unat v)" "unat (push_bit n v) = take_bit 64 (push_bit n (unat v))" for n
    by (simp_all add: unsigned_drop_bit_eq unsigned_push_bit_eq take_bit_nat_eq_self [OF unat_less_2p64])
  then have "unat (drop_bit n v) = unat v div 2 ^ n" "unat (push_bit n v) = unat v * 2 ^ n mod 2 ^ 64" for n
    by (simp_all only: drop_bit_eq_div push_bit_eq_mult take_bit_eq_mod)
  with l d show ?thesis by (auto simp: not_less)
qed


subsection \<open>Exceptions\<close>

text \<open>
  The memory of the machine: its registers, the FIFO of exceptions, the local variables of the delivery
  and the words above the stack pointer do not overlap.
\<close>

definition vm_apart :: "mem \<Rightarrow> u64 \<Rightarrow> u64 \<Rightarrow> u64 set \<Rightarrow> bool" where
  "vm_apart m regs w F \<longleftrightarrow>
     (let R = cells regs 33; E = cells (exc_num - 8) w \<union> cells exc_num w; T = cells tagged_item w;
          S = cells (8 * (m (reg regs r_sp) + 1)) (w + 1) in
      R \<inter> F = {} \<and> R \<inter> E = {} \<and> R \<inter> T = {} \<and> R \<inter> S = {} \<and> E \<inter> F = {} \<and> E \<inter> T = {} \<and> E \<inter> S = {} \<and> S \<inter> F = {} \<and>
      T \<inter> S = {})"

lemma reg_cells [simp]: "i \<le> 32 \<Longrightarrow> reg regs i \<in> cells regs 33"
  unfolding reg_def by (rule cellsI) (simp add: word_le_nat_alt word_less_nat_alt)

lemma cells_mono: "n \<le> k \<Longrightarrow> cells p n \<subseteq> cells p k"
  by (auto simp: cells_def)

lemma notin_disjoint: "A \<inter> B = {} \<Longrightarrow> x \<in> A \<Longrightarrow> x \<notin> B"
  by blast

lemma disjoint_mono: "P \<subseteq> S \<Longrightarrow> E \<inter> S = {} \<Longrightarrow> P \<inter> E = {}"
  by blast

lemma ne_mem: "x \<notin> A \<Longrightarrow> y \<in> A \<Longrightarrow> x \<noteq> y"
  by blast

lemma fifo_word_size:
  assumes "fifo m ef ca cb w F xs"
  shows "w \<noteq> 0" "unat w < 2 ^ 60" "concurrent_fifo_item_sz m ef = w"
proof -
  obtain qa qb where "fifo_parts m ef ca cb w F xs qa qb" using assms unfolding fifo_def by blast
  then obtain RA where q: "ring_queue m (m (cf_A ef)) ca w RA qa" by (elim fifo_partsE)
  note sh = ring_queueD(1) [OF q]
  have "2 * unat w \<le> ca * unat w" using ring_capacity(4) [OF sh] by (rule mult_le_mono1)
  then show "unat w < 2 ^ 60" using ring_capacity(1,2) [OF sh] by linarith
  show "w \<noteq> 0" using ring_capacity(1) [OF sh] by auto
  show "concurrent_fifo_item_sz m ef = w"
    using ring_queueD(4) [OF q] by (simp add: concurrent_fifo_item_sz_def ring_buf_item_sz_def)
qed

lemma take_exception_ok:
  assumes f: "fifo m ef ca cb w F (x # xs)" and a: "vm_apart m regs w F"
  defines "sp \<equiv> m (reg regs r_sp)"
  shows "\<exists>m'. take_exception ef regs w m = m' \<and> fifo m' ef ca cb w F xs \<and>
    block_words m' (8 * (sp + 1)) (w - 1) = x \<and> m' (8 * (sp + 1 + w)) = m (reg regs r_lr) \<and>
    m' (reg regs r_sp) = sp + 1 + w \<and> m' (reg regs r_lr) = m (reg regs r_pc) \<and>
    m' (reg regs r_pc) = m (reg regs r_ir) \<and> 8 * (sp + 1 + w) \<notin> cells regs 33"
proof -
  note w = fifo_word_size [OF f]
  let ?R = "cells regs 33" and ?T = "cells tagged_item w" and ?S = "cells (8 * (sp + 1)) (w + 1)" and ?E = "cells (exc_num - 8) w"
  have w1: "w \<le> w + 1" "unat (w + 1) = Suc (unat w)"
    using w(2) unat_suc [of w "- 1"] by (simp_all add: word_less_nat_alt word_le_nat_alt minus_1_val)
  have ap: "?R \<inter> F = {}" "?R \<inter> ?E = {}" "?R \<inter> ?T = {}" "?R \<inter> ?S = {}" "?E \<inter> F = {}" "?E \<inter> ?T = {}"
    "cells exc_num w \<inter> ?S = {}" "?S \<inter> F = {}" "?R \<inter> cells exc_num w = {}"
    using a unfolding vm_apart_def Let_def sp_def [symmetric] Int_Un_distrib Int_Un_distrib2 Un_empty by simp_all
  obtain m1 where m1: "concurrent_fifo_pop m ef exc_num = (m1, 0)" "fifo m1 ef ca cb w F xs"
    "block_words m1 exc_num (w - 1) = x" "same_except (F \<union> ?T \<union> ?E) m m1"
    using fifo_pop [OF f, of exc_num] ap(5,6) unfolding list.case Int_Un_distrib Un_empty by blast
  have r1: "m1 (reg regs i) = m (reg regs i)" if "i \<le> 32" for i
    by (rule same_exceptD [OF m1(4)]) (use reg_cells [OF that, of regs] ap(1-3) in blast)
  let ?P = "8 * (sp + 1)"
  let ?C = "8 * (sp + (1 + w))"
  have C: "?C = ?P + 8 * w" by (simp add: algebra_simps)
  have wl: "w < w + 1" using w1 by (simp add: word_less_nat_alt)
  then have CS: "?C \<in> ?S" unfolding C by (rule cellsI)
  have CP: "?C \<notin> cells ?P w"
  proof
    assume "?C \<in> cells ?P w"
    then obtain j where j: "j < w" "8 * w = 8 * j" unfolding C by (auto simp: cells_def)
    have "w = j" by (rule mult8_inj [OF wl less_trans [OF j(1) wl] _ j(2)]) (use w(2) w1(2) in simp)
    then show False using j(1) by simp
  qed
  have PS: "cells ?P w \<subseteq> ?S" by (rule cells_mono [OF w1(1)])
  define m2 where "m2 = m1(reg regs r_sp := sp + (1 + w))"
  define m3 where "m3 = m2(?C := m (reg regs r_lr))"
  define m4 where "m4 = copy_words m3 ?P exc_num 0 w"
  define m5 where "m5 = m4(reg regs r_lr := m4 (reg regs r_pc))"
  define m6 where "m6 = m5(reg regs r_pc := m5 (reg regs r_ir))"
  have "m1 (reg regs r_sp) = sp" "m2 (reg regs r_sp) = sp + (1 + w)" "m2 (reg regs r_lr) = m (reg regs r_lr)"
    using r1 by (simp_all add: m2_def sp_def)
  then have te: "take_exception ef regs w m = m6"
    unfolding take_exception_def Let_def m1(1) case_prod_conv m6_def m5_def m4_def m3_def
    by (simp only: m2_def [symmetric] if_True simp_thms)
  have dis: "cells ?P w \<inter> cells exc_num w = {}"
    using disjoint_mono [OF PS ap(7)] .
  note cp = copy_words_block [OF dis less_imp_le [OF w(2)], of m3, folded m4_def]
  have out: "reg regs i \<notin> ?S" "reg regs i \<noteq> ?C" "reg regs i \<notin> cells ?P w" if "i \<le> 32" for i
  proof -
    show n: "reg regs i \<notin> ?S" by (rule notin_disjoint [OF ap(4) reg_cells [OF that]])
    show "reg regs i \<noteq> ?C" using n CS by (rule ne_mem)
    show "reg regs i \<notin> cells ?P w" by (rule contra_subsetD [OF PS n])
  qed
  have m3r: "m3 (reg regs i) = (if i = r_sp then sp + (1 + w) else m (reg regs i))" if "i \<le> 32" for i
    using that out(2) [OF that] r1 [OF that] by (simp add: m3_def m2_def)
  have m4r: "m4 (reg regs i) = (if i = r_sp then sp + (1 + w) else m (reg regs i))" if "i \<le> 32" for i
    using same_exceptD [OF cp(2) out(3) [OF that]] m3r [OF that] by simp
  have m6r: "m6 (reg regs r_sp) = sp + 1 + w" "m6 (reg regs r_lr) = m (reg regs r_pc)"
    "m6 (reg regs r_pc) = m (reg regs r_ir)"
    unfolding m6_def m5_def by (simp_all add: m4r add.assoc)
  have m6o: "m6 y = m4 y" if "y \<notin> ?R" for y
  proof -
    have "y \<noteq> reg regs r_lr" "y \<noteq> reg regs r_pc" using that reg_cells [of r_lr regs] reg_cells [of r_pc regs] by auto
    then show ?thesis by (simp add: m6_def m5_def)
  qed
  have SR: "?S \<inter> ?R = {}" using ap(4) by (simp only: Int_commute)
  have "?C \<notin> ?R" by (rule notin_disjoint [OF SR CS])
  then have "m6 ?C = m (reg regs r_lr)"
    using m6o same_exceptD [OF cp(2) CP] by (simp add: m3_def)
  have Cn: "8 * (sp + 1 + w) \<notin> ?R" using \<open>?C \<notin> ?R\<close> by (simp only: add.assoc simp_thms)
  have lr: "m6 (8 * (sp + 1 + w)) = m (reg regs r_lr)" using \<open>m6 ?C = m (reg regs r_lr)\<close> by (simp only: add.assoc)
  have "fifo m6 ef ca cb w F xs"
  proof -
    have "m6 y = m1 y" if "y \<in> F" for y
    proof -
      have F: "F \<inter> ?R = {}" "F \<inter> ?S = {}" using ap(1,8) by (simp_all only: Int_commute)
      have S: "y \<notin> ?S" by (rule notin_disjoint [OF F(2) that])
      have n: "y \<notin> ?R" "y \<notin> cells ?P w" "y \<noteq> ?C"
        by (rule notin_disjoint [OF F(1) that], rule contra_subsetD [OF PS S], rule ne_mem [OF S CS])
      have "y \<noteq> reg regs r_sp" using n(1) reg_cells [of r_sp regs] by auto
      then show ?thesis using m6o [OF n(1)] same_exceptD [OF cp(2) n(2)] n(3) by (simp add: m3_def m2_def)
    qed
    with m1(2) show ?thesis unfolding fifo_def using fifo_parts_frame by blast
  qed
  moreover have "block_words m6 ?P (w - 1) = x"
  proof (rule nth_equalityI)
    have n: "unat w = Suc (unat (w - 1))" using w(1) by (simp add: unat_minus_one unat_gt_0)
    show l: "length (block_words m6 ?P (w - 1)) = length x" using m1(3) by auto
    fix k assume "k < length (block_words m6 ?P (w - 1))"
    then have k: "k < unat (w - 1)" "k < unat w" using n by simp_all
    have "?P + 8 * of_nat k \<notin> ?R" by (rule notin_disjoint [OF SR subsetD [OF PS cells_nat [OF k(2)]]])
    then have "m6 (?P + 8 * of_nat k) = block_words m4 ?P w ! k"
      using m6o k(2) by (simp add: block_words_nth)
    also have "\<dots> = m3 (exc_num + 8 * of_nat k)" unfolding cp(1) using k(2) by (simp add: block_words_nth)
    also have "\<dots> = m1 (exc_num + 8 * of_nat k)"
    proof -
      have e: "exc_num + 8 * of_nat k \<in> cells exc_num w" by (rule cells_nat [OF k(2)])
      have "exc_num + 8 * of_nat k \<noteq> ?C" by (rule ne_mem [OF notin_disjoint [OF ap(7) e] CS])
      moreover have "reg regs r_sp \<noteq> exc_num + 8 * of_nat k"
        by (rule ne_mem [OF notin_disjoint [OF ap(9) reg_cells] e]) simp
      ultimately have "exc_num + 8 * of_nat k \<noteq> ?C" "exc_num + 8 * of_nat k \<noteq> reg regs r_sp" by simp_all
      then show ?thesis by (simp add: m3_def m2_def)
    qed
    also have "\<dots> = x ! k" using m1(3) k(1) by (auto simp: block_words_nth)
    finally show "block_words m6 ?P (w - 1) ! k = x ! k" using k(1) by (simp add: block_words_nth)
  qed
  ultimately show ?thesis using te m6r lr Cn by blast
qed


subsection \<open>A machine with a waiting exception\<close>

lemma cells_apart:
  assumes "unat p + 8 * unat n \<le> unat q" "unat q + 8 * unat k < 2 ^ 64"
  shows "cells p n \<inter> cells q k = {}"
  using cells_bounds [of _ p n] cells_bounds [of _ q k] assms by fastforce

lemma demo_words_low:
  assumes "0x3030 \<le> unat q" "unat q + 8 * unat k < 2 ^ 64"
  shows "cells q k \<inter> demo_words = {}"
proof -
  have "unat x < 0x3030" if "x \<in> demo_words" for x
    using that demo_area [of "0x1000" "0x2000" x] demo_area [of "0x1100" "0x2100" x] demo_fifo_cells [of x]
    by (auto simp: demo_words_def)
  then show ?thesis using cells_bounds [OF _ assms(2)] assms(1) by fastforce
qed

text \<open>Registers at 0x6000, the stack from 0x5808 on, the handler at 0x8000, one exception in the FIFO.\<close>

lemma demo_exception:
  "\<exists>m. fifo m 0x3000 3 3 2 demo_words [[0]] \<and> vm_apart m 0x6000 2 demo_words \<and> m (reg 0x6000 r_sp) = 0xb00 \<and>
     m (reg 0x6000 r_pc) = 0xa00 \<and> m (reg 0x6000 r_lr) = 7 \<and> m (reg 0x6000 r_ir) = 0x1000"
proof -
  have "cells (0x5000 - 8) 2 \<inter> (fifo_cells 0x3000 \<union> cells tagged_item 2) = {}"
    using demo_item by (auto simp: demo_words_def)
  from fifo_add [OF demo_fifo_parts this] obtain m where
    "fifo m 0x3000 3 3 2 demo_words [block_words demo_fifo 0x5000 1]"
    by (auto simp: demo_fifo_def demo_ring_def fifo_fields ring_fields array_fields)
  moreover have "block_words demo_fifo 0x5000 1 = [0]"
    by (simp add: block_words_def demo_fifo_def demo_ring_def fifo_fields ring_fields array_fields)
  ultimately obtain qa qb where m: "fifo_parts m 0x3000 3 3 2 demo_words [[0]] qa qb" unfolding fifo_def by auto
  let ?m = "m(reg 0x6000 r_sp := 0xb00, reg 0x6000 r_pc := 0xa00, reg 0x6000 r_lr := 7, reg 0x6000 r_ir := 0x1000)"
  have d: "cells 0x6000 33 \<inter> demo_words = {}" by (rule demo_words_low) simp_all
  have "?m y = m y" if "y \<in> demo_words" for y
  proof -
    have "y \<noteq> reg 0x6000 i" if "i \<le> 32" for i using reg_cells [OF that, of "0x6000"] d \<open>y \<in> demo_words\<close> by auto
    then show ?thesis by simp
  qed
  then have "fifo ?m 0x3000 3 3 2 demo_words [[0]]"
    unfolding fifo_def using fifo_parts_frame [OF m, of ?m] by blast
  moreover have sp: "8 * (?m (reg 0x6000 r_sp) + 1) = 0x5808" by simp
  have "vm_apart ?m 0x6000 2 demo_words"
    unfolding vm_apart_def Let_def exc_num_def tagged_item_def sp Int_Un_distrib Int_Un_distrib2 Un_empty
    by (intro conjI; (rule cells_apart; simp; fail | subst Int_commute, rule cells_apart; simp; fail |
        rule demo_words_low; simp; fail))
  ultimately show ?thesis by (intro exI [of _ ?m]) simp
qed

text \<open>
  C36. A waiting exception is delivered: the oldest item of the FIFO, without its tag, is pushed on the
  stack of the machine, the link register behind it; the link register gets the program counter and
  the program counter the address of the handler. The FIFO keeps the later exceptions, in order.
\<close>

theorem exception_delivery:
  assumes "fifo m ef ca cb w F (x # xs)" "vm_apart m regs w F"
  shows "let sp = m (reg regs r_sp); m' = take_exception ef regs w m in
    concurrent_fifo_item_sz m ef = w \<and> fifo m' ef ca cb w F xs \<and> block_words m' (8 * (sp + 1)) (w - 1) = x \<and>
    m' (8 * m' (reg regs r_sp)) = m (reg regs r_lr) \<and> m' (reg regs r_sp) = sp + 1 + w \<and>
    m' (reg regs r_lr) = m (reg regs r_pc) \<and> m' (reg regs r_pc) = m (reg regs r_ir)"
  using take_exception_ok [OF assms] fifo_word_size(3) [OF assms(1)] unfolding Let_def by auto

theorem exception_delivery_witness:
  "\<exists>m m'. take_exception 0x3000 0x6000 2 m = m' \<and> m (reg 0x6000 r_pc) = 0xa00 \<and> m' (reg 0x6000 r_pc) = 0x1000 \<and>
     m' (reg 0x6000 r_lr) = 0xa00 \<and> m' (reg 0x6000 r_sp) = 0xb03 \<and> m' 0x5808 = 0 \<and> m' 0x5818 = 7"
proof -
  obtain m where m: "fifo m 0x3000 3 3 2 demo_words [[0]]" "vm_apart m 0x6000 2 demo_words"
    "m (reg 0x6000 r_sp) = 0xb00" "m (reg 0x6000 r_pc) = 0xa00" "m (reg 0x6000 r_lr) = 7"
    "m (reg 0x6000 r_ir) = 0x1000" using demo_exception by blast
  note e = exception_delivery [OF m(1,2), unfolded Let_def m(3-6)]
  have sp: "take_exception 0x3000 0x6000 2 m (reg 0x6000 r_sp) = 0xb03" using e by simp
  have "take_exception 0x3000 0x6000 2 m (8 * 0xb03) = 7" using e unfolding sp by blast
  moreover have "block_words (take_exception 0x3000 0x6000 2 m) 0x5808 1 = [0]" using e by simp
  ultimately show ?thesis using m(4) e by (auto simp: block_words_def)
qed

text \<open>
  C37. The return from an exception undoes its delivery: when the handler leaves the stack pointer, the
  link register and the saved link register as it found them, the instruction \<open>exc\<close> with operand -1
  restores program counter, link register and stack pointer of the interrupted program.
\<close>

theorem exception_roundtrip:
  assumes "fifo m ef ca cb w F (x # xs)" "vm_apart m regs w F"
    and "m' = take_exception ef regs w m"
    and "m2 (reg regs r_lr) = m' (reg regs r_lr)" "m2 (reg regs r_sp) = m' (reg regs r_sp)"
      "m2 (8 * m' (reg regs r_sp)) = m' (8 * m' (reg regs r_sp))"
  shows "\<exists>m3. exec_exc svc regs w (- 1) m2 = Continue m3 \<and> m3 (reg regs r_pc) = m (reg regs r_pc) \<and>
    m3 (reg regs r_lr) = m (reg regs r_lr) \<and> m3 (reg regs r_sp) = m (reg regs r_sp)"
proof -
  let ?C = "8 * (m (reg regs r_sp) + 1 + w)"
  have t: "m' ?C = m (reg regs r_lr)" "m' (reg regs r_sp) = m (reg regs r_sp) + 1 + w"
    "m' (reg regs r_lr) = m (reg regs r_pc)" "?C \<notin> cells regs 33"
    using take_exception_ok [OF assms(1,2)] assms(3) by auto
  have n: "?C \<noteq> reg regs r_pc" using t(4) reg_cells [of r_pc regs] by auto
  have m2: "m2 (reg regs r_lr) = m (reg regs r_pc)" "m2 (reg regs r_sp) = m (reg regs r_sp) + 1 + w"
    "m2 ?C = m (reg regs r_lr)" using assms(4-6) t by simp_all
  show ?thesis
    unfolding exec_exc_def Let_def if_P [OF refl] by (rule exI, rule conjI [OF refl]) (use m2 n in simp)
qed

theorem exception_roundtrip_witness:
  "\<exists>m m3. m (reg 0x6000 r_pc) = 0xa00 \<and> m (reg 0x6000 r_lr) = 7 \<and>
     exec_exc (\<lambda>_ m. m) 0x6000 2 (- 1) (take_exception 0x3000 0x6000 2 m) = Continue m3 \<and>
     m3 (reg 0x6000 r_pc) = 0xa00 \<and> m3 (reg 0x6000 r_lr) = 7 \<and> m3 (reg 0x6000 r_sp) = 0xb00"
proof -
  obtain m where m: "fifo m 0x3000 3 3 2 demo_words [[0]]" "vm_apart m 0x6000 2 demo_words"
    "m (reg 0x6000 r_sp) = 0xb00" "m (reg 0x6000 r_pc) = 0xa00" "m (reg 0x6000 r_lr) = 7" using demo_exception by blast
  show ?thesis
    using exception_roundtrip [OF m(1,2) refl refl refl refl, of "\<lambda>_ m. m"] m(3-5) by auto
qed

end
