(* ===== verification/X86_Gc.thy ===== *)
theory X86_Gc
  imports Gc
begin

text \<open>
  Objects and the garbage collector of the x86_64 version (\<^verbatim>\<open>x86_64/datastructures.c\<close> and
  \<^verbatim>\<open>x86_64/alloc.c\<close>). There every object is a block the collector knows: \<open>object\<close> calls \<open>gc_alloc\<close>,
  growth calls \<open>gc_realloc\<close> and deletion \<open>gc_free\<close>. The collector has no tree of refused objects; it queues
  what it sweeps. \<open>alloc\<close>, \<open>free\<close>, the trees, sets, queues and comparisons are those of the root directory.
\<close>

subsection \<open>Objects\<close>

definition x_object :: "mem \<Rightarrow> u64 \<Rightarrow> u64 \<Rightarrow> u64 \<Rightarrow> u64 \<Rightarrow> u64 \<Rightarrow> (mem \<times> u64) option" where
  "x_object m heap type sz cont n_words =
     (if sz < n_words then Some (m, 0)
      else do {
        (m, p) \<leftarrow> gc_alloc m heap (sz + obj_sz - 1);
        if p = 0 then Some (m, 0)
        else do {
          let obj = p - 8;
          let m = m(refcount obj := 0);
          let m = m(otype obj := type);
          let m = (if type \<noteq> 0 then m(refcount type := m (refcount type) + 1) else m);
          let m = m(osize obj := n_words);
          let m = (if cont \<noteq> 0 then copy_words m (contents obj 0) cont 0 n_words else m);
          Some (m, obj) } })"

text \<open>
  The end of both functions that append: the null test comes after the subtraction of one word, so it
  does not notice that \<open>gc_realloc\<close> has failed.
\<close>

definition x_store_last :: "mem \<Rightarrow> u64 \<Rightarrow> u64 \<Rightarrow> u64 \<Rightarrow> (mem \<times> u64) option" where
  "x_store_last m heap obj data = do {
     let max = m (max_sz obj) - obj_sz;
     (m, obj) \<leftarrow>
       (if max \<le> m (osize obj) then do {
          (m, p) \<leftarrow> gc_realloc m heap (obj + 8) (obj_sz + m (osize obj) + m (osize obj) div 2 + 1);
          Some (m, p - 8) }
        else Some (m, obj));
     if obj = 0 then Some (m, 0)
     else do {
       let m = m(contents obj (m (osize obj)) := data);
       Some (m(osize obj := m (osize obj) + 1), obj) } }"

definition x_object_append_word :: "mem \<Rightarrow> u64 \<Rightarrow> u64 \<Rightarrow> u64 \<Rightarrow> (mem \<times> u64) option" where
  "x_object_append_word m heap obj data = (if obj = 0 then Some (m, 0) else x_store_last m heap obj data)"

definition x_object_append :: "mem \<Rightarrow> u64 \<Rightarrow> u64 \<Rightarrow> u64 \<Rightarrow> (mem \<times> u64) option" where
  "x_object_append m heap obj data =
     (if obj = 0 \<or> data = 0 then Some (m, 0)
      else x_store_last (m(refcount data := m (refcount data) + 1)) heap obj data)"

definition x_object_expand :: "mem \<Rightarrow> u64 \<Rightarrow> u64 \<Rightarrow> u64 \<Rightarrow> (mem \<times> u64) option" where
  "x_object_expand m heap obj new_sz = do {
     let old_sz = m (osize obj);
     (m, p) \<leftarrow> gc_realloc m heap (obj + 8) (obj_sz + new_sz);
     let new = p - 8;
     let m = (if new \<noteq> 0 \<and> new_sz < old_sz then m(osize new := new_sz) else m);
     Some (m, new) }"

definition x_object_free :: "mem \<Rightarrow> u64 \<Rightarrow> u64 \<Rightarrow> mem option" where
  "x_object_free m heap obj = gc_free m heap (obj + 8)"

text \<open>Deletion: the calls are those of \<open>deleting\<close>.\<close>

definition x_object_delete_step ::
    "types \<Rightarrow> u64 \<Rightarrow> u64 \<Rightarrow> mem \<Rightarrow> (mem \<times> delete_call list) option" where
  "x_object_delete_step T heap obj m =
     (if obj = 0 then Some (m, [])
      else let type = m (otype obj); m = m(refcount obj := m (refcount obj) - 1) in
      if m (refcount obj) \<noteq> 0 then Some (m, [])
      else if obj_cmp m type (num_type T) = 0 \<or> obj_cmp m type (string_type T) = 0 then do {
        m \<leftarrow> x_object_free m heap obj;
        Some (m, [Delete_Object type]) }
      else if obj_cmp m type (set_type T) = 0 then Some (m, [Delete_Set obj, Delete_Object type])
      else if obj_cmp m type (cell_type T) = 0 then
        Some (m, [Delete_Contents obj 0, Free_Object obj, Delete_Object type])
      else if obj_cmp m type (array_type T) = 0 then Some (m, [Delete_Array obj, Delete_Object type])
      else Some (m, [Delete_Object type]))"

definition x_set_delete_step :: "u64 \<Rightarrow> u64 \<Rightarrow> mem \<Rightarrow> (mem \<times> delete_call list) option" where
  "x_set_delete_step heap s m =
     (let tr = contents s 0 in
      if m tr \<noteq> 0 then
        let root = m tr
        in Some (m, [Delete_Object (nd_data m root), Delete_Root s root, Delete_Set s])
      else do { m \<leftarrow> x_object_free m heap s; Some (m, []) })"

definition x_obj_array_delete_step :: "u64 \<Rightarrow> u64 \<Rightarrow> mem \<Rightarrow> (mem \<times> delete_call list) option" where
  "x_obj_array_delete_step heap obj m = do {
     let arr = m (contents obj 0);
     m \<leftarrow> x_object_free m heap obj;
     let m = m(refcount arr := m (refcount arr) - 1);
     Some (m, if m (refcount arr) \<noteq> 0 then [] else [Delete_Contents arr 0, Free_Object arr]) }"

fun x_delete_step :: "types \<Rightarrow> u64 \<Rightarrow> delete_call \<Rightarrow> mem \<Rightarrow> (mem \<times> delete_call list) option" where
  "x_delete_step T heap (Delete_Object obj) m = x_object_delete_step T heap obj m"
| "x_delete_step T heap (Delete_Contents obj i) m =
     Some (m, if i < m (osize obj)
       then [Delete_Object (m (contents obj i)), Delete_Contents obj (i + 1)] else [])"
| "x_delete_step T heap (Free_Object obj) m = do { m \<leftarrow> x_object_free m heap obj; Some (m, []) }"
| "x_delete_step T heap (Delete_Set s) m = x_set_delete_step heap s m"
| "x_delete_step T heap (Delete_Root s root) m = do {
     (m, _) \<leftarrow> avl_delete m heap (contents s 0) (nd_data m root) avl_basic_cmp;
     Some (m, []) }"
| "x_delete_step T heap (Delete_Array obj) m = x_obj_array_delete_step heap obj m"
| "x_delete_step T heap (Drop_Array obj arr) m = Some (m, [])"

definition x_object_delete :: "types \<Rightarrow> mem \<Rightarrow> u64 \<Rightarrow> u64 \<Rightarrow> mem option" where
  "x_object_delete T m heap obj = run_calls (x_delete_step T heap) [Delete_Object obj] m"


subsection \<open>Types, pairs, sets and arrays\<close>

text \<open>The local arrays of \<^verbatim>\<open>init_types\<close>, \<^verbatim>\<open>pair\<close>, \<^verbatim>\<open>set\<close> and \<^verbatim>\<open>obj_array\<close>.\<close>

definition x_buf :: u64 where "x_buf = 0x7c000"

definition x_new_type :: "mem \<Rightarrow> u64 \<Rightarrow> u64 \<Rightarrow> u64 list \<Rightarrow> (mem \<times> u64) option" where
  "x_new_type m heap type cs = do {
     (m, t) \<leftarrow> x_object (store_words m x_buf cs) heap type 3 x_buf 3;
     Some (m, t) }"

definition x_init_types :: "mem \<Rightarrow> u64 \<Rightarrow> (mem \<times> types) option" where
  "x_init_types m heap = do {
     (m, str) \<leftarrow> x_new_type m heap 0 (lit ''str'');
     let m = m(otype str := str);
     let m = m(refcount str := m (refcount str) + 2);
     (m, num) \<leftarrow> x_new_type m heap str (lit ''num'');
     let m = count_type m num;
     (m, arr) \<leftarrow> x_new_type m heap str (lit ''arr'');
     let m = count_type m arr;
     (m, sar) \<leftarrow> x_new_type m heap str (lit ''sar'');
     let m = count_type m sar;
     (m, st) \<leftarrow> x_new_type m heap str (lit ''set'');
     let m = count_type m st;
     (m, fn) \<leftarrow> x_new_type m heap str (lit ''fun'');
     let m = count_type m fn;
     (m, cel) \<leftarrow> x_new_type m heap str (lit ''cel'');
     let m = count_type m cel;
     Some (m, no_types\<lparr>string_type := str, num_type := num, array_type := arr, subarray_type := sar,
       set_type := st, function_type := fn, cell_type := cel\<rparr>) }"

definition x_pair :: "types \<Rightarrow> mem \<Rightarrow> u64 \<Rightarrow> u64 \<Rightarrow> u64 \<Rightarrow> (mem \<times> u64) option" where
  "x_pair T m heap obj1 obj2 =
     (let m = store_words m x_buf [obj1, obj2];
          m = m(refcount obj1 := m (refcount obj1) + 1);
          m = m(refcount obj2 := m (refcount obj2) + 1)
      in x_object m heap (cell_type T) 2 x_buf 2)"

definition x_set_new :: "types \<Rightarrow> mem \<Rightarrow> u64 \<Rightarrow> (mem \<times> u64) option" where
  "x_set_new T m heap = x_object (m(x_buf := 0)) heap (set_type T) 1 x_buf 1"

definition x_set_add_str_key :: "types \<Rightarrow> mem \<Rightarrow> u64 \<Rightarrow> u64 \<Rightarrow> u64 \<Rightarrow> u64 \<Rightarrow> (mem \<times> u64) option" where
  "x_set_add_str_key T m heap s key val = do {
     (m, data) \<leftarrow> x_pair T m heap key val;
     set_add m heap s data set_keycmp }"

definition x_obj_array :: "types \<Rightarrow> mem \<Rightarrow> u64 \<Rightarrow> u64 \<Rightarrow> (mem \<times> u64) option" where
  "x_obj_array T m heap sz = do {
     (m, arr) \<leftarrow> x_object m heap (subarray_type T) sz 0 0;
     let m = m(refcount arr := m (refcount arr) + 1);
     x_object (m(x_buf := arr)) heap (array_type T) 1 x_buf 1 }"

definition x_obj_array_append :: "mem \<Rightarrow> u64 \<Rightarrow> u64 \<Rightarrow> u64 \<Rightarrow> mem option" where
  "x_obj_array_append m heap arr data = do {
     (m, p) \<leftarrow> x_object_append m heap (m (contents arr 0)) data;
     Some (m(contents arr 0 := p)) }"

text \<open>The capacity of a growing array: here a number of words, whatever the size of its items.\<close>

definition x_array_capacity :: "mem \<Rightarrow> u64 \<Rightarrow> u64" where
  "x_array_capacity m arr = m (a_mem_sz arr) - Array_bsz - 1"

subsection \<open>Marking\<close>

text \<open>The calls of the collector are those of \<open>Gc\<close>; an array is followed through its words.\<close>

definition x_mark_children :: "types \<Rightarrow> u64 \<Rightarrow> mem \<Rightarrow> mark_call list" where
  "x_mark_children T obj m =
     (let type = m (otype obj) in
      if obj_cmp m type (string_type T) = 0 \<or> obj_cmp m type (num_type T) = 0 then []
      else if obj_cmp m type (set_type T) = 0 then [Mark_Tree (m (contents obj 0))]
      else if obj_cmp m type (cell_type T) = 0 \<or> obj_cmp m type (function_type T) = 0 then [Mark_Words obj 0]
      else if obj_cmp m type (array_type T) = 0 then [Mark_Words (m (contents obj 0)) 0]
      else [])"

definition x_mark_obj_step ::
    "types \<Rightarrow> u64 \<Rightarrow> u64 \<Rightarrow> u64 \<Rightarrow> u64 \<Rightarrow> mem \<Rightarrow> (mem \<times> mark_call list) option" where
  "x_mark_obj_step T heap q cond obj m =
     (if obj = 0 then Some (m, [])
      else let tmp_rc = get_tmp_rc m obj in
      if cond \<noteq> 0 then
        (if visited m obj \<noteq> 0 then Some (set_tmp_rc m obj (tmp_rc + 1), [])
         else do {
           (m, _) \<leftarrow> queue_push m heap q obj;
           let m = set_visited m obj 1;
           let m = set_tmp_rc m obj cond;
           Some (m, x_mark_children T obj m) })
      else if visited m obj = 0 then Some (m, [])
      else let m = set_visited m obj 0;
               m = set_tmp_rc m obj cond
           in Some (m, x_mark_children T obj m))"

fun x_mark_step ::
    "types \<Rightarrow> u64 \<Rightarrow> u64 \<Rightarrow> u64 \<Rightarrow> mark_call \<Rightarrow> mem \<Rightarrow> (mem \<times> mark_call list) option" where
  "x_mark_step T heap q cond (Mark obj) m = x_mark_obj_step T heap q cond obj m"
| "x_mark_step T heap q cond (Mark_Tree tree) m =
     Some (m, if tree = 0 then []
       else [Mark (nd_data m tree), Mark_Tree (nd_left m tree), Mark_Tree (nd_right m tree)])"
| "x_mark_step T heap q cond (Mark_Words obj i) m =
     Some (m, if i < m (osize obj) then [Mark (m (contents obj i)), Mark_Words obj (i + 1)] else [])"

text \<open>With \<open>cond\<close> the function makes a queue for the marked objects and returns it.\<close>

definition x_mark_tc :: "types \<Rightarrow> mem \<Rightarrow> u64 \<Rightarrow> u64 \<Rightarrow> u64 \<Rightarrow> (mem \<times> u64) option" where
  "x_mark_tc T m heap obj cond = do {
     (m, q) \<leftarrow> (if cond \<noteq> 0 then queue m heap else Some (m, 0));
     m \<leftarrow> run_calls (x_mark_step T heap q cond) [Mark obj] m;
     let m = (if cond \<noteq> 0 then set_tmp_rc m obj (get_tmp_rc m obj - 1) else m);
     Some (m, q) }"


subsection \<open>Sweeping\<close>

text \<open>What is swept leaves the set of the collector and is queued; \<open>X_Finish\<close> does that for the words of an array.\<close>

datatype x_sweep_call = X_Sweep u64 | X_Tree u64 | X_Words u64 u64 | X_Node u64 | X_Finish u64 u64

definition x_sweep_obj_step ::
    "types \<Rightarrow> u64 \<Rightarrow> u64 \<Rightarrow> u64 \<Rightarrow> mem \<times> u64 \<Rightarrow> ((mem \<times> u64) \<times> x_sweep_call list) option" where
  "x_sweep_obj_step T heap q obj s =
     (let (m, ret) = s in
      if obj = 0 \<or> visited m obj = 0 then Some (s, [])
      else do {
        let tr = contents (m (gc_set heap)) 0;
        node \<leftarrow> avl_find m tr (obj + 8) avl_basic_cmp;
        if node = 0 then Some (s, [])
        else do {
          (m, _) \<leftarrow> avl_delete m heap tr (obj + 8) avl_basic_cmp;
          (m, _) \<leftarrow> queue_push m heap q obj;
          let type = m (otype obj);
          if obj_cmp m type (string_type T) = 0 \<or> obj_cmp m type (num_type T) = 0 then
            Some ((m, ret + 1 + 1), [])
          else if obj_cmp m type (set_type T) = 0 then Some ((m, ret + 1), [X_Tree (m (contents obj 0))])
          else if obj_cmp m type (cell_type T) = 0 \<or> obj_cmp m type (function_type T) = 0 then
            Some ((m, ret + 1), [X_Words obj 0])
          else if obj_cmp m type (array_type T) = 0 then
            let arr = m (contents obj 0) in Some ((m, ret + 1), [X_Words arr 0, X_Finish tr arr])
          else Some ((m, ret + 1), []) } })"

fun x_sweep_step ::
    "types \<Rightarrow> u64 \<Rightarrow> u64 \<Rightarrow> x_sweep_call \<Rightarrow> mem \<times> u64 \<Rightarrow> ((mem \<times> u64) \<times> x_sweep_call list) option" where
  "x_sweep_step T heap q (X_Sweep obj) s = x_sweep_obj_step T heap q obj s"
| "x_sweep_step T heap q (X_Tree tree) (m, ret) =
     (if tree = 0 then Some ((m, ret), [])
      else let left = nd_left m tree; right = nd_right m tree;
               m = decrease_refcs m (nd_data m tree)
           in Some ((m, ret), [X_Sweep (nd_data m tree), X_Node tree, X_Tree left, X_Tree right]))"
| "x_sweep_step T heap q (X_Words obj i) (m, ret) =
     (if i < m (osize obj) then
        let m = decrease_refcs m (m (contents obj i))
        in Some ((m, ret), [X_Sweep (m (contents obj i)), X_Words obj (i + 1)])
      else Some ((m, ret), []))"
| "x_sweep_step T heap q (X_Node node) (m, ret) = do {
     m \<leftarrow> free m heap node;
     Some ((m, ret), []) }"
| "x_sweep_step T heap q (X_Finish tr arr) (m, ret) = do {
     (m, _) \<leftarrow> avl_delete m heap tr (arr + 8) avl_basic_cmp;
     (m, _) \<leftarrow> queue_push m heap q arr;
     Some ((m, ret), []) }"

definition x_sweep :: "types \<Rightarrow> mem \<Rightarrow> u64 \<Rightarrow> u64 \<Rightarrow> u64 \<Rightarrow> (mem \<times> u64) option" where
  "x_sweep T m heap obj q = run_calls (x_sweep_step T heap q) [X_Sweep obj] (m, 0)"

subsection \<open>Collection\<close>

text \<open>All objects with a type are suspected but the functions.\<close>

partial_function (option) x_gc_enqueue :: "types \<Rightarrow> u64 \<Rightarrow> u64 \<Rightarrow> mem \<Rightarrow> u64 \<Rightarrow> mem option" where
  "x_gc_enqueue T heap q m tree =
     (if tree = 0 then Some m
      else do {
        let left = nd_left m tree;
        let right = nd_right m tree;
        m \<leftarrow> x_gc_enqueue T heap q m left;
        m \<leftarrow> x_gc_enqueue T heap q m right;
        let data = nd_data m tree - 8;
        if m (otype data) \<noteq> 0 \<and> obj_cmp m (m (otype data)) (function_type T) \<noteq> 0
        then do { (m, _) \<leftarrow> queue_push m heap q data; Some m } else Some m })"

partial_function (option) x_gc_unmark :: "types \<Rightarrow> u64 \<Rightarrow> u64 \<Rightarrow> mem \<Rightarrow> mem option" where
  "x_gc_unmark T heap q m = do {
     (m, obj) \<leftarrow> queue_pop m heap q;
     if obj = 0 then Some m
     else do {
       m \<leftarrow> (if get_tmp_rc m obj < get_rc m obj then do { (m, _) \<leftarrow> x_mark_tc T m heap obj 0; Some m } else Some m);
       x_gc_unmark T heap q m } }"

partial_function (option) x_gc_dispose :: "types \<Rightarrow> u64 \<Rightarrow> u64 \<Rightarrow> mem \<Rightarrow> mem option" where
  "x_gc_dispose T heap q m = do {
     (m, obj) \<leftarrow> queue_pop m heap q;
     if obj = 0 then Some m
     else do {
       m \<leftarrow> x_object_delete T m heap (m (otype obj));
       m \<leftarrow> free m heap (obj + 8);
       x_gc_dispose T heap q (m(gc_num_alloced heap := m (gc_num_alloced heap) - 1)) } }"

text \<open>One suspected object: mark, take the marks of what is in use away, sweep and free the rest.\<close>

definition x_gc_examine_one :: "types \<Rightarrow> mem \<Rightarrow> u64 \<Rightarrow> u64 \<Rightarrow> mem option" where
  "x_gc_examine_one T m heap data = do {
     (m, q) \<leftarrow> x_mark_tc T m heap data 1;
     m \<leftarrow> x_gc_unmark T heap q m;
     (m, _) \<leftarrow> x_sweep T m heap data q;
     m \<leftarrow> x_gc_dispose T heap q m;
     free m heap q }"

partial_function (option) x_gc_examine :: "types \<Rightarrow> u64 \<Rightarrow> u64 \<Rightarrow> u64 \<Rightarrow> mem \<Rightarrow> mem option" where
  "x_gc_examine T heap gcs q m = do {
     (m, data) \<leftarrow> queue_pop m heap q;
     if data = 0 then Some m
     else do {
       node \<leftarrow> avl_find m (contents gcs 0) (data + 8) avl_basic_cmp;
       m \<leftarrow> (if node = 0 then Some m else x_gc_examine_one T m heap data);
       x_gc_examine T heap gcs q m } }"

definition x_gc_collect :: "types \<Rightarrow> mem \<Rightarrow> u64 \<Rightarrow> mem option" where
  "x_gc_collect T m heap = do {
     let gcs = m (gc_set heap);
     (m, q) \<leftarrow> queue m heap;
     m \<leftarrow> x_gc_enqueue T heap q m (m (contents gcs 0));
     m \<leftarrow> x_gc_examine T heap gcs q m;
     free m heap q }"

end
