(* ===== verification/X86_Num.thy ===== *)
theory X86_Num
  imports X86_Gc Num_Value
begin

text \<open>
  The numbers of the x86_64 version (\<^verbatim>\<open>x86_64/datastructures.c\<close>) and the arithmetic functions of its
  interpreter (\<^verbatim>\<open>x86_64/lisp.c\<close>). Addition, shifts and the bitwise operations are the algorithms of the root
  directory on objects of the collector; they take the functions that make and extend an object as
  arguments. Division exists only here.
\<close>

subsection \<open>Operations shared by both versions\<close>

type_synonym new_object = "mem \<Rightarrow> u64 \<Rightarrow> u64 \<Rightarrow> u64 \<Rightarrow> u64 \<Rightarrow> u64 \<Rightarrow> (mem \<times> u64) option"
type_synonym grow_object = "mem \<Rightarrow> u64 \<Rightarrow> u64 \<Rightarrow> u64 \<Rightarrow> (mem \<times> u64) option"

definition num_add_by :: "new_object \<Rightarrow> grow_object \<Rightarrow> types \<Rightarrow> mem \<Rightarrow> u64 \<Rightarrow> u64 \<Rightarrow> u64 \<Rightarrow> (mem \<times> u64) option" where
  "num_add_by new grow T m heap num1 num2 = do {
     let (n1, n2) = (if m (osize num1) < m (osize num2) then (num2, num1) else (num1, num2));
     let n1_sz = m (osize n1);
     let n2_sz = m (osize n2);
     let n1_sgn = sgn_of (m (contents n1 (n1_sz - 1)));
     let n2_sgn = sgn_of (m (contents n2 (n2_sz - 1)));
     (m, result) \<leftarrow> new m heap (num_type T) (n1_sz + 1) 0 0;
     let m = m(osize result := n1_sz);
     let (m, carry) = for_up 0 n2_sz (\<lambda>i (m, carry).
           let (r, carry) = adc (m (contents n1 i)) carry;
               m = m(contents result i := r);
               (r, c) = adc (m (contents result i)) (m (contents n2 i))
           in (m(contents result i := r), carry + c)) (m, 0);
     let padding = (if n2_sgn \<noteq> 0 then -1 else 0);
     let (m, carry) = for_up n2_sz n1_sz (\<lambda>i (m, carry).
           add_word (contents result i) (m (contents n1 i)) padding carry m) (m, carry);
     let last = m (contents result (n1_sz - 1));
     if n1_sgn \<noteq> 0 \<and> n2_sgn \<noteq> 0 \<and> last \<noteq> -1 then grow m heap result (-1)
     else if n1_sgn = 0 \<and> n2_sgn = 0 \<and> last \<noteq> 0 then grow m heap result 0
     else Some (for_down (n1_sz - 1) 1 (\<lambda>i m. m (contents result (i - 1)) = last)
                  (\<lambda>i m. m(osize result := m (osize result) - 1)) m, result) }"

lemma num_add_by_object: "num_add T = num_add_by object object_append_word T"
  by (intro ext) (simp only: num_add_def num_add_by_def)

definition x_num_add :: "types \<Rightarrow> mem \<Rightarrow> u64 \<Rightarrow> u64 \<Rightarrow> u64 \<Rightarrow> (mem \<times> u64) option" where
  "x_num_add = num_add_by x_object x_object_append_word"

definition num_shift_left_by :: "grow_object \<Rightarrow> mem \<Rightarrow> u64 \<Rightarrow> u64 \<Rightarrow> u64 \<Rightarrow> (mem \<times> u64) option" where
  "num_shift_left_by expand m heap num shf = do {
     let n_sz = m (osize num);
     let n_sgn = m (contents num (n_sz - 1));
     let dv = shf div 64;
     let md = shf mod 64;
     let min_sz = n_sz + dv + 2 * of_bool (md \<noteq> 0);
     let full = (m (max_sz num) < min_sz);
     (m, n) \<leftarrow> (if full then expand m heap num min_sz else Some (m, num));
     if full \<and> n = 0 then Some (m, 0)
     else do {
       let m = m(osize n := min_sz - of_bool (md \<noteq> 0));
       let m =
         (if md \<noteq> 0 then
            let op_mod = 64 - md;
                m = for_down (n_sz - 1) 0 (\<lambda>i m. True)
                      (\<lambda>i m. m(contents n (i + dv) :=
                         shr (m (contents n (i - 1))) op_mod OR shl (m (contents n i)) md)) m;
                m = m(contents n dv := shl (m (contents n 0)) md);
                lst = n_sz + dv;
                m = m(contents n lst := shr n_sgn op_mod);
                m = (if n_sgn \<noteq> 0 then
                       let m = m(contents n (lst + 1) := 0)
                       in m(osize n := m (osize n) + 1)
                     else m)
            in trim_zeros n m
          else if dv \<noteq> 0 then
            for_down n_sz 0 (\<lambda>i m. True)
              (\<lambda>i m. let i1 = i - 1 in m(contents n (i1 + dv) := m (contents n i1))) m
          else m);
       Some (for_up 0 dv (\<lambda>i m. m(contents n i := 0)) m, n) } }"

lemma num_shift_left_by_object: "num_shift_left = num_shift_left_by object_expand"
  by (intro ext) (simp only: num_shift_left_def num_shift_left_by_def)

definition x_num_shift_left :: "mem \<Rightarrow> u64 \<Rightarrow> u64 \<Rightarrow> u64 \<Rightarrow> (mem \<times> u64) option" where
  "x_num_shift_left = num_shift_left_by x_object_expand"

definition num_shift_right_by :: "grow_object \<Rightarrow> mem \<Rightarrow> u64 \<Rightarrow> u64 \<Rightarrow> u64 \<Rightarrow> (mem \<times> u64) option" where
  "num_shift_right_by grow m heap n shf =
     (let n_sz = m (osize n);
          n_sgn = m (contents n (n_sz - 1));
          dv = shf div 64;
          md = shf mod 64
      in if n_sz * 64 \<le> shf then
           Some (m(contents n 0 := 0, contents n 1 := 0, osize n := 2), n)
         else if md \<noteq> 0 then do {
           let op_mod = 64 - md;
           let m = for_up 0 (n_sz - dv - 1)
                 (\<lambda>i m. m(contents n i := shr (m (contents n (i + dv))) md
                            OR shl (m (contents n (i + dv + 1))) op_mod)) m;
           let m = m(osize n := m (osize n) - dv);
           let m = m(contents n (m (osize n) - 1) := shr n_sgn md);
           (m, n) \<leftarrow> (if n_sgn \<noteq> 0 \<or> n_sz - 1 \<le> dv then grow m heap n 0
                      else Some (m, n));
           Some (trim_zeros n m, n) }
         else if dv \<noteq> 0 then
           let m = for_up 0 (n_sz - dv) (\<lambda>i m. m(contents n i := m (contents n (i + dv)))) m
           in Some (m(osize n := m (osize n) - dv), n)
         else Some (m, n))"

lemma num_shift_right_by_object: "num_shift_right = num_shift_right_by object_append_word"
  by (intro ext) (simp only: num_shift_right_def num_shift_right_by_def)

definition x_num_shift_right :: "mem \<Rightarrow> u64 \<Rightarrow> u64 \<Rightarrow> u64 \<Rightarrow> (mem \<times> u64) option" where
  "x_num_shift_right = num_shift_right_by x_object_append_word"


definition num_shift_by ::
    "new_object \<Rightarrow> grow_object \<Rightarrow> grow_object \<Rightarrow> types \<Rightarrow> mem \<Rightarrow> u64 \<Rightarrow> u64 \<Rightarrow> u64 \<Rightarrow> (mem \<times> u64) option" where
  "num_shift_by new left right T m heap n1 n2 =
     (let n2_sz = m (osize n2);
          n2_sgn = m (contents n2 (n2_sz - 1))
      in if n2_sz \<le> 2 \<and> m (contents n2 0) = 0 then Some (m, n1)
         else if 2 < n2_sz then Some (m, n1)
         else if n2_sgn \<noteq> 0 then do {
           m \<leftarrow> num_negate m n2;
           let sz = m (osize n1) + m (contents n2 0) div 64 + 1 + 1;
           (m, result) \<leftarrow> new m heap (num_type T) sz (contents n1 0) (m (osize n1));
           (m, _) \<leftarrow> left m heap result (m (contents n2 0));
           m \<leftarrow> num_negate m n2;
           Some (m, result) }
         else do {
           let sz = m (osize n1) + 1;
           (m, result) \<leftarrow> new m heap (num_type T) sz (contents n1 0) (m (osize n1));
           (m, _) \<leftarrow> right m heap result (m (contents n2 0));
           Some (m, result) })"

lemma num_shift_by_object: "num_shift T = num_shift_by object num_shift_left num_shift_right T"
  by (intro ext) (simp only: num_shift_def num_shift_by_def)

definition x_num_shift :: "types \<Rightarrow> mem \<Rightarrow> u64 \<Rightarrow> u64 \<Rightarrow> u64 \<Rightarrow> (mem \<times> u64) option" where
  "x_num_shift = num_shift_by x_object x_num_shift_left x_num_shift_right"

definition num_and_by :: "new_object \<Rightarrow> grow_object \<Rightarrow> types \<Rightarrow> mem \<Rightarrow> u64 \<Rightarrow> u64 \<Rightarrow> u64 \<Rightarrow> (mem \<times> u64) option" where
  "num_and_by new grow T m heap n1 n2 = do {
     let sz = umin (m (osize n1)) (m (osize n2));
     (m, result) \<leftarrow> new m heap (num_type T) (sz + 1) (contents n1 0) sz;
     let m = for_up 0 sz
           (\<lambda>i m. m(contents result i := m (contents result i) AND m (contents n2 i))) m;
     (m, result) \<leftarrow> grow m heap result 0;
     Some (trim_zeros result m, result) }"

lemma num_and_by_object: "num_and T = num_and_by object object_append_word T"
  by (intro ext) (simp only: num_and_def num_and_by_def)

definition x_num_and :: "types \<Rightarrow> mem \<Rightarrow> u64 \<Rightarrow> u64 \<Rightarrow> u64 \<Rightarrow> (mem \<times> u64) option" where
  "x_num_and = num_and_by x_object x_object_append_word"

definition num_le_by :: "(types \<Rightarrow> mem \<Rightarrow> u64 \<Rightarrow> u64 \<Rightarrow> u64 \<Rightarrow> (mem \<times> u64) option) \<Rightarrow>
    (types \<Rightarrow> mem \<Rightarrow> u64 \<Rightarrow> u64 \<Rightarrow> mem option) \<Rightarrow> types \<Rightarrow> mem \<Rightarrow> u64 \<Rightarrow> u64 \<Rightarrow> u64 \<Rightarrow> (mem \<times> u64) option" where
  "num_le_by add delete T m heap num1 num2 = do {
     m \<leftarrow> num_negate m num2;
     (m, num3) \<leftarrow> add T m heap num1 num2;
     m \<leftarrow> num_negate m num2;
     let n_sgn = m (contents num3 (m (osize num3) - 1));
     let m = m(refcount num3 := m (refcount num3) + 1);
     m \<leftarrow> delete T m heap num3;
     Some (m, n_sgn) }"

lemma num_le_by_object: "num_le T = num_le_by num_add object_delete T"
  by (intro ext) (simp only: num_le_def num_le_by_def)

definition x_num_le :: "types \<Rightarrow> mem \<Rightarrow> u64 \<Rightarrow> u64 \<Rightarrow> u64 \<Rightarrow> (mem \<times> u64) option" where
  "x_num_le = num_le_by x_num_add x_object_delete"

subsection \<open>Conversion and multiplication\<close>

text \<open>The local arrays of \<^verbatim>\<open>word_to_num\<close> and \<^verbatim>\<open>num_mul\<close> are the ones the other functions of this version use.\<close>

definition x_word_to_num :: "types \<Rightarrow> mem \<Rightarrow> u64 \<Rightarrow> u64 \<Rightarrow> (mem \<times> u64) option" where
  "x_word_to_num T m heap w = x_object (store_words m x_buf [w, 0]) heap (num_type T) 2 x_buf 2"

definition x_num_ldr :: "types \<Rightarrow> mem \<Rightarrow> u64 \<Rightarrow> u64 \<Rightarrow> (mem \<times> u64) option" where
  "x_num_ldr T m heap n = x_word_to_num T m heap (m (m (contents n 0)))"

text \<open>The loop that takes zeros off the front of a number that is not negative.\<close>

definition drop_zeros :: "u64 \<Rightarrow> mem \<Rightarrow> mem" where
  "drop_zeros n m = for_down (m (osize n) - 1) 1 (\<lambda>i m. m (contents n (i - 1)) = 0)
     (\<lambda>i m. m(osize n := m (osize n) - 1)) m"

definition x_num_mul :: "types \<Rightarrow> mem \<Rightarrow> u64 \<Rightarrow> u64 \<Rightarrow> u64 \<Rightarrow> (mem \<times> u64) option" where
  "x_num_mul T m heap num1 num2 = do {
     let (n1, n2) = (if m (osize num2) < m (osize num1) then (num2, num1) else (num1, num2));
     let n1_sz = m (osize n1);
     let n2_sz = m (osize n2);
     let res_sz = n1_sz + n2_sz - 1;
     let n1_sgn = m (contents n1 (n1_sz - 1));
     let n2_sgn = m (contents n2 (n2_sz - 1));
     let res_sgn = n1_sgn XOR n2_sgn;
     if n1_sz = 2 \<and> m (contents n1 0) = 0 then
       x_object (m(x_buf + 8 := 0, x_buf := 0)) heap (num_type T) 2 x_buf 2
     else do {
       m \<leftarrow> (if n1_sgn \<noteq> 0 then num_negate m n1 else Some m);
       m \<leftarrow> (if n2_sgn \<noteq> 0 then num_negate m n2 else Some m);
       (m, result) \<leftarrow> x_object m heap (num_type T) res_sz 0 0;
       let m = m(osize result := res_sz);
       let m = for_up 0 res_sz (\<lambda>i m. m(contents result i := 0)) m;
       let m = for_up 0 (n2_sz - 1) (\<lambda>i m. mul_bits result n1 n1_sz i (m (contents n2 i)) 0 m) m;
       m \<leftarrow> (if n1_sgn \<noteq> 0 then num_negate m n1 else Some m);
       m \<leftarrow> (if n2_sgn \<noteq> 0 then num_negate m n2 else Some m);
       let m = for_down (res_sz - 1) 1 (\<lambda>i m. m (contents result (i - 1)) = 0)
                 (\<lambda>i m. m(osize result := m (osize result) - 1)) m;
       m \<leftarrow> (if res_sgn \<noteq> 0 then num_negate m result else Some m);
       Some (m, result) } }"


subsection \<open>The number of bits\<close>

text \<open>The binary search of \<^verbatim>\<open>nlz\<close> for the highest bit that is set.\<close>

function nlz_loop :: "u64 \<Rightarrow> u64 \<Rightarrow> u64 \<Rightarrow> u64" where
  "nlz_loop n idx sz =
     (if sz \<noteq> 0 then
        let n_idx = shr n idx in
        if n_idx = 1 then 64 - idx - 1
        else nlz_loop n (if n_idx \<noteq> 0 then idx + sz else idx - sz) (drop_bit 1 sz)
      else 64 - idx - 1)"
  by pat_completeness auto
termination
proof (relation "measure (\<lambda>(n, idx, sz). unat sz)")
  fix n idx sz x :: u64
  assume "sz \<noteq> 0"
  then have "unat (sz div 2) < unat sz" by (simp add: unat_div unat_gt_0)
  then show "((n, if x \<noteq> 0 then idx + sz else idx - sz, drop_bit 1 sz), n, idx, sz) \<in> measure (\<lambda>(n, idx, sz). unat sz)"
    by (simp add: drop_bit_eq_div)
qed simp

declare nlz_loop.simps [simp del]

definition nlz :: "u64 \<Rightarrow> u64" where
  "nlz n = (if n = 0 then 64 else if n = 1 then 64 - 1 else nlz_loop n 32 16)"

definition bit_length :: "mem \<Rightarrow> u64 \<Rightarrow> u64" where
  "bit_length m num =
     (let sz = (if m (contents num (m (osize num) - 1)) \<noteq> 0 then m (osize num) - 1 else m (osize num) - 2)
      in (sz + 1) * 64 - nlz (m (contents num sz)))"

subsection \<open>Division\<close>

text \<open>
  The comparison of two numbers of the same length that \<^verbatim>\<open>num_div\<close> makes first. Its loop counts an unsigned
  index down while it is not negative, that is for ever: it ends only at a word of \<open>d\<close> that is larger than
  the word of \<open>n\<close> with the same index.
\<close>

partial_function (option) div_smaller :: "mem \<Rightarrow> u64 \<Rightarrow> u64 \<Rightarrow> u64 \<Rightarrow> unit option" where
  "div_smaller m d n i =
     (if m (contents n i) < m (contents d i) then Some () else div_smaller m d n (i - 1))"

text \<open>The same test in the main loop, with an index that ends.\<close>

function div_below :: "mem \<Rightarrow> u64 \<Rightarrow> u64 \<Rightarrow> u64 \<Rightarrow> bool" where
  "div_below m d n i =
     (if 0 < i then m (contents n (i - 1)) < m (contents d (i - 1)) \<or> div_below m d n (i - 1) else False)"
  by pat_completeness auto
termination
  by (relation "measure (\<lambda>(m, d, n, i). unat i)") (auto simp: word_gt_0)

declare div_below.simps [simp del]

text \<open>The last one: \<open>acc\<close> becomes \<open>acc + 1\<close>.\<close>

definition div_one :: "u64 \<Rightarrow> mem \<Rightarrow> mem option" where
  "div_one acc m = do {
     (m, _) \<leftarrow> for_lim 0 (\<lambda>(m, carry). if carry \<noteq> 0 then m (osize acc) else 0)
       (\<lambda>i (m, carry). let (r, carry) = adc (m (contents acc i)) carry in (m(contents acc i := r), carry)) (m, 1);
     Some m }"

text \<open>\<open>apx\<close> is added to \<open>acc\<close> from word \<open>i\<close> on, until there is no carry.\<close>

definition div_add :: "u64 \<Rightarrow> u64 \<Rightarrow> u64 \<Rightarrow> mem \<Rightarrow> mem option" where
  "div_add acc apx i m = do {
     (m, _, _) \<leftarrow> for_lim i (\<lambda>(m, carry, stop). if stop then 0 else m (osize acc))
       (\<lambda>i (m, carry, stop).
          let (m, carry) = add_word (contents acc i) (m (contents acc i)) (m (contents apx i)) carry m
          in (m, carry, carry = 0)) (m, 0, False);
     Some m }"

text \<open>\<open>d_apx\<close> is subtracted from \<open>n\<close>, which then loses its leading zeros.\<close>

definition div_sub :: "u64 \<Rightarrow> u64 \<Rightarrow> mem \<Rightarrow> mem option" where
  "div_sub n d_apx m = do {
     (m, _) \<leftarrow> for_lim 0 (\<lambda>(m, carry). m (osize n) - 1)
       (\<lambda>i (m, carry).
          let (r, carry) = adc (m (contents n i)) carry;
              m = m(contents n i := r);
              val = (if m (osize d_apx) - 1 < i then -1 else NOT (m (contents d_apx i)));
              (r, c) = adc (m (contents n i)) val
          in (m(contents n i := r), carry + c)) (m, 1);
     Some (drop_zeros n m) }"

text \<open>The main loop; it returns the two approximations, which may have moved.\<close>

partial_function (option) div_loop ::
    "u64 \<Rightarrow> u64 \<Rightarrow> u64 \<Rightarrow> u64 \<Rightarrow> u64 \<Rightarrow> mem \<Rightarrow> u64 \<Rightarrow> u64 \<Rightarrow> u64 \<Rightarrow> u64 \<Rightarrow> (mem \<times> u64 \<times> u64) option" where
  "div_loop heap n d acc db m nb apx d_apx offset =
     (if nb < db then Some (m, apx, d_apx)
      else if nb = db then
        (if div_below m d n (m (osize n) - 1) then Some (m, apx, d_apx)
         else do { m \<leftarrow> div_one acc m; Some (m, apx, d_apx) })
      else do {
        m \<leftarrow> div_add acc apx (offset div 64) m;
        m \<leftarrow> div_sub n d_apx m;
        let nb = bit_length m n;
        let off = nb - db - 1;
        (m, apx) \<leftarrow> x_num_shift_right m heap apx (offset - off);
        (m, d_apx) \<leftarrow> x_num_shift_right m heap d_apx (offset - off);
        div_loop heap n d acc db m nb apx d_apx off })"

text \<open>The label \<^verbatim>\<open>error\<close>, for a quotient of 0.\<close>

definition div_error :: "types \<Rightarrow> mem \<Rightarrow> u64 \<Rightarrow> u64 \<Rightarrow> u64 \<Rightarrow> u64 \<Rightarrow> (mem \<times> u64) option" where
  "div_error T m heap n d d_sgn = do {
     m \<leftarrow> (if d_sgn \<noteq> 0 then num_negate m d else Some m);
     m \<leftarrow> x_object_delete T m heap n;
     x_word_to_num T m heap 0 }"

definition num_div :: "types \<Rightarrow> mem \<Rightarrow> u64 \<Rightarrow> u64 \<Rightarrow> u64 \<Rightarrow> (mem \<times> u64) option" where
  "num_div T m heap num1 d = do {
     (m, n) \<leftarrow> x_object m heap (num_type T) (m (osize num1)) (contents num1 0) (m (osize num1));
     let m = m(refcount n := m (refcount n) + 1);
     let n_sgn = m (contents n (m (osize n) - 1));
     let d_sgn = m (contents d (m (osize d) - 1));
     let acc_sgn = n_sgn XOR d_sgn;
     m \<leftarrow> (if n_sgn \<noteq> 0 then num_negate m n else Some m);
     m \<leftarrow> (if d_sgn \<noteq> 0 then num_negate m d else Some m);
     let nb = bit_length m n;
     let db = bit_length m d;
     if nb < db \<or> db = 0 then div_error T m heap n d d_sgn
     else if nb = db then do {
       _ \<leftarrow> div_smaller m d n (m (osize n) - 1);
       div_error T m heap n d d_sgn }
     else do {
       let acc_sz = m (osize n) - m (osize d) + 2;
       (m, acc) \<leftarrow> x_object m heap (num_type T) acc_sz 0 0;
       let m = m(osize acc := m (osize n) - m (osize d) + 2);
       m \<leftarrow> for_lim 0 (\<lambda>m. m (osize acc)) (\<lambda>i m. m(contents acc i := 0)) m;
       let offset = nb - db - 1;
       (m, d_apx) \<leftarrow> x_object m heap (num_type T) (m (osize n)) (contents d 0) (m (osize d));
       let m = m(refcount d_apx := m (refcount d_apx) + 1);
       (m, apx) \<leftarrow> x_object m heap (num_type T) (m (osize n)) 0 0;
       let m = m(refcount apx := m (refcount apx) + 1);
       let m = m(contents apx 0 := 1, contents apx 1 := 0, osize apx := 2);
       (m, apx) \<leftarrow> x_num_shift_left m heap apx offset;
       (m, d_apx) \<leftarrow> x_num_shift_left m heap d_apx offset;
       (m, apx, d_apx) \<leftarrow> div_loop heap n d acc db m nb apx d_apx offset;
       let m = drop_zeros acc m;
       m \<leftarrow> (if d_sgn \<noteq> 0 then num_negate m d else Some m);
       m \<leftarrow> (if acc_sgn \<noteq> 0 then num_negate m acc else Some m);
       m \<leftarrow> x_object_delete T m heap n;
       m \<leftarrow> x_object_delete T m heap d_apx;
       m \<leftarrow> x_object_delete T m heap apx;
       Some (m, acc) } }"

subsection \<open>The arithmetic functions of the interpreter\<close>

text \<open>The first argument of a function is the function itself.\<close>

definition b_plus :: "types \<Rightarrow> mem \<Rightarrow> u64 \<Rightarrow> u64 \<Rightarrow> (mem \<times> u64) option" where
  "b_plus T m heap args = x_num_add T m heap (obj_array_idx m args 1) (obj_array_idx m args 2)"

definition b_minus :: "types \<Rightarrow> mem \<Rightarrow> u64 \<Rightarrow> u64 \<Rightarrow> (mem \<times> u64) option" where
  "b_minus T m heap args = do {
     let arg2 = obj_array_idx m args 2;
     m \<leftarrow> num_negate m arg2;
     (m, ret) \<leftarrow> x_num_add T m heap (obj_array_idx m args 1) arg2;
     m \<leftarrow> num_negate m arg2;
     Some (m, ret) }"

definition b_shift :: "types \<Rightarrow> mem \<Rightarrow> u64 \<Rightarrow> u64 \<Rightarrow> (mem \<times> u64) option" where
  "b_shift T m heap args = x_num_shift T m heap (obj_array_idx m args 1) (obj_array_idx m args 2)"

definition b_mul :: "types \<Rightarrow> mem \<Rightarrow> u64 \<Rightarrow> u64 \<Rightarrow> (mem \<times> u64) option" where
  "b_mul T m heap args = x_num_mul T m heap (obj_array_idx m args 1) (obj_array_idx m args 2)"

definition b_div :: "types \<Rightarrow> mem \<Rightarrow> u64 \<Rightarrow> u64 \<Rightarrow> (mem \<times> u64) option" where
  "b_div T m heap args = num_div T m heap (obj_array_idx m args 1) (obj_array_idx m args 2)"

end
