(* ===== verification/X86_Props.thy ===== *)
theory X86_Props
  imports X86_Num
begin

text \<open>
  The property of the x86_64 version: the binary search for the highest bit, on which its division rests.
\<close>

lemma unat_shr: "i < 64 \<Longrightarrow> unat (shr n (of_nat i)) = unat n div 2 ^ i"
  by (simp add: shr_def unat_of_nat take_bit_nat_eq_self unat_drop_bit_eq) (simp add: drop_bit_eq_div)

lemma shr_cases:
  assumes "2 ^ k \<le> unat n" "unat n < 2 ^ (k + 1)" "i < 64"
  shows "shr n (of_nat i) = 1 \<longleftrightarrow> i = k" "shr n (of_nat i) = 0 \<longleftrightarrow> k < i"
proof -
  let ?q = "unat n div 2 ^ i"
  consider (low) "i < k" | (eq) "i = k" | (high) "k < i" by linarith
  then have "(?q = 1 \<longleftrightarrow> i = k) \<and> (?q = 0 \<longleftrightarrow> k < i)"
  proof cases
    case low
    then have "2 ^ (i + 1) \<le> (2 :: nat) ^ k" by (intro power_increasing) simp_all
    then have "2 * 2 ^ i \<le> unat n" using assms(1) by simp
    then have "2 \<le> ?q" by (simp add: less_eq_div_iff_mult_less_eq)
    with low show ?thesis by simp
  next
    case eq
    have "?q = 1" by (rule div_nat_eqI) (use assms eq in simp_all)
    with eq show ?thesis by simp
  next
    case high
    then have "2 ^ (k + 1) \<le> (2 :: nat) ^ i" by (intro power_increasing) simp_all
    then have "?q = 0" using assms(2) by simp
    with high show ?thesis by simp
  qed
  moreover have "shr n (of_nat i) = 1 \<longleftrightarrow> ?q = 1" "shr n (of_nat i) = 0 \<longleftrightarrow> ?q = 0"
    unfolding unat_shr [OF assms(3), symmetric] word_unat_eq_iff by simp_all
  ultimately show "shr n (of_nat i) = 1 \<longleftrightarrow> i = k" "shr n (of_nat i) = 0 \<longleftrightarrow> k < i" by simp_all
qed

lemma found: "k < 64 \<Longrightarrow> 64 - of_nat k - 1 = (of_nat (63 - k) :: u64)"
  by simp

lemma nlz_step:
  assumes "2 ^ k \<le> unat n" "unat n < 2 ^ (k + 1)" "i < 64" "k < 64" "sz \<noteq> 0"
  shows "nlz_loop n (of_nat i) sz = (if i = k then of_nat (63 - k)
    else nlz_loop n (if i < k then of_nat i + sz else of_nat i - sz) (drop_bit 1 sz))"
  using shr_cases [OF assms(1-3)] assms(4,5) found
  by (subst nlz_loop.simps) (simp add: Let_def not_less_iff_gr_or_eq)

lemma nlz_stop: "k < 64 \<Longrightarrow> nlz_loop n (of_nat k) 0 = of_nat (63 - k)"
  using found by (subst nlz_loop.simps) simp

lemma half_step:
  assumes "2 ^ Suc j \<le> (64 :: nat)"
  shows "(of_nat (2 ^ Suc j) :: u64) \<noteq> 0" "drop_bit 1 (of_nat (2 ^ Suc j)) = (of_nat (2 ^ j) :: u64)"
proof -
  have u: "unat (of_nat (2 ^ Suc j) :: u64) = 2 ^ Suc j" "unat (of_nat (2 ^ j) :: u64) = 2 ^ j"
    using assms by (simp_all only: unat_of_nat) (simp_all add: take_bit_nat_eq_self)
  show "(of_nat (2 ^ Suc j) :: u64) \<noteq> 0"
  proof
    assume "(of_nat (2 ^ Suc j) :: u64) = 0"
    with u(1) have "(2 :: nat) ^ Suc j = 0" by (simp only: unat_0)
    then show False by simp
  qed
  have "unat (drop_bit 1 (of_nat (2 ^ Suc j) :: u64)) = unat (of_nat (2 ^ j) :: u64)"
    unfolding unat_drop_bit_eq u by (simp add: drop_bit_eq_div)
  then show "drop_bit 1 (of_nat (2 ^ Suc j)) = (of_nat (2 ^ j) :: u64)" by (simp only: word_unat_eq_iff)
qed

lemma nlz_search:
  assumes k: "2 ^ k \<le> unat n" "unat n < 2 ^ (k + 1)" "k < 64"
  shows "2 ^ (j + 1) \<le> i \<Longrightarrow> i + 2 ^ (j + 1) \<le> 64 \<Longrightarrow> k < i + 2 ^ (j + 1) \<Longrightarrow> i < k + 2 ^ (j + 1) \<Longrightarrow>
    nlz_loop n (of_nat i) (of_nat (2 ^ j)) = of_nat (63 - k)"
proof (induction j arbitrary: i)
  case 0
  have i: "i < 64" using 0(1,2) by simp
  have "i = k \<or> k = i + 1 \<or> (i = k + 1)" using 0(3,4) by simp linarith
  moreover have "of_nat i + 1 = (of_nat (i + 1) :: u64)" "0 < i \<Longrightarrow> of_nat i - 1 = (of_nat (i - 1) :: u64)" by simp_all
  ultimately show ?case using nlz_step [OF k(1,2) i k(3), of 1] nlz_stop [OF k(3), of n] by (auto simp: add.commute)
next
  case (Suc j)
  let ?s = "2 ^ Suc j :: nat"
  have "4 * 2 ^ j \<le> i" "i + 4 * 2 ^ j \<le> 64" using Suc.prems(1,2) by simp_all
  moreover have "0 < (2 :: nat) ^ j" "?s = 2 * 2 ^ j" by simp_all
  ultimately have i: "i < 64" "?s \<le> 64" "?s \<le> i" by linarith+
  note h = half_step [OF i(2)]
  have e: "of_nat i + of_nat ?s = (of_nat (i + ?s) :: u64)" "of_nat i - of_nat ?s = (of_nat (i - ?s) :: u64)"
    using i(3) by (simp_all only: of_nat_add of_nat_diff)
  show ?case
  proof (cases "i = k")
    case True
    then show ?thesis unfolding nlz_step [OF k(1,2) i(1) k(3) h(1)] by simp
  next
    case False
    let ?i = "if i < k then i + ?s else i - ?s"
    have "nlz_loop n (of_nat i) (of_nat ?s) = nlz_loop n (of_nat ?i) (of_nat (2 ^ j))"
      unfolding nlz_step [OF k(1,2) i(1) k(3) h(1)] h(2) e using False by (cases "i < k") (simp_all only: if_True if_False)
    also have "\<dots> = of_nat (63 - k)"
    proof (rule Suc.IH)
      show "2 ^ (j + 1) \<le> ?i" "?i + 2 ^ (j + 1) \<le> 64" "k < ?i + 2 ^ (j + 1)" "?i < k + 2 ^ (j + 1)"
        using Suc.prems False by auto
    qed
    finally show ?thesis .
  qed
qed

text \<open>
  C40. \<open>nlz\<close> counts the leading zeros of a word: 64 for the word 0, and for every other word the highest
  bit that is set is the one with number \<open>63 - nlz n\<close>.
\<close>

theorem nlz_correct:
  "if n = 0 then nlz n = 64
   else unat (nlz n) < 64 \<and> 2 ^ (63 - unat (nlz n)) \<le> unat n \<and> unat n < 2 ^ (64 - unat (nlz n))"
proof (cases "n = 0")
  case False
  then have "0 < unat n" by (simp add: unat_gt_0)
  then obtain k where k: "2 ^ k \<le> unat n" "unat n < 2 ^ (k + 1)" using ex_power_ivl1 [of 2 "unat n"] by auto
  have "(2 :: nat) ^ k < 2 ^ 64" using k(1) unat_less_2p64 [of n] by linarith
  then have k64: "k < 64" by (rule power_less_imp_less_exp [rotated]) simp
  have "nlz n = of_nat (63 - k)"
  proof (cases "n = 1")
    case True
    with k(1) have "(2 :: nat) ^ k \<le> 2 ^ 0" by simp
    then have "k \<le> 0" by (rule power_le_imp_le_exp [rotated]) simp
    with True show ?thesis by (simp add: nlz_def)
  next
    case n1: False
    have "k \<noteq> 0"
    proof
      assume "k = 0"
      with k have "unat n = unat (1 :: u64)" by simp
      with n1 show False by (simp only: word_unat_eq_iff)
    qed
    with nlz_search [OF k k64, of 4 32] k64 False n1 show ?thesis by (simp add: nlz_def)
  qed
  then have u: "unat (nlz n) = 63 - k" by (simp add: unat_of_nat take_bit_nat_eq_self)
  have "63 - (63 - k) = k" "64 - (63 - k) = k + 1" using k64 by simp_all
  with k False show ?thesis unfolding u by simp
qed (simp add: nlz_def)

end
