(* ===== verification/X86_Avl.thy ===== *)
theory X86_Avl
  imports Avl_Mem
begin

text \<open>
  The AVL trees of the x86_64 version (\<^verbatim>\<open>x86_64/datastructures.c\<close>). Only the search for a free block and
  the rotations are written differently from those of the root directory. The names begin with \<open>x_\<close>. The
  lemmas say that both versions have the same effect, so that all that is proved about the trees and the
  allocator holds for both.
\<close>

subsection \<open>The search for a free block\<close>

partial_function (option) x_avl_min_ge :: "mem \<Rightarrow> u64 \<Rightarrow> u64 \<Rightarrow> u64 option" where
  "x_avl_min_ge m tree data =
     (if tree = 0 then Some 0
      else do {
        o1 \<leftarrow> x_avl_min_ge m (nd_left m tree) data;
        o2 \<leftarrow> (if o1 = 0 then x_avl_min_ge m (nd_right m tree) data else Some 0);
        if o1 \<noteq> 0 then Some o1
        else if o2 \<noteq> 0 then Some o2
        else if data \<le> nd_data m tree then Some tree
        else Some 0 })"

lemma first_of:
  "(do { o1 \<leftarrow> a; o2 \<leftarrow> (if o1 = 0 then b else Some 0); if o1 \<noteq> 0 then Some o1 else if o2 \<noteq> 0 then Some o2 else c }) =
   (do { o1 \<leftarrow> a; if o1 \<noteq> 0 then Some o1 else do { o2 \<leftarrow> b; if o2 \<noteq> (0 :: u64) then Some o2 else c } })"
  by (cases a) simp_all

lemma first_of_mono:
  assumes "(do { o1 \<leftarrow> a; if o1 \<noteq> 0 then Some o1 else do { o2 \<leftarrow> b; if o2 \<noteq> (0 :: u64) then Some o2 else c } }) = Some r"
    and "\<And>r. a = Some r \<Longrightarrow> a' = Some r" "\<And>r. b = Some r \<Longrightarrow> b' = Some r"
  shows "(do { o1 \<leftarrow> a'; if o1 \<noteq> 0 then Some o1 else do { o2 \<leftarrow> b'; if o2 \<noteq> 0 then Some o2 else c } }) = Some r"
proof (cases a)
  case (Some o1)
  then have a: "a' = Some o1" by (rule assms(2))
  show ?thesis
  proof (cases "o1 = 0")
    case True
    with assms(1) Some obtain o2 where b: "b = Some o2" by (cases b) auto
    with assms(1,3) Some True a show ?thesis by simp
  qed (use assms(1) Some a in simp)
qed (use assms(1) in simp)

lemma x_avl_min_ge_eq: "x_avl_min_ge m tree data = avl_min_ge m tree data"
proof -
  have a: "avl_min_ge m tree data = Some r" if "x_avl_min_ge m tree data = Some r" for r
  proof (rule x_avl_min_ge.raw_induct [where P = "\<lambda>m tree data r. avl_min_ge m tree data = Some r", OF _ that], goal_cases)
    case (1 f m tree data r)
    show ?case
    proof (cases "tree = 0")
      case False
      from 1(2) False have
        "(do { o1 \<leftarrow> f m (nd_left m tree) data; if o1 \<noteq> 0 then Some o1 else do { o2 \<leftarrow> f m (nd_right m tree) data;
           if o2 \<noteq> 0 then Some o2 else if data \<le> nd_data m tree then Some tree else Some 0 } }) = Some r"
        by (simp only: if_False first_of)
      from first_of_mono [OF this 1(1) 1(1)] show ?thesis using False by (subst avl_min_ge.simps) (simp only: if_False)
    qed (use 1(2) in \<open>simp add: avl_min_ge.simps\<close>)
  qed
  have b: "x_avl_min_ge m tree data = Some r" if "avl_min_ge m tree data = Some r" for r
  proof (rule avl_min_ge.raw_induct [where P = "\<lambda>m tree data r. x_avl_min_ge m tree data = Some r", OF _ that], goal_cases)
    case (1 f m tree data r)
    show ?case
    proof (cases "tree = 0")
      case False
      from 1(2) False have
        "(do { o1 \<leftarrow> f m (nd_left m tree) data; if o1 \<noteq> 0 then Some o1 else do { o2 \<leftarrow> f m (nd_right m tree) data;
           if o2 \<noteq> 0 then Some o2 else if data \<le> nd_data m tree then Some tree else Some 0 } }) = Some r"
        by (simp only: if_False)
      from first_of_mono [OF this 1(1) 1(1)] show ?thesis
        using False by (subst x_avl_min_ge.simps) (simp only: if_False first_of)
    qed (use 1(2) in \<open>simp add: x_avl_min_ge.simps\<close>)
  qed
  show ?thesis
  proof (cases "x_avl_min_ge m tree data")
    case None
    then show ?thesis by (cases "avl_min_ge m tree data") (simp_all add: b)
  qed (simp add: a)
qed

subsection \<open>Rotations\<close>

definition x_avl_rotate_left :: "mem \<Rightarrow> u64 \<Rightarrow> u64 \<Rightarrow> mem \<times> u64" where
  "x_avl_rotate_left m tr node =
     (if node = 0 then (m, 0)
      else let parent = get_parent m node;
               root = nd_right m node;
               old_rootbf = balance_factor m root
           in
      if root = 0 then (m, 0)
      else let rl_child = nd_left m root;
               m = set_nd_right m node (nd_left m root);
               m = set_nd_prev m node root;
               m = set_nd_left m root node;
               m = set_nd_prev m root parent;
               m = (if rl_child \<noteq> 0
                    then set_nd_prev m rl_child (node OR get_balance_factor m rl_child) else m);
               m = (if parent \<noteq> 0 then
                      (if nd_left m parent = node then set_nd_left m parent root
                       else set_nd_right m parent root)
                    else m(tr := root));
               m = (if old_rootbf \<noteq> 0 then
                      (let m = set_nd_prev m node (nd_prev m node OR rev_balance_factor 0)
                       in set_nd_prev m root (nd_prev m root OR rev_balance_factor 0))
                    else
                      (let m = set_nd_prev m node (nd_prev m node OR rev_balance_factor 1)
                       in set_nd_prev m root (nd_prev m root OR rev_balance_factor (-1))))
           in (m, root))"

definition x_avl_rotate_right :: "mem \<Rightarrow> u64 \<Rightarrow> u64 \<Rightarrow> mem \<times> u64" where
  "x_avl_rotate_right m tr node =
     (if node = 0 then (m, 0)
      else let parent = get_parent m node;
               root = nd_left m node;
               old_rootbf = balance_factor m root
           in
      if root = 0 then (m, 0)
      else let lr_child = nd_right m root;
               m = set_nd_left m node (nd_right m root);
               m = set_nd_prev m node root;
               m = set_nd_right m root node;
               m = set_nd_prev m root parent;
               m = (if lr_child \<noteq> 0
                    then set_nd_prev m lr_child (node OR get_balance_factor m lr_child) else m);
               m = (if parent \<noteq> 0 then
                      (if nd_left m parent = node then set_nd_left m parent root
                       else set_nd_right m parent root)
                    else m(tr := root));
               m = (if old_rootbf \<noteq> 0 then
                      (let m = set_nd_prev m node (nd_prev m node OR rev_balance_factor 0)
                       in set_nd_prev m root (nd_prev m root OR rev_balance_factor 0))
                    else
                      (let m = set_nd_prev m node (nd_prev m node OR rev_balance_factor (-1))
                       in set_nd_prev m root (nd_prev m root OR rev_balance_factor 1)))
           in (m, root))"

definition x_avl_rotate_lr :: "mem \<Rightarrow> u64 \<Rightarrow> u64 \<Rightarrow> mem \<times> u64" where
  "x_avl_rotate_lr m tr node =
     (let child = nd_left m node;
          lr_child = nd_right m child;
          bf = balance_factor m lr_child;
          (m, _) = x_avl_rotate_left m tr child;
          (m, ret) = x_avl_rotate_right m tr node;
          m = (if bf = 1 then
                 (let m = fst (set_balance_factor m child (-1)) in fst (set_balance_factor m node 0))
               else if bf = -1 then
                 (let m = fst (set_balance_factor m node 1) in fst (set_balance_factor m child 0))
               else
                 (let m = fst (set_balance_factor m child 0) in fst (set_balance_factor m node 0)));
          pp = get_parent m node;
          m = fst (set_balance_factor m pp 0)
      in (m, ret))"

definition x_avl_rotate_rl :: "mem \<Rightarrow> u64 \<Rightarrow> u64 \<Rightarrow> mem \<times> u64" where
  "x_avl_rotate_rl m tr node =
     (let child = nd_right m node;
          rl_child = nd_left m child;
          bf = balance_factor m rl_child;
          (m, _) = x_avl_rotate_right m tr child;
          (m, ret) = x_avl_rotate_left m tr node;
          m = (if bf = 1 then
                 (let m = fst (set_balance_factor m node (-1)) in fst (set_balance_factor m child 0))
               else if bf = -1 then
                 (let m = fst (set_balance_factor m child 1) in fst (set_balance_factor m node 0))
               else
                 (let m = fst (set_balance_factor m child 0) in fst (set_balance_factor m node 0)));
          pp = get_parent m node;
          m = fst (set_balance_factor m pp 0)
      in (m, ret))"

text \<open>The nodes a rotation touches: the node, the child that goes up, its inner child and the parent.\<close>

definition rotate_apart :: "u64 \<Rightarrow> u64 \<Rightarrow> u64 \<Rightarrow> u64 \<Rightarrow> u64 \<Rightarrow> bool" where
  "rotate_apart tr n r c p \<longleftrightarrow>
     sep n r \<and> tr \<notin> foot n \<union> foot r \<and> (c \<noteq> 0 \<longrightarrow> sep n c \<and> sep r c \<and> tr \<notin> foot c) \<and>
     (p \<noteq> 0 \<longrightarrow> sep n p \<and> sep r p \<and> (c \<noteq> 0 \<longrightarrow> sep c p))"

text \<open>The writes of a rotation, in the two orders.\<close>

lemma rotate_writes:
  assumes "distinct [n, n', r, r']" "\<forall>(x, v) \<in> set ws. x \<notin> {n, n', r, r'}"
  shows "(fold (\<lambda>(x, v) f. f(x := v)) ws (m(n' := a, n := b, r' := c, r := d)))(n := e, r := f) =
    (fold (\<lambda>(x, v) f. f(x := v)) ws m)(n' := a, r' := c, n := e, r := f)"
  using assms(2)
proof (induction ws arbitrary: m)
  case Nil
  then show ?case using assms(1) by (auto simp: fun_eq_iff)
next
  case (Cons w ws)
  obtain x v where w: "w = (x, v)" by fastforce
  have "(m(n' := a, n := b, r' := c, r := d))(x := v) = (m(x := v))(n' := a, n := b, r' := c, r := d)"
    using Cons.prems w by (auto simp: fun_eq_iff)
  with Cons.IH [of "m(x := v)"] Cons.prems w show ?case by (simp del: fun_upd_apply)
qed

lemma rotate_cells:
  assumes "sep n r"
  shows "distinct [n, n + 16, r, r + 8]" "distinct [n, n + 8, r, r + 16]" "n \<noteq> r"
proof -
  have ne: "x \<noteq> y" if "x \<in> foot n" "y \<in> foot r" for x y using assms that by (auto simp: sep_def)
  have f: "a \<in> foot a" "a + 8 \<in> foot a" "a + 16 \<in> foot a" for a by (simp_all add: foot_def)
  show "distinct [n, n + 16, r, r + 8]"
    using ne [OF f(1) f(1)] ne [OF f(1) f(2)] ne [OF f(3) f(1)] ne [OF f(3) f(2)] by simp
  show "distinct [n, n + 8, r, r + 16]"
    using ne [OF f(1) f(1)] ne [OF f(1) f(3)] ne [OF f(2) f(1)] ne [OF f(2) f(3)] by simp
  show "n \<noteq> r" by (rule ne [OF f(1) f(1)])
qed

definition outer :: "u64 \<Rightarrow> u64 \<Rightarrow> u64 \<Rightarrow> u64 set" where
  "outer tr c p = {tr} \<union> (if c \<noteq> 0 then foot c else {}) \<union> (if p \<noteq> 0 then foot p else {})"

lemma rotate_apartD:
  assumes "rotate_apart tr n r c p"
  shows "sep n r" "foot n \<inter> outer tr c p = {}" "foot r \<inter> outer tr c p = {}"
    "c \<noteq> 0 \<Longrightarrow> p \<noteq> 0 \<Longrightarrow> sep c p" "c \<noteq> 0 \<Longrightarrow> tr \<notin> foot c"
proof -
  note a = assms [unfolded rotate_apart_def]
  show "sep n r" "c \<noteq> 0 \<Longrightarrow> p \<noteq> 0 \<Longrightarrow> sep c p" "c \<noteq> 0 \<Longrightarrow> tr \<notin> foot c" using a by simp_all
  have "sep x y \<Longrightarrow> foot x \<inter> foot y = {}" for x y by (simp add: sep_def)
  then show "foot n \<inter> outer tr c p = {}" "foot r \<inter> outer tr c p = {}"
    using a unfolding outer_def by (simp_all add: Int_Un_distrib)
qed

text \<open>The writes that both versions make in the same order.\<close>

definition do_outer :: "mem \<Rightarrow> u64 \<Rightarrow> u64 \<Rightarrow> u64 \<Rightarrow> u64 \<Rightarrow> u64 \<Rightarrow> mem" where
  "do_outer m tr n r c p =
     (let m = (if c \<noteq> 0 then set_nd_prev m c (n OR get_balance_factor m c) else m) in
      if p \<noteq> 0 then (if nd_left m p = n then set_nd_left m p r else set_nd_right m p r) else m(tr := r))"

definition outer_writes :: "mem \<Rightarrow> u64 \<Rightarrow> u64 \<Rightarrow> u64 \<Rightarrow> u64 \<Rightarrow> u64 \<Rightarrow> (u64 \<times> u64) list" where
  "outer_writes m tr n r c p =
     (if c \<noteq> 0 then [(c, n OR get_balance_factor m c)] else []) @
     [if p \<noteq> 0 then (if nd_left m p = n then (p + 8, r) else (p + 16, r)) else (tr, r)]"

lemma outer_writes_in: "(x, v) \<in> set (outer_writes m tr n r c p) \<Longrightarrow> x \<in> outer tr c p"
  by (simp add: outer_writes_def outer_def foot_def split: if_splits) blast+

lemma outer_writes_out:
  assumes "rotate_apart tr n r c p" "D \<subseteq> foot n \<union> foot r"
  shows "\<forall>(x, v) \<in> set (outer_writes m tr n r c p). x \<notin> D"
proof (intro ballI, clarify)
  fix x v assume x: "(x, v) \<in> set (outer_writes m tr n r c p)" "x \<in> D"
  note d = rotate_apartD(2,3) [OF assms(1)]
  from x(2) assms(2) have "x \<in> foot n \<or> x \<in> foot r" by blast
  with outer_writes_in [OF x(1)] d show False by (metis IntI emptyE)
qed

lemma outer_writes_do:
  assumes a: "rotate_apart tr n r c p" and e: "\<forall>x \<in> outer tr c p. m1 x = m x"
  shows "do_outer m1 tr n r c p =
    fold (\<lambda>(x, v) f. f(x := v)) (outer_writes m tr n r c p) m1"
proof -
  have c: "get_balance_factor m1 c = get_balance_factor m c" if "c \<noteq> 0"
    using e that by (simp add: outer_def foot_def get_balance_factor_def nd_prev_def)
  have p: "nd_left m1 p = nd_left m p" if "p \<noteq> 0"
    using e that by (simp add: outer_def foot_def nd_left_def)
  have cp: "nd_left (set_nd_prev f c v) p = nd_left f p" if "c \<noteq> 0" "p \<noteq> 0" for f v
  proof -
    have "c \<in> foot c" "p + 8 \<in> foot p" by (simp_all add: foot_def)
    then have "c \<noteq> p + 8" using rotate_apartD(4) [OF a that] unfolding sep_def by (metis IntI emptyE)
    then show ?thesis by (simp add: nd_left_def set_nd_prev_def)
  qed
  show ?thesis
    using c p cp unfolding outer_writes_def do_outer_def Let_def
    by (cases "c = 0"; cases "p = 0") (simp_all add: set_nd_prev_def set_nd_left_def set_nd_right_def del: fun_upd_apply)
qed

lemma fold_writes_other: "\<forall>(x, v) \<in> set ws. x \<noteq> y \<Longrightarrow> fold (\<lambda>(x, v) f. f(x := v)) ws m y = m y"
  by (induction ws arbitrary: m) auto

lemma rotate_core:
  fixes m :: mem
  assumes ap: "rotate_apart tr n r c p" and d: "distinct [n, n', r, r']" "n' \<in> foot n" "r' \<in> foot r"
  defines "m1 \<equiv> m(n' := c, n := r, r' := n, r := p)"
  shows "(do_outer m1 tr n r c p)(n := e, r := f) = (do_outer m tr n r c p)(n' := c, r' := n, n := e, r := f)"
    "do_outer m1 tr n r c p n = r" "do_outer m1 tr n r c p r = p"
    "do_outer m tr n r c p r = m r" "do_outer m tr n r c p r' = m r'"
    "get_parent (if c \<noteq> 0 then set_nd_prev m c v else m) n = get_parent m n"
proof -
  let ?F = "fold (\<lambda>(x, v) f. f(x := v)) (outer_writes m tr n r c p)"
  have "n \<in> foot n" "r \<in> foot r" by (simp_all add: foot_def)
  then have sub: "{n, n', r, r'} \<subseteq> foot n \<union> foot r" using d(2,3) by blast
  have o: "\<forall>(x, v) \<in> set (outer_writes m tr n r c p). x \<notin> {n, n', r, r'}" by (rule outer_writes_out [OF ap sub])
  have k: "?F f x = f x" if "x \<in> {n, n', r, r'}" for f x
    by (rule fold_writes_other) (use o that in blast)
  have out: "x \<notin> {n, n', r, r'}" if "x \<in> outer tr c p" for x
  proof -
    have "x \<notin> foot n" "x \<notin> foot r" using that rotate_apartD(2,3) [OF ap] by (simp_all only: disjoint_iff) blast+
    then show ?thesis using sub by blast
  qed
  then have "\<forall>x \<in> outer tr c p. m1 x = m x" unfolding m1_def by simp
  note w1 = outer_writes_do [OF ap this]
  have "\<forall>x \<in> outer tr c p. m x = m x" by simp
  note w = outer_writes_do [OF ap this]
  show "(do_outer m1 tr n r c p)(n := e, r := f) = (do_outer m tr n r c p)(n' := c, r' := n, n := e, r := f)"
    unfolding w1 w unfolding m1_def by (rule rotate_writes [OF d(1) o])
  show "do_outer m1 tr n r c p n = r" "do_outer m1 tr n r c p r = p"
    unfolding w1 using d(1) by (simp_all add: k m1_def)
  show "do_outer m tr n r c p r = m r" "do_outer m tr n r c p r' = m r'" unfolding w by (simp_all add: k)
  have "c \<noteq> n" if "c \<noteq> 0" using out [of c] that by (simp add: outer_def foot_def)
  then show "get_parent (if c \<noteq> 0 then set_nd_prev m c v else m) n = get_parent m n"
    by (cases "c = 0") (simp_all add: get_parent_def nd_prev_def set_nd_prev_def)
qed

lemma finish_rotation:
  assumes "M n = r" "M r = p" "n \<noteq> r"
  shows "(let M = M in
     (if b \<noteq> 0
      then (let M = set_nd_prev M n (nd_prev M n OR rev_balance_factor 0)
            in set_nd_prev M r (nd_prev M r OR rev_balance_factor 0))
      else (let M = set_nd_prev M n (nd_prev M n OR rev_balance_factor x)
            in set_nd_prev M r (nd_prev M r OR rev_balance_factor y)), r)) =
    (M(n := r OR rev_balance_factor (if b \<noteq> 0 then 0 else x), r := p OR rev_balance_factor (if b \<noteq> 0 then 0 else y)), r)"
  using assms by (simp add: set_nd_prev_def nd_prev_def Let_def)

lemma rotate_left_eq:
  assumes "rotate_apart tr node (nd_right m node) (nd_left m (nd_right m node)) (get_parent m node)"
  shows "x_avl_rotate_left m tr node = avl_rotate_left m tr node"
proof -
  define r where "r = nd_right m node"
  define c where "c = nd_left m r"
  define p where "p = get_parent m node"
  have ap: "rotate_apart tr node r c p" using assms unfolding r_def c_def p_def .
  note d = rotate_cells(1) [OF rotate_apartD(1) [OF ap]]
  let ?m1 = "m(node + 16 := c, node := r, r + 8 := node, r := p)"
  have f: "node + 16 \<in> foot node" "r + 8 \<in> foot r" by (simp_all add: foot_def)
  note core = rotate_core [OF ap d f, of m]
  have m1: "set_nd_prev (set_nd_left (set_nd_prev (set_nd_right m node c) node r) r node) r p = ?m1"
    by (simp only: set_nd_prev_def set_nd_left_def set_nd_right_def)
  have b: "balance_factor (do_outer m tr node r c p) r = balance_factor m r" "nd_left (do_outer m tr node r c p) r = c"
    using core(4,5) by (simp_all only: balance_factor_def get_balance_factor_def nd_prev_def nd_left_def c_def [symmetric]) (simp add: c_def nd_left_def)
  show ?thesis
  proof (cases "node = 0 \<or> r = 0")
    case False
    let ?f = "rev_balance_factor (if balance_factor m r \<noteq> 0 then 0 else 1)"
    let ?g = "rev_balance_factor (if balance_factor m r \<noteq> 0 then 0 else -1)"
    have "x_avl_rotate_left m tr node = (let M = do_outer ?m1 tr node r c p in
        (if balance_factor m r \<noteq> 0
         then (let M = set_nd_prev M node (nd_prev M node OR rev_balance_factor 0)
               in set_nd_prev M r (nd_prev M r OR rev_balance_factor 0))
         else (let M = set_nd_prev M node (nd_prev M node OR rev_balance_factor 1)
               in set_nd_prev M r (nd_prev M r OR rev_balance_factor (-1))), r))"
      using False unfolding x_avl_rotate_left_def do_outer_def Let_def r_def [symmetric] c_def [symmetric] p_def [symmetric] m1
      by (simp only: de_Morgan_disj if_False)
    also have "\<dots> = ((do_outer ?m1 tr node r c p)(node := r OR ?f, r := p OR ?g), r)"
      by (rule finish_rotation [OF core(2,3) rotate_cells(3) [OF rotate_apartD(1) [OF ap]]])
    finally have "x_avl_rotate_left m tr node = ((do_outer ?m1 tr node r c p)(node := r OR ?f, r := p OR ?g), r)" .
    moreover have "avl_rotate_left m tr node = (let M = do_outer m tr node r c p in
        (let M' = set_nd_left (set_nd_right M node (nd_left M r)) r node in
         if balance_factor M r \<noteq> 0
         then set_nd_prev (set_nd_prev M' node (r OR rev_balance_factor 0)) r (p OR rev_balance_factor 0)
         else set_nd_prev (set_nd_prev M' node (r OR rev_balance_factor 1)) r (p OR rev_balance_factor (-1)), r))"
      using False core(6) unfolding avl_rotate_left_def do_outer_def Let_def r_def [symmetric] c_def [symmetric] p_def
      by (simp only: de_Morgan_disj if_False)
    then have "avl_rotate_left m tr node =
        ((do_outer m tr node r c p)(node + 16 := c, r + 8 := node, node := r OR ?f, r := p OR ?g), r)"
      by (simp add: Let_def b set_nd_prev_def set_nd_left_def set_nd_right_def)
    ultimately show ?thesis by (simp only: core(1))
  next
    case True
    then show ?thesis
      unfolding x_avl_rotate_left_def avl_rotate_left_def Let_def r_def [symmetric]
      by (elim disjE) (simp_all only: if_True if_cancel simp_thms)
  qed
qed

lemma rotate_right_eq:
  assumes "rotate_apart tr node (nd_left m node) (nd_right m (nd_left m node)) (get_parent m node)"
  shows "x_avl_rotate_right m tr node = avl_rotate_right m tr node"
proof -
  define r where "r = nd_left m node"
  define c where "c = nd_right m r"
  define p where "p = get_parent m node"
  have ap: "rotate_apart tr node r c p" using assms unfolding r_def c_def p_def .
  note d = rotate_cells(2) [OF rotate_apartD(1) [OF ap]]
  let ?m1 = "m(node + 8 := c, node := r, r + 16 := node, r := p)"
  have f: "node + 8 \<in> foot node" "r + 16 \<in> foot r" by (simp_all add: foot_def)
  note core = rotate_core [OF ap d f, of m]
  have m1: "set_nd_prev (set_nd_right (set_nd_prev (set_nd_left m node c) node r) r node) r p = ?m1"
    by (simp only: set_nd_prev_def set_nd_left_def set_nd_right_def)
  have b: "balance_factor (do_outer m tr node r c p) r = balance_factor m r" "nd_right (do_outer m tr node r c p) r = c"
    using core(4,5) by (simp_all only: balance_factor_def get_balance_factor_def nd_prev_def nd_right_def c_def [symmetric]) (simp add: c_def nd_right_def)
  show ?thesis
  proof (cases "node = 0 \<or> r = 0")
    case False
    let ?f = "rev_balance_factor (if balance_factor m r \<noteq> 0 then 0 else -1)"
    let ?g = "rev_balance_factor (if balance_factor m r \<noteq> 0 then 0 else 1)"
    have "x_avl_rotate_right m tr node = (let M = do_outer ?m1 tr node r c p in
        (if balance_factor m r \<noteq> 0
         then (let M = set_nd_prev M node (nd_prev M node OR rev_balance_factor 0)
               in set_nd_prev M r (nd_prev M r OR rev_balance_factor 0))
         else (let M = set_nd_prev M node (nd_prev M node OR rev_balance_factor (-1))
               in set_nd_prev M r (nd_prev M r OR rev_balance_factor 1)), r))"
      using False unfolding x_avl_rotate_right_def do_outer_def Let_def r_def [symmetric] c_def [symmetric] p_def [symmetric] m1
      by (simp only: de_Morgan_disj if_False)
    also have "\<dots> = ((do_outer ?m1 tr node r c p)(node := r OR ?f, r := p OR ?g), r)"
      by (rule finish_rotation [OF core(2,3) rotate_cells(3) [OF rotate_apartD(1) [OF ap]]])
    finally have "x_avl_rotate_right m tr node = ((do_outer ?m1 tr node r c p)(node := r OR ?f, r := p OR ?g), r)" .
    moreover have "avl_rotate_right m tr node = (let M = do_outer m tr node r c p in
        (let M' = set_nd_right (set_nd_left M node (nd_right M r)) r node in
         if balance_factor M r \<noteq> 0
         then set_nd_prev (set_nd_prev M' node (r OR rev_balance_factor 0)) r (p OR rev_balance_factor 0)
         else set_nd_prev (set_nd_prev M' node (r OR rev_balance_factor (-1))) r (p OR rev_balance_factor 1), r))"
      using False core(6) unfolding avl_rotate_right_def do_outer_def Let_def r_def [symmetric] c_def [symmetric] p_def
      by (simp only: de_Morgan_disj if_False)
    then have "avl_rotate_right m tr node =
        ((do_outer m tr node r c p)(node + 8 := c, r + 16 := node, node := r OR ?f, r := p OR ?g), r)"
      by (simp add: Let_def b set_nd_prev_def set_nd_left_def set_nd_right_def)
    ultimately show ?thesis by (simp only: core(1))
  next
    case True
    then show ?thesis
      unfolding x_avl_rotate_right_def avl_rotate_right_def Let_def r_def [symmetric]
      by (elim disjE) (simp_all only: if_True if_cancel simp_thms)
  qed
qed

lemma rotate_lr_eq:
  assumes "rotate_apart tr (nd_left m node) (nd_right m (nd_left m node)) (nd_left m (nd_right m (nd_left m node)))
      (get_parent m (nd_left m node))"
    and "m1 = fst (avl_rotate_left m tr (nd_left m node))"
    and "rotate_apart tr node (nd_left m1 node) (nd_right m1 (nd_left m1 node)) (get_parent m1 node)"
  shows "x_avl_rotate_lr m tr node = avl_rotate_lr m tr node"
proof -
  obtain x where e: "avl_rotate_left m tr (nd_left m node) = (m1, x)" using assms(2) by (metis prod.collapse)
  show ?thesis
    unfolding x_avl_rotate_lr_def avl_rotate_lr_def Let_def rotate_left_eq [OF assms(1)] e prod.case
      rotate_right_eq [OF assms(3)] by (rule refl)
qed

lemma rotate_rl_eq:
  assumes "rotate_apart tr (nd_right m node) (nd_left m (nd_right m node)) (nd_right m (nd_left m (nd_right m node)))
      (get_parent m (nd_right m node))"
    and "m1 = fst (avl_rotate_right m tr (nd_right m node))"
    and "rotate_apart tr node (nd_right m1 node) (nd_left m1 (nd_right m1 node)) (get_parent m1 node)"
  shows "x_avl_rotate_rl m tr node = avl_rotate_rl m tr node"
proof -
  obtain x where e: "avl_rotate_right m tr (nd_right m node) = (m1, x)" using assms(2) by (metis prod.collapse)
  show ?thesis
    unfolding x_avl_rotate_rl_def avl_rotate_rl_def Let_def rotate_right_eq [OF assms(1)] e prod.case
      rotate_left_eq [OF assms(3)] by (rule refl)
qed

end
