(* ===== verification/Lisp.thy ===== *)
theory Lisp
  imports Vm Gc
begin

text \<open>
  The interpreter (\<^verbatim>\<open>lisp.c\<close>): the tokenizer, functions and name spaces, the recursive evaluator
  (\<^verbatim>\<open>call_fn\<close>, \<^verbatim>\<open>eval_fn\<close>, \<^verbatim>\<open>run_prog\<close>) and the evaluator with its frames on the heap
  (\<^verbatim>\<open>_run_prog\<close>, \<^verbatim>\<open>run_prog_stack\<close>), which the kernel uses.

  A function is an object of three words: its name space (a set of pairs, with the enclosing
  function under the key \<open>sup\<close>), the array of its argument names and its body. An expression
  is an array of tokens. The global variables of \<^verbatim>\<open>lisp.c\<close> that the functions read are the fields
  of records.
\<close>

record delims =
  blk_l_delim :: u64
  blk_r_delim :: u64
  str_delim :: u64

record names =
  sup :: u64
  slf :: u64
  ops :: u64

subsection \<open>The tokenizer\<close>

text \<open>The local variable \<^verbatim>\<open>tmp_init\<close>, and the arrays of one word that \<^verbatim>\<open>tokenize\<close> makes strings of.\<close>

definition tok_buf :: u64 where "tok_buf = 0x7f880"

text \<open>The characters up to the closing quote.\<close>

partial_function (option) tok_string ::
    "delims \<Rightarrow> u64 \<Rightarrow> u64 \<Rightarrow> u64 \<Rightarrow> u64 \<Rightarrow> mem \<times> u64 \<times> u64 \<Rightarrow> (mem \<times> u64 \<times> u64) option" where
  "tok_string D heap code code_len tmp s =
     (let (m, i, tok) = s in
      if i < code_len then
        let m = m(contents tmp 0 := m (code + 8 * i)) in
        if obj_cmp m tmp (str_delim D) = 0 then Some (m, i, tok)
        else do {
          (m, tok) \<leftarrow> object_append_word m heap tok (m (code + 8 * i));
          tok_string D heap code code_len tmp (m, i + 1, tok) }
      else Some s)"

text \<open>The characters up to the next white space or operator, which is left for the main loop.\<close>

partial_function (option) tok_word ::
    "u64 \<Rightarrow> u64 \<Rightarrow> u64 \<Rightarrow> u64 \<Rightarrow> u64 \<Rightarrow> u64 \<Rightarrow> mem \<times> u64 \<times> u64 \<Rightarrow> (mem \<times> u64 \<times> u64) option" where
  "tok_word heap code code_len ws tok_ops tmp s =
     (let (m, i, tok) = s in
      if i < code_len then do {
        let m = m(contents tmp 0 := m (code + 8 * i));
        w \<leftarrow> in_set m ws tmp;
        p \<leftarrow> (if w \<noteq> 0 then Some w else in_set m tok_ops tmp);
        if p \<noteq> 0 then Some (m, i - 1, tok)
        else do {
          (m, tok) \<leftarrow> object_append_word m heap tok (m (code + 8 * i));
          tok_word heap code code_len ws tok_ops tmp (m, i + 1, tok) } }
      else Some s)"

text \<open>
  \<^verbatim>\<open>_tokenize\<close> calls itself for a block in brackets. \<open>Tokenize\<close> is its beginning, \<open>Tok_Loop\<close> the loop,
  \<open>Tok_Append\<close> the append of the tokens of a block. The state holds the memory, the index that all
  calls share, and the result of the last call.
\<close>

datatype tok_call = Tokenize | Tok_Loop u64 u64 | Tok_Append u64

type_synonym tok_state = "mem \<times> u64 \<times> u64"

definition tok_start :: "types \<Rightarrow> u64 \<Rightarrow> tok_state \<Rightarrow> (tok_state \<times> tok_call list) option" where
  "tok_start T heap s = do {
     let (m, i, res) = s;
     (m, ret) \<leftarrow> obj_array T m heap 8;
     (m, tmp) \<leftarrow> object (m(tok_buf := 0)) heap (string_type T) 1 tok_buf 1;
     let m = m(refcount tmp := m (refcount tmp) + 1);
     Some ((m, i, res), [Tok_Loop ret tmp]) }"

text \<open>A token that begins with an operator; \<open>tok\<close> is the operator character.\<close>

definition tok_operator ::
    "types \<Rightarrow> delims \<Rightarrow> u64 \<Rightarrow> u64 \<Rightarrow> u64 \<Rightarrow> u64 \<Rightarrow> u64 \<Rightarrow> u64 \<Rightarrow> u64 \<Rightarrow> tok_state \<Rightarrow>
     (tok_state \<times> tok_call list) option" where
  "tok_operator T D heap code code_len tok_ops ret tmp tok s =
     (let (m, i, res) = s in
      if obj_cmp m tok (str_delim D) = 0 then do {
        let m = m(osize tok := m (osize tok) - 1);
        (m, i, tok) \<leftarrow> tok_string D heap code code_len tmp (m, i + 1, tok);
        m \<leftarrow> obj_array_append m heap ret tok;
        Some ((m, i + 1, res), [Tok_Loop ret tmp]) }
      else if obj_cmp m tok (blk_l_delim D) = 0 then do {
        m \<leftarrow> o_del T m heap tok;
        Some ((m, i + 1, res), [Tokenize, Tok_Append ret, Tok_Loop ret tmp]) }
      else if obj_cmp m tok (blk_r_delim D) = 0 then do {
        m \<leftarrow> object_delete T m heap tmp;
        m \<leftarrow> o_del T m heap tok;
        Some ((m, i + 1, ret), []) }
      else do {
        p \<leftarrow> in_set m tok_ops tok;
        m \<leftarrow> obj_array_append m heap ret p;
        m \<leftarrow> o_del T m heap tok;
        Some ((m, i + 1, res), [Tok_Loop ret tmp]) })"

definition tok_loop ::
    "types \<Rightarrow> delims \<Rightarrow> u64 \<Rightarrow> u64 \<Rightarrow> u64 \<Rightarrow> u64 \<Rightarrow> u64 \<Rightarrow> u64 \<Rightarrow> u64 \<Rightarrow> tok_state \<Rightarrow>
     (tok_state \<times> tok_call list) option" where
  "tok_loop T D heap code code_len ws tok_ops ret tmp s =
     (let (m, i, res) = s in
      if i < code_len then do {
        (m, tok) \<leftarrow> object m heap (string_type T) 1 (code + 8 * i) 1;
        w \<leftarrow> in_set m ws tok;
        if w \<noteq> 0 then do {
          m \<leftarrow> o_del T m heap tok;
          Some ((m, i + 1, res), [Tok_Loop ret tmp]) }
        else do {
          p \<leftarrow> in_set m tok_ops tok;
          if p \<noteq> 0 then tok_operator T D heap code code_len tok_ops ret tmp tok (m, i, res)
          else do {
            (m, i, tok) \<leftarrow> tok_word heap code code_len ws tok_ops tmp (m, i + 1, tok);
            (m, b) \<leftarrow> str_to_num T m heap tok;
            m \<leftarrow> (if b \<noteq> 0 then o_del T m heap tok else Some m);
            let tok = (if b \<noteq> 0 then b else tok);
            m \<leftarrow> obj_array_append m heap ret tok;
            Some ((m, i + 1, res), [Tok_Loop ret tmp]) } } }
      else do {
        m \<leftarrow> object_delete T m heap tmp;
        Some ((m, i, ret), []) })"

fun tok_step ::
    "types \<Rightarrow> delims \<Rightarrow> u64 \<Rightarrow> u64 \<Rightarrow> u64 \<Rightarrow> u64 \<Rightarrow> u64 \<Rightarrow> tok_call \<Rightarrow> tok_state \<Rightarrow>
     (tok_state \<times> tok_call list) option" where
  "tok_step T D heap code code_len ws tok_ops Tokenize s = tok_start T heap s"
| "tok_step T D heap code code_len ws tok_ops (Tok_Loop ret tmp) s =
     tok_loop T D heap code code_len ws tok_ops ret tmp s"
| "tok_step T D heap code code_len ws tok_ops (Tok_Append ret) (m, i, res) = do {
     m \<leftarrow> obj_array_append m heap ret res;
     Some ((m, i, res), []) }"

definition tokenize_from ::
    "types \<Rightarrow> delims \<Rightarrow> mem \<Rightarrow> u64 \<Rightarrow> u64 \<Rightarrow> u64 \<Rightarrow> u64 \<Rightarrow> u64 \<Rightarrow> u64 \<Rightarrow> (mem \<times> u64 \<times> u64) option" where
  "tokenize_from T D m heap code code_len i ws tok_ops =
     run_calls (tok_step T D heap code code_len ws tok_ops) [Tokenize] (m, i, 0)"

text \<open>\<^verbatim>\<open>word _c[1] = {'c'}; c = object(heap, string_type, 1, _c, 1);\<close>\<close>

definition char_object :: "types \<Rightarrow> mem \<Rightarrow> u64 \<Rightarrow> u64 \<Rightarrow> (mem \<times> u64) option" where
  "char_object T m heap c = object (m(tok_buf := c)) heap (string_type T) 1 tok_buf 1"

text \<open>\<^verbatim>\<open>set_add(heap, s, x, set_cmp);\<close> for several objects.\<close>

fun set_add_all :: "u64 \<Rightarrow> mem \<Rightarrow> u64 \<Rightarrow> u64 list \<Rightarrow> mem option" where
  "set_add_all heap m s [] = Some m"
| "set_add_all heap m s (x # xs) = do {
     (m, _) \<leftarrow> set_add m heap s x set_cmp;
     set_add_all heap m s xs }"

definition tokenize :: "types \<Rightarrow> mem \<Rightarrow> u64 \<Rightarrow> u64 \<Rightarrow> u64 \<Rightarrow> (mem \<times> u64) option" where
  "tokenize T m heap code code_len = do {
     (m, def) \<leftarrow> char_object T m heap 126;
     (m, call) \<leftarrow> char_object T m heap 58;
     (m, reduce) \<leftarrow> char_object T m heap 62;
     (m, name) \<leftarrow> char_object T m heap 124;
     (m, comp) \<leftarrow> char_object T m heap 60;
     (m, l_delim) \<leftarrow> char_object T m heap 91;
     (m, r_delim) \<leftarrow> char_object T m heap 93;
     (m, s_delim) \<leftarrow> char_object T m heap 39;
     (m, space) \<leftarrow> char_object T m heap 32;
     (m, newline) \<leftarrow> char_object T m heap 10;
     (m, tab) \<leftarrow> char_object T m heap 9;
     (m, null) \<leftarrow> char_object T m heap 0;
     (m, tok_ops) \<leftarrow> set_new T m heap;
     let m = m(refcount tok_ops := m (refcount tok_ops) + 1);
     m \<leftarrow> set_add_all heap m tok_ops [def, call, reduce, name, comp, l_delim, r_delim, s_delim];
     (m, ws) \<leftarrow> set_new T m heap;
     let m = m(refcount ws := m (refcount ws) + 1);
     m \<leftarrow> set_add_all heap m ws [space, newline, tab, null];
     (m, _, ret) \<leftarrow> tokenize_from T \<lparr>blk_l_delim = l_delim, blk_r_delim = r_delim, str_delim = s_delim\<rparr>
        m heap code code_len 0 ws tok_ops;
     m \<leftarrow> object_delete T m heap tok_ops;
     m \<leftarrow> object_delete T m heap ws;
     Some (m, ret) }"

subsection \<open>Functions and name spaces\<close>

definition f_ns :: u64 where "f_ns = 0"
definition f_args :: u64 where "f_args = 1"
definition f_exp :: u64 where "f_exp = 2"

definition count_ref :: "mem \<Rightarrow> u64 \<Rightarrow> mem" where
  "count_ref m obj = m(refcount obj := m (refcount obj) + 1)"

definition uncount_ref :: "mem \<Rightarrow> u64 \<Rightarrow> mem" where
  "uncount_ref m obj = m(refcount obj := m (refcount obj) - 1)"

definition new_fn :: "types \<Rightarrow> names \<Rightarrow> mem \<Rightarrow> u64 \<Rightarrow> u64 \<Rightarrow> u64 \<Rightarrow> u64 \<Rightarrow> (mem \<times> u64) option" where
  "new_fn T N m heap sup1 args exp = do {
     (m, ns) \<leftarrow> set_new T m heap;
     let fn_sz = 3;
     (m, self) \<leftarrow> object m heap (function_type T) fn_sz 0 0;
     if self = 0 then Some (m, 0)
     else do {
       (m, cond) \<leftarrow> gc_add m heap self;
       if cond \<noteq> 0 then do { m \<leftarrow> object_delete T m heap self; Some (m, 0) }
       else do {
         let m = m(osize self := fn_sz);
         let m = m(contents self f_ns := ns);
         let m = m(contents self f_args := args);
         let m = m(contents self f_exp := exp);
         let m = count_ref m ns;
         let m = count_ref m args;
         let m = count_ref m exp;
         m \<leftarrow> (if sup1 \<noteq> 0 then do {
                 (m, _) \<leftarrow> set_add_str_key T m heap ns (sup N) sup1;
                 Some m }
               else Some m);
         Some (m, self) } } }"

text \<open>
  When the name space has no entry \<open>sup\<close>, \<open>kv_pair\<close> is the null pointer: its second word, at
  address 40, is read and overwritten.
\<close>

definition del_fn :: "types \<Rightarrow> names \<Rightarrow> mem \<Rightarrow> u64 \<Rightarrow> u64 \<Rightarrow> mem option" where
  "del_fn T N m heap fn = do {
     let ns = m (contents fn f_ns);
     let args = m (contents fn f_args);
     let exp = m (contents fn f_exp);
     (m, kv_pair) \<leftarrow> set_remove_str_key m heap ns (sup N);
     let sup1 = m (contents kv_pair 1);
     let m = m(contents kv_pair 1 := 0);
     m \<leftarrow> object_delete T m heap kv_pair;
     let m = (if sup1 \<noteq> 0 then uncount_ref m sup1 else m);
     let m = m(contents fn f_args := 0);
     let m = m(contents fn f_exp := 0);
     (m, n) \<leftarrow> gc_del_obj T m heap fn;
     if n \<noteq> 0 then do {
       m \<leftarrow> object_delete T m heap args;
       object_delete T m heap exp }
     else do {
       (m, _) \<leftarrow> set_add_str_key T m heap ns (sup N) sup1;
       let m = m(contents fn f_args := args);
       Some (m(contents fn f_exp := exp)) } }"

text \<open>The search for a name, through the enclosing functions.\<close>

partial_function (option) get_val_from :: "types \<Rightarrow> names \<Rightarrow> mem \<Rightarrow> u64 \<Rightarrow> u64 \<Rightarrow> u64 option" where
  "get_val_from T N m obj ns = do {
     ret \<leftarrow> set_get_value m ns obj;
     s \<leftarrow> set_get_value m ns (sup N);
     if s = 0 \<or> obj_cmp m (m (otype s)) (function_type T) \<noteq> 0 then Some ret
     else if ret = 0 then get_val_from T N m obj (m (contents s f_ns))
     else Some ret }"

definition get_val :: "types \<Rightarrow> names \<Rightarrow> mem \<Rightarrow> u64 \<Rightarrow> u64 \<Rightarrow> u64 option" where
  "get_val T N m obj self = do {
     let ns = m (contents self 0);
     if ns = 0 then Some 0
     else do {
       ret \<leftarrow> get_val_from T N m obj ns;
       Some (if ret = 0 \<and> obj_cmp m obj (slf N) = 0 then self else ret) } }"

definition def_fn :: "types \<Rightarrow> names \<Rightarrow> mem \<Rightarrow> u64 \<Rightarrow> u64 \<Rightarrow> u64 \<Rightarrow> (mem \<times> u64) option" where
  "def_fn T N m heap val self =
     new_fn T N m heap self (obj_array_idx m val 0) (obj_array_idx m val 1)"

definition name_fn :: "types \<Rightarrow> mem \<Rightarrow> u64 \<Rightarrow> u64 \<Rightarrow> u64 \<Rightarrow> (mem \<times> u64) option" where
  "name_fn T m heap val self = do {
     let ns = m (contents self 0);
     let key = obj_array_idx m val 0;
     let res = obj_array_idx m val 1;
     (m, kv_pair) \<leftarrow> set_remove_str_key m heap ns key;
     m \<leftarrow> object_delete T m heap kv_pair;
     (m, _) \<leftarrow> set_add_str_key T m heap ns key res;
     Some (m, res) }"

subsection \<open>Calls\<close>

text \<open>The arguments of a call get their names in the name space of the function.\<close>

definition bind_args :: "types \<Rightarrow> mem \<Rightarrow> u64 \<Rightarrow> u64 \<Rightarrow> u64 \<Rightarrow> u64 \<Rightarrow> u64 \<Rightarrow> mem option" where
  "bind_args T m heap tmp_ns arg_names args a_n_len =
     for_up_o 0 a_n_len (\<lambda>i m. do {
       (m, _) \<leftarrow> set_add_str_key T m heap tmp_ns (obj_array_idx m arg_names i) (obj_array_idx m args (i + 1));
       Some m }) m"

text \<open>The last element of the result of a body is the value of the call; the rest is freed.\<close>

definition take_result :: "types \<Rightarrow> mem \<Rightarrow> u64 \<Rightarrow> u64 \<Rightarrow> (mem \<times> u64) option" where
  "take_result T m heap result = do {
     let len = obj_array_size m result;
     let (m, ret) = (if len \<noteq> 0 then
         let ret = obj_array_idx m result (len - 1);
             m = set_obj_array_idx m result (len - 1) 0
         in (uncount_ref m ret, ret)
       else (m, 0));
     m \<leftarrow> object_delete T m heap result;
     Some (m, ret) }"

end
