(* ===== verification/Eval.thy ===== *)
theory Eval
  imports Lisp
begin

text \<open>
  The two evaluators of \<^verbatim>\<open>lisp.c\<close>. The first is recursive: \<^verbatim>\<open>call_fn\<close> and \<^verbatim>\<open>eval_fn\<close> call each other, the
  latter through the function pointers stored under the operators; the pointers are the fields of
  \<open>fn_addrs\<close>. The second, \<^verbatim>\<open>_run_prog\<close>, keeps a stack of frames on the heap and runs a state machine.
\<close>

subsection \<open>The recursive evaluator\<close>

record fn_addrs =
  df_addr :: u64
  cf_addr :: u64
  ef_addr :: u64
  nf_addr :: u64

text \<open>
  The calls: \<open>Call_Fn args self\<close> and \<open>Eval_Fn exp self\<close> are the functions; \<open>Call_End\<close> is the rest of
  \<^verbatim>\<open>call_fn\<close> after the evaluation of the body, \<open>Eval_Loop\<close> the loop of \<^verbatim>\<open>eval_fn\<close> over the elements,
  \<open>Eval_Ops\<close> its loop over the operators (with \<open>tmp2\<close> the value so far) and \<open>Eval_Op_End\<close> what
  follows the call of an operation. The state holds the memory and the result of the last call.
\<close>

datatype eval_call =
    Call_Fn u64 u64
  | Call_End u64
  | Eval_Fn u64 u64
  | Eval_Loop u64 u64 u64 u64
  | Eval_Ops u64 u64 u64 u64 u64 u64
  | Eval_Op_End u64 u64 u64 u64 u64 u64

type_synonym eval_state = "mem \<times> u64"

definition call_fn_step ::
    "types \<Rightarrow> names \<Rightarrow> u64 \<Rightarrow> u64 \<Rightarrow> u64 \<Rightarrow> mem \<Rightarrow> (eval_state \<times> eval_call list) option" where
  "call_fn_step T N heap args self m =
     (if obj_cmp m (m (otype args)) (array_type T) \<noteq> 0 then do {
        v \<leftarrow> get_val T N m args self;
        Some ((m, v), []) }
      else do {
        let self1 = obj_array_idx m args 0;
        let ns = m (contents self1 0);
        let arg_names = m (contents self1 1);
        let exp = m (contents self1 2);
        let a_n_len = obj_array_size m arg_names;
        if obj_array_size m args = a_n_len + 1 then do {
          sup1 \<leftarrow> set_get_value m ns (sup N);
          (m, tmp_fn) \<leftarrow> new_fn T N m heap sup1 arg_names exp;
          let tmp_ns = m (contents tmp_fn 0);
          m \<leftarrow> bind_args T m heap tmp_ns arg_names args a_n_len;
          let m = count_ref m tmp_fn;
          Some ((m, 0), [Eval_Fn exp tmp_fn, Call_End tmp_fn]) }
        else Some ((m, 0), []) })"

definition call_end_step ::
    "types \<Rightarrow> u64 \<Rightarrow> u64 \<Rightarrow> eval_state \<Rightarrow> (eval_state \<times> eval_call list) option" where
  "call_end_step T heap tmp_fn s = do {
     let (m, result) = s;
     let m = count_ref m result;
     m \<leftarrow> check_heap_capacity T m heap;
     let m = uncount_ref m tmp_fn;
     (m, ret) \<leftarrow> take_result T m heap result;
     Some ((m, ret), []) }"

definition eval_fn_step :: "types \<Rightarrow> u64 \<Rightarrow> u64 \<Rightarrow> u64 \<Rightarrow> mem \<Rightarrow> (eval_state \<times> eval_call list) option" where
  "eval_fn_step T heap exp self m =
     (if obj_cmp m (m (otype exp)) (array_type T) \<noteq> 0 then Some ((m, exp), [])
      else do {
        (m, tmp) \<leftarrow> obj_array T m heap 8;
        Some ((m, 0), [Eval_Loop exp self tmp 0]) })"

text \<open>The operators in front of an element go on the operator stack; the state is \<open>(m, i, exp_i)\<close>.\<close>

partial_function (option) push_ops ::
    "names \<Rightarrow> u64 \<Rightarrow> u64 \<Rightarrow> u64 \<Rightarrow> mem \<times> u64 \<times> u64 \<Rightarrow> (mem \<times> u64 \<times> u64) option" where
  "push_ops N heap exp op_stack s = do {
     let (m, i, exp_i) = s;
     v \<leftarrow> set_get_value m (ops N) exp_i;
     if v \<noteq> 0 then do {
       (m, _) \<leftarrow> queue_push m heap op_stack exp_i;
       push_ops N heap exp op_stack (m, i + 1, obj_array_idx m exp (i + 1)) }
     else Some s }"

definition eval_loop_step ::
    "names \<Rightarrow> u64 \<Rightarrow> u64 \<Rightarrow> u64 \<Rightarrow> u64 \<Rightarrow> u64 \<Rightarrow> mem \<Rightarrow> (eval_state \<times> eval_call list) option" where
  "eval_loop_step N heap exp self tmp i m =
     (if i < obj_array_size m exp then do {
        let exp_i = obj_array_idx m exp i;
        (m, op_stack) \<leftarrow> queue m heap;
        (m, i, exp_i) \<leftarrow> push_ops N heap exp op_stack (m, i, exp_i);
        Some ((m, 0), [Eval_Ops exp self tmp i op_stack exp_i]) }
      else Some ((m, tmp), []))"

text \<open>The call through the function pointer of an operation. Other addresses hold no function.\<close>

definition operation_step ::
    "types \<Rightarrow> names \<Rightarrow> fn_addrs \<Rightarrow> u64 \<Rightarrow> u64 \<Rightarrow> u64 \<Rightarrow> u64 \<Rightarrow> mem \<Rightarrow>
     (eval_state \<times> eval_call list) option" where
  "operation_step T N F heap addr val self m =
     (if addr = df_addr F then do { (m, r) \<leftarrow> def_fn T N m heap val self; Some ((m, r), []) }
      else if addr = cf_addr F then Some ((m, 0), [Call_Fn val self])
      else if addr = ef_addr F then Some ((m, 0), [Eval_Fn val self])
      else if addr = nf_addr F then do { (m, r) \<leftarrow> name_fn T m heap val self; Some ((m, r), []) }
      else None)"

definition eval_ops_step ::
    "types \<Rightarrow> names \<Rightarrow> fn_addrs \<Rightarrow> u64 \<Rightarrow> u64 \<Rightarrow> u64 \<Rightarrow> u64 \<Rightarrow> u64 \<Rightarrow> u64 \<Rightarrow> u64 \<Rightarrow> mem \<Rightarrow>
     (eval_state \<times> eval_call list) option" where
  "eval_ops_step T N F heap exp self tmp i op_stack tmp2 m = do {
     (m, op) \<leftarrow> queue_pop m heap op_stack;
     if op \<noteq> 0 then do {
       operation \<leftarrow> set_get_value m (ops N) op;
       let old = tmp2;
       let m = count_ref m old;
       (s, new) \<leftarrow> operation_step T N F heap (m (contents operation 0)) tmp2 self m;
       Some (s, new @ [Eval_Op_End exp self tmp i op_stack old]) }
     else do {
       m \<leftarrow> obj_array_append m heap tmp tmp2;
       m \<leftarrow> free m heap op_stack;
       Some ((m, 0), [Eval_Loop exp self tmp (i + 1)]) } }"

fun eval_step ::
    "types \<Rightarrow> names \<Rightarrow> fn_addrs \<Rightarrow> u64 \<Rightarrow> eval_call \<Rightarrow> eval_state \<Rightarrow> (eval_state \<times> eval_call list) option" where
  "eval_step T N F heap (Call_Fn args self) (m, _) = call_fn_step T N heap args self m"
| "eval_step T N F heap (Call_End tmp_fn) s = call_end_step T heap tmp_fn s"
| "eval_step T N F heap (Eval_Fn exp self) (m, _) = eval_fn_step T heap exp self m"
| "eval_step T N F heap (Eval_Loop exp self tmp i) (m, _) = eval_loop_step N heap exp self tmp i m"
| "eval_step T N F heap (Eval_Ops exp self tmp i op_stack tmp2) (m, _) =
     eval_ops_step T N F heap exp self tmp i op_stack tmp2 m"
| "eval_step T N F heap (Eval_Op_End exp self tmp i op_stack old) (m, tmp2) = do {
     m \<leftarrow> object_delete T m heap old;
     Some ((m, 0), [Eval_Ops exp self tmp i op_stack tmp2]) }"

definition eval_fn :: "types \<Rightarrow> names \<Rightarrow> fn_addrs \<Rightarrow> mem \<Rightarrow> u64 \<Rightarrow> u64 \<Rightarrow> u64 \<Rightarrow> (mem \<times> u64) option" where
  "eval_fn T N F m heap exp self = run_calls (eval_step T N F heap) [Eval_Fn exp self] (m, 0)"

definition call_fn :: "types \<Rightarrow> names \<Rightarrow> fn_addrs \<Rightarrow> mem \<Rightarrow> u64 \<Rightarrow> u64 \<Rightarrow> u64 \<Rightarrow> (mem \<times> u64) option" where
  "call_fn T N F m heap args self = run_calls (eval_step T N F heap) [Call_Fn args self] (m, 0)"

text \<open>\<^verbatim>\<open>set_add_str_key(heap, ops, op, word_to_num(heap, f));\<close>\<close>

definition add_op :: "types \<Rightarrow> mem \<Rightarrow> u64 \<Rightarrow> u64 \<Rightarrow> u64 \<Rightarrow> u64 \<Rightarrow> mem option" where
  "add_op T m heap op_set op f = do {
     (m, n) \<leftarrow> word_to_num T m heap f;
     (m, _) \<leftarrow> set_add_str_key T m heap op_set op n;
     Some m }"

definition run_prog :: "types \<Rightarrow> fn_addrs \<Rightarrow> mem \<Rightarrow> u64 \<Rightarrow> u64 \<Rightarrow> u64 \<Rightarrow> (mem \<times> u64) option" where
  "run_prog T F m heap code code_sz = do {
     (m, sup1) \<leftarrow> cstr_to_string T m heap (lit ''sup'');
     let m = count_ref m sup1;
     (m, slf1) \<leftarrow> cstr_to_string T m heap (lit ''self'');
     let m = count_ref m slf1;
     (m, def) \<leftarrow> cstr_to_string T m heap (lit ''~'');
     (m, call) \<leftarrow> cstr_to_string T m heap (lit '':'');
     (m, reduce) \<leftarrow> cstr_to_string T m heap (lit ''>'');
     (m, name) \<leftarrow> cstr_to_string T m heap (lit ''|'');
     (m, op_set) \<leftarrow> set_new T m heap;
     let N = \<lparr>sup = sup1, slf = slf1, ops = op_set\<rparr>;
     let m = count_ref m op_set;
     m \<leftarrow> add_op T m heap op_set def (df_addr F);
     m \<leftarrow> add_op T m heap op_set call (cf_addr F);
     m \<leftarrow> add_op T m heap op_set reduce (ef_addr F);
     m \<leftarrow> add_op T m heap op_set name (nf_addr F);
     (m, exp) \<leftarrow> tokenize T m heap code code_sz;
     (m, empty_lst) \<leftarrow> obj_array T m heap 0;
     (m, main) \<leftarrow> new_fn T N m heap 0 empty_lst exp;
     (m, args) \<leftarrow> obj_array T m heap 1;
     (m, expr) \<leftarrow> obj_array T m heap 1;
     let m = count_ref m expr;
     m \<leftarrow> obj_array_append m heap args main;
     m \<leftarrow> obj_array_append m heap expr call;
     m \<leftarrow> obj_array_append m heap expr args;
     (m, res) \<leftarrow> eval_fn T N F m heap expr main;
     let m = count_ref m res;
     let ret = obj_array_idx m res 0;
     let m = set_obj_array_idx m res 0 0;
     m \<leftarrow> object_delete T m heap res;
     m \<leftarrow> object_delete T m heap expr;
     m \<leftarrow> object_delete T m heap op_set;
     m \<leftarrow> gc_collect T m heap;
     Some (m, ret) }"

subsection \<open>Frames\<close>

text \<open>The fields of a frame, as addresses.\<close>

definition fr_self :: "u64 \<Rightarrow> u64" where "fr_self f = f"
definition fr_exp :: "u64 \<Rightarrow> u64" where "fr_exp f = f + 8"
definition fr_tmp :: "u64 \<Rightarrow> u64" where "fr_tmp f = f + 16"
definition fr_op_stk :: "u64 \<Rightarrow> u64" where "fr_op_stk f = f + 24"
definition fr_old :: "u64 \<Rightarrow> u64" where "fr_old f = f + 32"
definition fr_i :: "u64 \<Rightarrow> u64" where "fr_i f = f + 40"
definition fr_state :: "u64 \<Rightarrow> u64" where "fr_state f = f + 48"
definition fr_prev :: "u64 \<Rightarrow> u64" where "fr_prev f = f + 56"

lemmas frame_fields = fr_self_def fr_exp_def fr_tmp_def fr_op_stk_def fr_old_def fr_i_def
  fr_state_def fr_prev_def

definition get_frame :: "mem \<Rightarrow> u64 \<Rightarrow> u64 \<Rightarrow> u64 \<Rightarrow> u64 \<Rightarrow> u64 \<Rightarrow> (mem \<times> u64) option" where
  "get_frame m heap self exp state prev_frame = do {
     (m, frame) \<leftarrow> alloc m heap 8;
     if frame = 0 then Some (m, frame)
     else do {
       let m = m(fr_self frame := self);
       let m = m(fr_exp frame := exp);
       let m = m(fr_tmp frame := 0);
       let m = m(fr_op_stk frame := 0);
       let m = m(fr_old frame := 0);
       let m = m(fr_i frame := 0);
       let m = m(fr_state frame := state);
       let m = m(fr_prev frame := prev_frame);
       Some (m, frame) } }"

definition del_frame :: "mem \<Rightarrow> u64 \<Rightarrow> u64 \<Rightarrow> (mem \<times> u64) option" where
  "del_frame m heap frame = do {
     let prev = m (fr_prev frame);
     m \<leftarrow> free m heap frame;
     Some (m, prev) }"

subsection \<open>The state machine\<close>

text \<open>\<^verbatim>\<open>enum state\<close>\<close>

definition s_cf :: u64 where "s_cf = 0"
definition s_cf_ret :: u64 where "s_cf_ret = 1"
definition s_df :: u64 where "s_df = 2"
definition s_ef :: u64 where "s_ef = 3"
definition s_ef_0 :: u64 where "s_ef_0 = 4"
definition s_ef_1 :: u64 where "s_ef_1 = 5"
definition s_ccf :: u64 where "s_ccf = 6"
definition s_nf :: u64 where "s_nf = 7"

lemmas frame_states = s_cf_def s_cf_ret_def s_df_def s_ef_def s_ef_0_def s_ef_1_def s_ccf_def s_nf_def

text \<open>
  How a case of the \<^verbatim>\<open>switch\<close> ends: \<open>Break m ret\<close> goes on to \<^verbatim>\<open>del_frame\<close>, \<open>Go m frame ret\<close> is
  \<^verbatim>\<open>continue\<close> with the given frame.
\<close>

datatype case_end = Break mem u64 | Go mem u64 u64

definition case_cf ::
    "types \<Rightarrow> names \<Rightarrow> (u64 \<Rightarrow> mem \<Rightarrow> mem) \<Rightarrow> u64 \<Rightarrow> u64 \<Rightarrow> u64 \<Rightarrow> u64 \<Rightarrow> u64 \<Rightarrow> mem \<Rightarrow> case_end option" where
  "case_cf T N svc heap fifo regs frame ret m =
     (if obj_cmp m (m (otype (m (fr_exp frame)))) (array_type T) \<noteq> 0 then do {
        v \<leftarrow> get_val T N m (m (fr_exp frame)) (m (fr_self frame));
        Some (Break m v) }
      else do {
        let self1 = obj_array_idx m (m (fr_exp frame)) 0;
        if obj_cmp m (m (otype self1)) (bcode_type T) = 0 then do {
          (m, v) \<leftarrow> run_expr svc m fifo regs (m (fr_exp frame));
          Some (Break m v) }
        else do {
          let ns = m (contents self1 f_ns);
          let arg_names = m (contents self1 f_args);
          let exp = m (contents self1 f_exp);
          let a_n_len = obj_array_size m arg_names;
          if obj_array_size m (m (fr_exp frame)) = a_n_len + 1 then do {
            sup1 \<leftarrow> set_get_value m ns (sup N);
            (m, tmp_fn) \<leftarrow> new_fn T N m heap sup1 arg_names exp;
            let tmp_ns = m (contents tmp_fn 0);
            m \<leftarrow> bind_args T m heap tmp_ns arg_names (m (fr_exp frame)) a_n_len;
            let m = count_ref m tmp_fn;
            let m = m(fr_state frame := s_cf_ret);
            let m = m(fr_tmp frame := tmp_fn);
            (m, frame) \<leftarrow> get_frame m heap tmp_fn exp s_ef frame;
            Some (Go m frame ret) }
          else Some (Break m 0) } })"

definition case_cf_ret :: "types \<Rightarrow> names \<Rightarrow> u64 \<Rightarrow> u64 \<Rightarrow> u64 \<Rightarrow> mem \<Rightarrow> case_end option" where
  "case_cf_ret T N heap frame ret m = do {
     let m = count_ref m ret;
     let result = ret;
     m \<leftarrow> check_heap_capacity T m heap;
     let m = uncount_ref m (m (fr_tmp frame));
     m \<leftarrow> del_fn T N m heap (m (fr_tmp frame));
     (m, ret) \<leftarrow> take_result T m heap result;
     Some (Break m ret) }"

definition case_ef_1 :: "types \<Rightarrow> names \<Rightarrow> u64 \<Rightarrow> u64 \<Rightarrow> u64 \<Rightarrow> mem \<Rightarrow> case_end option" where
  "case_ef_1 T N heap frame ret m = do {
     m \<leftarrow> object_delete T m heap (m (fr_old frame));
     (m, op) \<leftarrow> queue_pop m heap (m (fr_op_stk frame));
     if op \<noteq> 0 then do {
       let m = m(fr_old frame := ret);
       let m = count_ref m (m (fr_old frame));
       v \<leftarrow> set_get_value m (ops N) op;
       (m, frame) \<leftarrow> get_frame m heap (m (fr_self frame)) ret (m (contents v 0)) frame;
       Some (Go m frame ret) }
     else do {
       m \<leftarrow> obj_array_append m heap (m (fr_tmp frame)) ret;
       let m = m(fr_i frame := m (fr_i frame) + 1);
       if obj_array_size m (m (fr_exp frame)) \<le> m (fr_i frame) then do {
         m \<leftarrow> free m heap (m (fr_op_stk frame));
         Some (Break m (m (fr_tmp frame))) }
       else Some (Go (m(fr_state frame := s_ef_0)) frame ret) } }"

partial_function (option) push_frame_ops ::
    "names \<Rightarrow> u64 \<Rightarrow> u64 \<Rightarrow> mem \<times> u64 \<Rightarrow> (mem \<times> u64) option" where
  "push_frame_ops N heap frame s = do {
     let (m, ret) = s;
     v \<leftarrow> set_get_value m (ops N) ret;
     if v \<noteq> 0 then do {
       (m, _) \<leftarrow> queue_push m heap (m (fr_op_stk frame)) ret;
       let m = m(fr_i frame := m (fr_i frame) + 1);
       push_frame_ops N heap frame (m, obj_array_idx m (m (fr_exp frame)) (m (fr_i frame))) }
     else Some s }"

definition case_ef_0 :: "types \<Rightarrow> names \<Rightarrow> u64 \<Rightarrow> u64 \<Rightarrow> mem \<Rightarrow> case_end option" where
  "case_ef_0 T N heap frame m = do {
     let ret = obj_array_idx m (m (fr_exp frame)) (m (fr_i frame));
     (m, ret) \<leftarrow> push_frame_ops N heap frame (m, ret);
     let m = m(fr_state frame := s_ef_1);
     let m = m(fr_old frame := 0);
     case_ef_1 T N heap frame ret m }"

definition case_ef :: "types \<Rightarrow> names \<Rightarrow> u64 \<Rightarrow> u64 \<Rightarrow> u64 \<Rightarrow> mem \<Rightarrow> case_end option" where
  "case_ef T N heap frame ret m =
     (if obj_cmp m (m (otype (m (fr_exp frame)))) (array_type T) \<noteq> 0
         \<or> obj_array_size m (m (fr_exp frame)) \<le> m (fr_i frame)
      then Some (Break m ret)
      else do {
        (m, p) \<leftarrow> obj_array T m heap 8;
        let m = m(fr_tmp frame := p);
        (m, p) \<leftarrow> queue m heap;
        let m = m(fr_op_stk frame := p);
        case_ef_0 T N heap frame m })"

definition case_nf :: "types \<Rightarrow> u64 \<Rightarrow> u64 \<Rightarrow> mem \<Rightarrow> case_end option" where
  "case_nf T heap frame m = do {
     let ns = m (contents (m (fr_self frame)) f_ns);
     let key = obj_array_idx m (m (fr_exp frame)) 0;
     (m, kv_pair) \<leftarrow> set_remove_str_key m heap ns key;
     m \<leftarrow> object_delete T m heap kv_pair;
     let ret = obj_array_idx m (m (fr_exp frame)) 1;
     (m, _) \<leftarrow> set_add_str_key T m heap ns key ret;
     Some (Break m ret) }"

text \<open>One turn of the loop. A state that is none of the enumeration matches no case.\<close>

definition frame_case ::
    "types \<Rightarrow> names \<Rightarrow> (u64 \<Rightarrow> mem \<Rightarrow> mem) \<Rightarrow> u64 \<Rightarrow> u64 \<Rightarrow> u64 \<Rightarrow> u64 \<Rightarrow> u64 \<Rightarrow> mem \<Rightarrow> case_end option" where
  "frame_case T N svc heap fifo regs frame ret m =
     (let state = m (fr_state frame) in
      if state = s_cf then case_cf T N svc heap fifo regs frame ret m
      else if state = s_cf_ret then case_cf_ret T N heap frame ret m
      else if state = s_df then do {
        (m, ret) \<leftarrow> new_fn T N m heap (m (fr_self frame)) (obj_array_idx m (m (fr_exp frame)) 0)
           (obj_array_idx m (m (fr_exp frame)) 1);
        Some (Break m ret) }
      else if state = s_ef then case_ef T N heap frame ret m
      else if state = s_ef_0 then case_ef_0 T N heap frame m
      else if state = s_ef_1 then case_ef_1 T N heap frame ret m
      else if state = s_ccf then do {
        (m, ret) \<leftarrow> comp_expr T m heap (m (fr_exp frame));
        Some (Break m ret) }
      else if state = s_nf then case_nf T heap frame m
      else Some (Break m ret))"

definition frame_step ::
    "types \<Rightarrow> names \<Rightarrow> (u64 \<Rightarrow> mem \<Rightarrow> mem) \<Rightarrow> u64 \<Rightarrow> u64 \<Rightarrow> u64 \<Rightarrow> mem \<times> u64 \<times> u64 \<Rightarrow>
     (mem \<times> u64 \<times> u64) option" where
  "frame_step T N svc heap fifo regs s = do {
     let (m, frame, ret) = s;
     e \<leftarrow> frame_case T N svc heap fifo regs frame ret m;
     (case e of
        Go m frame ret \<Rightarrow> Some (m, frame, ret)
      | Break m ret \<Rightarrow> do { (m, frame) \<leftarrow> del_frame m heap frame; Some (m, frame, ret) }) }"

definition run_frames ::
    "types \<Rightarrow> names \<Rightarrow> (u64 \<Rightarrow> mem \<Rightarrow> mem) \<Rightarrow> mem \<Rightarrow> u64 \<Rightarrow> u64 \<Rightarrow> u64 \<Rightarrow> (mem \<times> u64) option" where
  "run_frames T N svc m heap fifo main_expr = do {
     (m, regs) \<leftarrow> init_regs m heap 0;
     let self = obj_array_idx m main_expr 0;
     (m, frame) \<leftarrow> get_frame m heap self main_expr s_cf 0;
     (m, _, ret) \<leftarrow> while_o (\<lambda>(m, frame, ret). frame \<noteq> 0) (frame_step T N svc heap fifo regs) (m, frame, 0);
     m \<leftarrow> free m heap regs;
     m \<leftarrow> object_delete T m heap main_expr;
     Some (m, ret) }"

definition run_prog_stack ::
    "types \<Rightarrow> (u64 \<Rightarrow> mem \<Rightarrow> mem) \<Rightarrow> mem \<Rightarrow> u64 \<Rightarrow> u64 \<Rightarrow> u64 \<Rightarrow> u64 \<Rightarrow> (mem \<times> uart \<times> u64) option" where
  "run_prog_stack T svc m heap fifo code code_sz = do {
     (m, sup1) \<leftarrow> cstr_to_string T m heap (lit ''sup'');
     let m = count_ref m sup1;
     (m, slf1) \<leftarrow> cstr_to_string T m heap (lit ''self'');
     let m = count_ref m slf1;
     let stack_sz = 1024;
     (m, stack) \<leftarrow> alloc m heap stack_sz;
     if stack = 0 then Some (m, uart_puts (lit ''Not enough memory for stack.''), 0)
     else do {
       (m, def) \<leftarrow> cstr_to_string T m heap (lit ''~'');
       (m, call) \<leftarrow> cstr_to_string T m heap (lit '':'');
       (m, reduce) \<leftarrow> cstr_to_string T m heap (lit ''>'');
       (m, comp) \<leftarrow> cstr_to_string T m heap (lit ''<'');
       (m, name) \<leftarrow> cstr_to_string T m heap (lit ''|'');
       (m, op_set) \<leftarrow> set_new T m heap;
       let N = \<lparr>sup = sup1, slf = slf1, ops = op_set\<rparr>;
       let m = count_ref m op_set;
       m \<leftarrow> add_op T m heap op_set def s_df;
       m \<leftarrow> add_op T m heap op_set call s_cf;
       m \<leftarrow> add_op T m heap op_set reduce s_ef;
       m \<leftarrow> add_op T m heap op_set comp s_ccf;
       m \<leftarrow> add_op T m heap op_set name s_nf;
       (m, exp) \<leftarrow> tokenize T m heap code code_sz;
       (m, arg_lst) \<leftarrow> obj_array T m heap 8;
       (m, str) \<leftarrow> cstr_to_string T m heap (lit ''STACK'');
       m \<leftarrow> obj_array_append m heap arg_lst str;
       (m, str) \<leftarrow> cstr_to_string T m heap (lit ''HEAP'');
       m \<leftarrow> obj_array_append m heap arg_lst str;
       (m, main) \<leftarrow> new_fn T N m heap 0 arg_lst exp;
       (m, expr) \<leftarrow> obj_array T m heap 8;
       m \<leftarrow> obj_array_append m heap expr main;
       (m, num) \<leftarrow> word_to_num T m heap (stack div 8);
       m \<leftarrow> obj_array_append m heap expr num;
       (m, num) \<leftarrow> word_to_num T m heap (heap div 8);
       m \<leftarrow> obj_array_append m heap expr num;
       let m = count_ref m expr;
       (m, ret) \<leftarrow> run_frames T N svc m heap fifo expr;
       let m = count_ref m ret;
       m \<leftarrow> free m heap stack;
       m \<leftarrow> object_delete T m heap expr;
       m \<leftarrow> object_delete T m heap op_set;
       m \<leftarrow> gc_collect T m heap;
       Some (uncount_ref m ret, [], ret) } }"

end
