(* ===== verification/Print.thy ===== *)
theory Print
  imports Bignum Containers
begin

text \<open>
  The functions that print objects (\<^verbatim>\<open>rec_obj_print\<close>, \<^verbatim>\<open>print_set\<close>, \<^verbatim>\<open>print_num\<close>, \<^verbatim>\<open>obj_print\<close>,
  \<^verbatim>\<open>queue_print\<close> of \<^verbatim>\<open>datastructures.c\<close> and \<^verbatim>\<open>check_gc\<close> of \<^verbatim>\<open>alloc.c\<close>). They return the memory,
  since a negative number is negated while it is printed, and what they sent to the serial port.
\<close>

text \<open>\<^verbatim>\<open>uart_puts\<close> of a pointer.\<close>

definition puts_at :: "mem \<Rightarrow> u64 \<Rightarrow> uart option" where
  "puts_at m p = do { s \<leftarrow> cstr_at m p; Some (uart_puts s) }"

text \<open>
  The loop that prints the contents of a string: it moves on by one byte at a time and prints the C
  string that starts there. The bytes of a character are the character and seven zeros, so
  each character is printed once.
\<close>

definition puts_bytes :: "mem \<Rightarrow> u64 \<Rightarrow> uart option" where
  "puts_bytes m o1 =
     for_up_o 0 (m (osize o1) * 8)
       (\<lambda>i out. do { s \<leftarrow> puts_at m (contents o1 0 + i); Some (out @ s) }) []"

definition print_num :: "mem \<Rightarrow> u64 \<Rightarrow> (mem \<times> uart) option" where
  "print_num m n =
     (if m (osize n) = 1 then Some (m, uart_print_uint (m (contents n 0)) 16)
      else if 1 < m (osize n) then do {
        let last = m (contents n (m (osize n) - 1));
        (m, out) \<leftarrow> (if last \<noteq> 0 then do { m \<leftarrow> num_negate m n; Some (m, uart_puts (lit ''-'')) }
                    else Some (m, []));
        let out = out @ uart_print_uint (m (contents n (m (osize n) - 2))) 16;
        let out = for_down (m (osize n) - 2) 0 (\<lambda>i out. True)
              (\<lambda>i out. out @ uart_padded_uint (m (contents n (i - 1))) 16 16) out;
        m \<leftarrow> (if last \<noteq> 0 then num_negate m n else Some m);
        Some (m, out) }
      else Some (m, []))"

definition obj_print :: "mem \<Rightarrow> u64 \<Rightarrow> uart option" where
  "obj_print m o1 = do {
     let type = m (otype o1);
     t \<leftarrow> puts_bytes m type;
     Some (uart_puts (lit ''maxs: '') @ uart_print_uint (m (max_sz o1)) 16 @ uart_puts [10]
       @ uart_puts (lit ''refc: '') @ uart_print_uint (m (refcount o1)) 16 @ uart_puts [10]
       @ uart_puts (lit ''size: '') @ uart_print_uint (m (osize o1)) 16 @ uart_puts [10]
       @ uart_puts (lit ''type: '') @ t @ uart_puts [10] @ uart_puts (lit ''cnts: '')
       @ for_up 0 (m (osize o1)) (\<lambda>i out. out @ uart_print_uint (m (contents o1 i)) 16
           @ uart_puts (lit '' '')) []
       @ uart_puts [10]) }"

subsection \<open>Nested objects\<close>

text \<open>
  \<^verbatim>\<open>rec_obj_print\<close> and \<^verbatim>\<open>print_set\<close> call each other. \<open>Print_Items o i\<close> is the loop over the contents
  of \<open>o\<close> from \<open>i\<close> on, \<open>Print_Tree\<close> is \<^verbatim>\<open>_print_set\<close>, \<open>Put\<close> prints a string.
\<close>

datatype print_call =
    Print_Obj u64
  | Print_Items u64 u64
  | Print_Set u64
  | Print_Tree u64
  | Put "u64 list"

type_synonym mem_io = "mem \<times> uart"

definition print_bcode :: "mem \<Rightarrow> u64 \<Rightarrow> uart" where
  "print_bcode m o1 =
     uart_puts (lit ''<('')
     @ for_up 0 (m (osize o1)) (\<lambda>i out. out @ uart_puts (lit ''0x'')
         @ uart_padded_uint (m (contents o1 i)) 16 16 @ uart_puts (lit '', '')) []
     @ uart_puts (lit '')>'')"

definition rec_obj_print_step :: "types \<Rightarrow> u64 \<Rightarrow> mem_io \<Rightarrow> (mem_io \<times> print_call list) option" where
  "rec_obj_print_step T o1 s =
     (let (m, out) = s;
          type = m (otype o1);
          is = (\<lambda>t. obj_cmp m type t = 0)
      in if o1 = 0 then Some ((m, out @ uart_puts (lit ''Null '')), [])
         else if type = 0 then Some ((m, out @ uart_puts (lit ''No Type '')), [])
         else if is (string_type T) then do {
           t \<leftarrow> puts_bytes m o1;
           let e = (if m (osize o1) = 0 then uart_puts ([39, 39]) else []);
           Some ((m, out @ e @ t @ uart_puts (lit '' '')), []) }
         else if is (array_type T) then
           Some (s, [Put (lit ''[''), Put (lit '' ''), Print_Items (m (contents o1 0)) 0,
                     Put (lit '']''), Put (lit '' '')])
         else if is (num_type T) then do {
           (m, t) \<leftarrow> print_num m o1;
           Some ((m, out @ t @ uart_puts (lit '' '')), []) }
         else if is (set_type T) then
           Some (s, [Put (lit ''{''), Put (lit '' ''), Print_Set o1, Put (lit '' ''),
                     Put (lit ''}''), Put (lit '' '')])
         else if is (cell_type T) then
           Some (s, [Put (lit ''(''), Put (lit '' ''), Print_Obj (m (contents o1 0)),
                     Print_Obj (m (contents o1 1)), Put (lit '')''), Put (lit '' '')])
         else if is (function_type T) then
           Some (s, [Put (lit ''<(''), Put (lit '' ''), Print_Obj (m (contents o1 1)),
                     Print_Obj (m (contents o1 2)), Put (lit '')>''), Put (lit '' '')])
         else if is (subarray_type T) then
           Some (s, [Put (lit ''subarray [''), Put (lit '' ''), Print_Items o1 0,
                     Put (lit '']''), Put (lit '' '')])
         else if is (bcode_type T) then Some ((m, out @ print_bcode m o1), [])
         else Some ((m, out @ uart_puts (lit ''???'') @ uart_puts (lit '' '')), []))"

fun print_step :: "types \<Rightarrow> print_call \<Rightarrow> mem_io \<Rightarrow> (mem_io \<times> print_call list) option" where
  "print_step T (Print_Obj o1) s = rec_obj_print_step T o1 s"
| "print_step T (Print_Items o1 i) (m, out) =
     Some ((m, out), if i < m (osize o1) then [Print_Obj (m (contents o1 i)), Print_Items o1 (i + 1)]
                     else [])"
| "print_step T (Print_Set o1) (m, out) = Some ((m, out), [Print_Tree (m (contents o1 0))])"
| "print_step T (Print_Tree tree) (m, out) =
     Some ((m, out), if tree = 0 then []
       else [Print_Obj (nd_data m tree), Print_Tree (nd_right m tree), Print_Tree (nd_left m tree)])"
| "print_step T (Put str) (m, out) = Some ((m, out @ uart_puts str), [])"

definition rec_obj_print :: "types \<Rightarrow> mem \<Rightarrow> u64 \<Rightarrow> (mem \<times> uart) option" where
  "rec_obj_print T m o1 = run_calls (print_step T) [Print_Obj o1] (m, [])"

definition print_set :: "types \<Rightarrow> mem \<Rightarrow> u64 \<Rightarrow> (mem \<times> uart) option" where
  "print_set T m o1 = run_calls (print_step T) [Print_Set o1] (m, [])"

partial_function (option) queue_print_from :: "types \<Rightarrow> mem \<Rightarrow> u64 \<Rightarrow> (mem \<times> uart) option" where
  "queue_print_from T m l =
     (if l = 0 then Some (m, [])
      else do {
        let nx = uart_print_uint (m (l_next l)) 16 @ uart_puts (lit '' '');
        let pv = uart_print_uint (m (l_prev l)) 16 @ uart_puts (lit '' '');
        (m, out) \<leftarrow> rec_obj_print T m (m (l_data l));
        (m, rest) \<leftarrow> queue_print_from T m (m (l_next l));
        Some (m, nx @ pv @ out @ uart_puts [10] @ rest) })"

definition queue_print :: "types \<Rightarrow> mem \<Rightarrow> u64 \<Rightarrow> (mem \<times> uart) option" where
  "queue_print T m q = queue_print_from T m (m (q_first q))"

subsection \<open>The objects the collector knows\<close>

text \<open>\<^verbatim>\<open>_check_gc\<close> prints the objects of the collector's set; the last component is their number.\<close>

partial_function (option) check_gc_tree :: "types \<Rightarrow> mem \<Rightarrow> u64 \<Rightarrow> (mem \<times> uart \<times> u64) option" where
  "check_gc_tree T m tree =
     (if tree = 0 then Some (m, [], 0)
      else do {
        let left = nd_left m tree;
        let right = nd_right m tree;
        let o1 = nd_data m tree - 8;
        let out = uart_print_uint (m (refcount o1)) 16 @ uart_puts (lit '' '')
                  @ uart_print_uint o1 16 @ uart_puts (lit '' '');
        (m, obj) \<leftarrow> rec_obj_print T m o1;
        (m, l, n1) \<leftarrow> check_gc_tree T m left;
        (m, r, n2) \<leftarrow> check_gc_tree T m right;
        Some (m, out @ obj @ uart_puts [10] @ l @ r, 1 + n1 + n2) })"

definition check_gc :: "types \<Rightarrow> mem \<Rightarrow> u64 \<Rightarrow> (mem \<times> uart \<times> u64) option" where
  "check_gc T m gcs = check_gc_tree T m (m (contents gcs 0))"

end
