(* ===== verification/Kernel.thy ===== *)
theory Kernel
  imports Eval Print
begin

text \<open>
  The kernel (\<^verbatim>\<open>main.c\<close>): it makes the heap behind the program image, runs the embedded program and
  prints its result, and the handler that puts exceptions in the FIFO of the virtual machine. The
  address \<open>end1\<close> of the linker symbol \<^verbatim>\<open>_end\<close> and the address of the program text are parameters.
\<close>

text \<open>
  \<^verbatim>\<open>(word*)&_end - ((word)&_end & (sizeof(word)-1)) + sizeof(word)\<close> counts in words, not in bytes: it does not
  align the address of the heap: for an \<^verbatim>\<open>_end\<close> that is not aligned (\<^verbatim>\<open>link.ld\<close> aligns it) \<open>init_heap\<close> refuses.
\<close>

definition conv_mem_start :: "u64 \<Rightarrow> u64" where
  "conv_mem_start end1 = end1 - 8 * (end1 AND (8 - 1)) + 8 * 8"

lemma conv_mem_start_misaligned:
  assumes "end1 mod 8 \<noteq> 0"
  shows "init_heap m (conv_mem_start end1) sz = Some (m, 0, no_types)"
proof -
  have e: "conv_mem_start end1 = end1 + 8 * (8 - (end1 AND (8 - 1)))"
    unfolding conv_mem_start_def right_diff_distrib by (simp only: add_diff_eq diff_add_eq)
  have m8: "unat (x + 8 * y) mod 8 = unat x mod 8" for x y :: u64
  proof -
    have d: "a mod 2 ^ LENGTH(64) mod 8 = a mod 8" for a :: nat by (rule mod_mod_cancel) simp
    have "unat (8 * y) mod 8 = 0" by (simp only: unat_word_ariths d) simp
    moreover have "unat (x + 8 * y) mod 8 = (unat x + unat (8 * y)) mod 8" by (simp only: unat_word_ariths d)
    ultimately show ?thesis by (metis add.right_neutral mod_add_right_eq)
  qed
  have "unat (conv_mem_start end1) mod 8 = unat end1 mod 8" unfolding e by (rule m8)
  then have "conv_mem_start end1 mod 8 \<noteq> 0" using assms unfolding word_unat_eq_iff unat_mod by simp
  then show ?thesis by (simp add: init_heap_def)
qed

definition conv_mem_sz :: u64 where "conv_mem_sz = 1024 * 1024 * 16"

definition global_heap_size :: u64 where "global_heap_size = conv_mem_sz div 8 - hds_sz"

definition kernel_main ::
    "(u64 \<Rightarrow> u64 \<Rightarrow> mem \<Rightarrow> mem) \<Rightarrow> mem \<Rightarrow> u64 \<Rightarrow> u64 \<Rightarrow> u64 \<Rightarrow> (mem \<times> uart) option" where
  "kernel_main svc m device_tree end1 kc_ascii = do {
     let out = uart_puts (lit ''Device Tree: '') @ uart_print_uint device_tree 16 @ uart_puts [10];
     (m, heap, T) \<leftarrow> init_heap m (conv_mem_start end1) (conv_mem_sz div 8);
     (m, fifo) \<leftarrow> concurrent_fifo m heap 16 16 1;
     (m, kernel_code) \<leftarrow> array m heap 64 1;
     (m, kernel_code) \<leftarrow> array_append_str m heap kernel_code kc_ascii;
     (m, out1, obj) \<leftarrow> run_prog_stack T (svc fifo) m heap fifo kernel_code (array_len m kernel_code);
     m \<leftarrow> array_delete m heap kernel_code;
     m \<leftarrow> concurrent_fifo_delete m heap fifo;
     (m, out2) \<leftarrow> rec_obj_print T m obj;
     let m = count_ref m obj;
     m \<leftarrow> object_delete T m heap obj;
     m \<leftarrow> gc_collect T m heap;
     let out3 = uart_print_uint (m (gc_num_alloced heap)) 16 @ uart_puts [10]
                @ uart_print_uint (m (true_num_alloced heap)) 16 @ uart_puts [10];
     (m, out4, _) \<leftarrow> check_gc T m (m (gc_set heap));
     Some (m, out @ out1 @ out2 @ uart_puts [10] @ out3 @ out4 @ uart_puts (lit ''Done.'' @ [10])) }"

text \<open>The local variable \<^verbatim>\<open>s_num\<close> of the exception handler.\<close>

definition s_num :: u64 where "s_num = 0x7e800"

text \<open>
  The exception handler adds the class of the exception and the low 24 bits of its syndrome to the
  FIFO. Its arguments are 32 bits wide.
\<close>

definition exc_number :: "32 word \<Rightarrow> 32 word \<Rightarrow> u64" where
  "exc_number type esr = (ucast esr AND drop_bit 40 (-1)) OR push_bit 32 (ucast type)"

definition exc_handler :: "u64 \<Rightarrow> mem \<Rightarrow> 32 word \<Rightarrow> 32 word \<Rightarrow> mem" where
  "exc_handler fifo m type esr =
     fst (concurrent_fifo_add (m(s_num := exc_number type esr)) fifo s_num)"

end
