(* ===== verification/Spec2Isabelle.thy ===== *)
theory Spec2Isabelle
  imports Collector Gc_Fields Obj_Props Num_Props Queue_Props Vm_Props X86_Props X86_Avl Util Kernel
begin

text \<open>
  \<^bold>\<open>A verification of the lisp machine.\<close>

  The program is a kernel for the Raspberry Pi 3 that runs without an operating system. It contains a
  memory allocator, a garbage collector, a library of data structures, an assembler and a virtual machine
  for its code, and an interpreter of a small lisp that can assemble and run such code. An older version for
  x86_64 with UEFI is in the directory \<^verbatim>\<open>x86_64\<close>.

  \<^bold>\<open>The parts and how they interact.\<close> \<^verbatim>\<open>main\<close> makes a heap behind the program image, runs the embedded program
  text with the interpreter and starts the machine. The interpreter keeps all its data (strings, numbers,
  arrays, sets, functions, stack frames) in objects of the heap, its name spaces are sets of pairs, its work
  lists are queues. Sets, the free blocks of the allocator and the set of objects known to the collector are
  AVL trees. The machine takes its exceptions from a FIFO of two ring buffers, which an interrupt handler
  fills.

  \<^bold>\<open>The model.\<close> Memory is one total function \<open>mem\<close> from byte addresses to 64-bit words, and every C
  function is a HOL function that takes the memory and returns the new one with its result. Null is 0, a
  pointer is its address, \<^verbatim>\<open>p->f\<close> is the memory at the address of the field; arithmetic wraps round as in C.
  So a dangling or aliased pointer has its C meaning, and separation is something to be proved. A function
  that loops over memory or allocates returns an option: \<open>None\<close> means that the C function does not return.
  Recursions whose end depends on what memory holds are \<open>partial_function\<close>s; those that count a word up or
  down are functions with a measure. Functions that call one another run on an explicit stack of calls
  (\<open>run_calls\<close>). There is no fuel anywhere. A theorem of the form \<open>\<exists>m'. f m = Some m' \<and> \<dots>\<close> says that the
  function returns. Local variables whose address is taken stand at fixed addresses below the program image,
  which starts at \<^verbatim>\<open>0x80000\<close>: \<open>find_node\<close> \<^verbatim>\<open>0x7ff00\<close>, \<open>set_buf\<close> \<^verbatim>\<open>0x7fe00\<close>, \<open>str_item\<close> \<^verbatim>\<open>0x7fd00\<close>, \<open>mul_buf\<close>
  \<^verbatim>\<open>0x7fc00\<close>, \<open>refuse\<close> \<^verbatim>\<open>0x7fb00\<close>, \<open>gc_lim\<close> \<^verbatim>\<open>0x7fa00\<close>, \<open>asm_word\<close> \<^verbatim>\<open>0x7f900\<close>, \<open>asm_lbl\<close> \<^verbatim>\<open>0x7f910\<close>, \<open>tok_buf\<close>
  \<^verbatim>\<open>0x7f880\<close>, \<open>s_num\<close> \<^verbatim>\<open>0x7e800\<close>, \<open>tagged_item\<close> \<^verbatim>\<open>0x7e000\<close>, \<open>exc_num\<close> \<^verbatim>\<open>0x7d000\<close>, \<open>x_buf\<close> \<^verbatim>\<open>0x7c000\<close>. The global
  type objects (\<^verbatim>\<open>num_type\<close>, \<^verbatim>\<open>string_type\<close> and so on) are the fields of the record \<open>types\<close>. What is printed is
  a list of characters.

  \<^bold>\<open>Theories that model the code\<close> (the functions have the names of the source; \<^verbatim>\<open>_avl_insert\<close>, \<^verbatim>\<open>_avl_delete\<close> and
  \<^verbatim>\<open>_object_delete\<close> are \<open>avl_insert_node\<close>, \<open>avl_delete_node\<close> and \<open>object_free\<close>, \<^verbatim>\<open>set\<close> is \<open>set_new\<close>, \<^verbatim>\<open>main\<close> is
  \<open>kernel_main\<close>):

  \<^item> \<open>Prelude\<close>: words, memory, shifts, loops, the stack of calls (\<^verbatim>\<open>config.h\<close>);
  \<^item> \<open>Util\<close>: \<^verbatim>\<open>util.c\<close>, printing of numbers, comparison and copying of memory;
  \<^item> \<open>Avl_Model\<close>: the AVL trees of \<^verbatim>\<open>datastructures.c\<close>. A node is four words; the two low bits of the pointer
    to its parent hold its balance;
  \<^item> \<open>Heap_Model\<close>: \<open>alloc\<close>, \<open>free\<close>, \<open>realloc\<close>, \<open>avl_merge\<close>; the heap is a header (the fields \<open>heap_end\<close>,
    \<open>fmds_ptr\<close>, \<dots> of \<^verbatim>\<open>hds\<close>) and blocks that begin with their size; free blocks are nodes of a tree;
  \<^item> \<open>Objects\<close>: objects, comparison, pairs, sets, arrays of objects, deletion by reference count;
  \<^item> \<open>Containers\<close>: growing arrays, the linked queue, ring buffers, the FIFO;
  \<^item> \<open>Bignum\<close>: numbers of any size; \<open>Print\<close>: the printing of objects;
  \<^item> \<open>Gc\<close>: the collector of \<^verbatim>\<open>alloc.c\<close> and the initialisation of heap and types;
  \<^item> \<open>Asm\<close> and \<open>Vm\<close>: the assembler, the machine and their link to the interpreter (\<^verbatim>\<open>asm.c\<close>). The registers
    are words of memory; the supervisor call \<^verbatim>\<open>svc\<close> is an argument of the machine;
  \<^item> \<open>Lisp\<close> and \<open>Eval\<close>: tokenizer, name spaces, the recursive evaluator and the evaluator on frames (\<^verbatim>\<open>lisp.c\<close>);
  \<^item> \<open>Kernel\<close>: \<^verbatim>\<open>main.c\<close>;
  \<^item> \<open>X86_Avl\<close>, \<open>X86_Gc\<close>, \<open>X86_Num\<close>: what the x86_64 version does differently: the rotations and the search
    for a free block, objects as blocks of the collector, marking, sweeping and collecting, and numbers with
    division. Names begin with \<open>x_\<close> where the root directory has the function too.

  \<^bold>\<open>Interfaces.\<close> A locale states what one part relies on in another; each is interpreted on the code's model.
  \<open>allocator\<close> (in \<open>Heap_Client\<close>, interpretation \<open>heap\<close>) gives clients of the heap a set of live blocks that
  never overlap; \<open>node_index\<close> (\<open>Avl_Index\<close>, \<open>avl_nodes\<close>) is the tree as a sequence of addressed data;
  \<open>key_order\<close> and \<open>key_tree\<close> (\<open>Avl_Order\<close>; interpretations \<open>basic\<close>, \<open>objects\<close>, \<open>pairs\<close>, \<open>lookup\<close>) are trees ordered by a
  comparison function; \<open>bounded_queue\<close> (\<open>Ring\<close>, \<open>ring\<close>) is the ring buffer; \<open>deque\<close> (\<open>Queue_Props\<close>, \<open>queue\<close>) the
  linked queue.

  \<^bold>\<open>Lemmas and properties.\<close>

  \<^item> Trees: \<open>Avl_Tree\<close> rebalances abstract trees with contexts; \<open>Avl_Mem\<close> says when memory holds a tree;
    \<open>Avl_Rotate\<close>, \<open>Avl_Insert\<close>, \<open>Avl_Delete\<close> prove that the code does on memory what the abstract functions do.
    \<open>Avl_Props\<close>: insertion, removal and search keep order and balance and change the data as intended, the height is
    logarithmic, the self-check finds the wrong balance factors and no others.
  \<^item> Heap: \<open>Heap_Inv\<close> states the invariant (the blocks tile the heap, no two free blocks are neighbours, the
    tree holds exactly the free blocks, the counters are right); \<open>Heap_Alloc\<close> and \<open>Heap_Free\<close> show that it is
    kept. \<open>Heap_Props\<close>: each operation, and what holds in all states that are reached from an initialised heap:
    live blocks are disjoint, the counter is their number, and every sequence of requests
    (\<open>run_requests\<close>) runs to its end. A heap lies
    below \<open>2 ^ 60\<close> bytes, aligned to words, so that sizes do not wrap.
  \<^item> Objects and sets: \<open>Avl_Alloc\<close> has trees with nodes from the heap, \<open>Obj_Vector\<close> new and growing objects,
    \<open>Obj_Set\<close> the order of objects. \<open>Obj_Props\<close>: \<open>object\<close> and \<open>object_append_word\<close>, also when the object
    moves. \<open>Set_Props\<close>: \<open>set_add\<close> and \<open>in_set\<close> are insertion and lookup in an ordered set of word sequences.
  \<^item> Collector: \<open>Collector\<close> shows that \<open>gc_alloc\<close>, \<open>gc_add\<close> and \<open>gc_free\<close> keep the tree of the collector's set, its
    counter and the live blocks of the heap in step (\<open>collected\<close>), on every path on which memory runs out.
    \<open>Gc_Fields\<close>: the reference count word is three independent fields.
  \<^item> Queues: \<open>Queue\<close> and \<open>Queue_Props\<close> refine the linked queue to a list, with its links as the only blocks that
    come and go; \<open>Ring\<close>, \<open>Fifo\<close>, \<open>Fifo_Props\<close>: ring buffers, and the order of the FIFO by the tags of its items.
  \<^item> Numbers: \<open>Num_Value\<close>, \<open>Num_Add\<close>, \<open>Num_Props\<close>: \<open>num_add\<close> returns the sum for all lengths and signs,
    \<open>num_negate\<close> the negation, with the one number that has none.
  \<^item> Machine: \<open>Instr\<close> has the fields of an instruction word, \<open>Asm_Text\<close> the spelling of instructions and what
    the scanner and \<open>compile_token\<close> make of it. \<open>Vm_Props\<close>: the machine decodes what the assembler makes of
    the text of an instruction; arithmetic and shift instructions; an exception is delivered with its frame, and the return from it restores the machine.
  \<^item> x86_64: the rotations and the search have the effect of those of the root directory (\<open>X86_Avl\<close>), addition,
    shifts and comparison are the same functions over another allocator (\<open>X86_Num\<close>), and the count of leading
    zeros behind the division is exact (\<open>X86_Props\<close>).

  Properties with hypotheses have witnesses: they hold at a concrete heap at \<^verbatim>\<open>0x80000\<close>, tree or buffer.

  \<^bold>\<open>Not modelled.\<close> \<^verbatim>\<open>boot.S\<close> (assembly), the reading of the serial port and the hook \<^verbatim>\<open>breakp\<close> (device access),
  \<^verbatim>\<open>kc_ascii.h\<close> (generated; its text is an argument of \<open>kernel_main\<close>), the vendored library \<^verbatim>\<open>gnu-efi\<close>; of the x86_64
  version its graphics, console and UEFI glue, its older interpreter and assembler, and the functions that are
  those of the root directory. Interrupts are not interleaved with the machine: the FIFO is used by one
  caller at a time. The marking and sweeping of the collector, the assembler and the evaluators are modelled completely, but
  nothing is proved of them as a whole: they contain the faults listed with the development, such as the second deletion of
  the main expression by \<^verbatim>\<open>_run_prog\<close>, and a claim would have to assume them away.
\<close>

end
